(* ===== verification/Prelude.thy ===== *)
theory Prelude
  imports Complex_Main "HOL-Library.Signed_Division" "HOL-Library.Code_Target_Nat"
begin

text \<open>
  Shared vocabulary of the development: the result type of fallible Rust functions, the
  fixed-width integer operations the sources use, and the part of \<^verbatim>\<open>str\<close> they call
  (trimming, splitting, searching, number parsing and printing).

  A Rust \<^verbatim>\<open>Result<T, E>\<close> is a sum \<open>'e + 'a\<close> with \<open>Inl\<close> for the error; a panic is one of the
  errors. A Rust string is the list of its bytes; white space means ASCII white space.
\<close>

named_theorems rust_int \<open>facts about fixed-width integers\<close>
named_theorems rust_str \<open>facts about string functions\<close>

section \<open>Results\<close>

definition bindE :: "'e + 'a \<Rightarrow> ('a \<Rightarrow> 'e + 'b) \<Rightarrow> 'e + 'b" where
  "bindE m f = (case m of Inl e \<Rightarrow> Inl e | Inr x \<Rightarrow> f x)"

definition ok_or :: "'e \<Rightarrow> 'a option \<Rightarrow> 'e + 'a" where
  "ok_or e v = (case v of None \<Rightarrow> Inl e | Some x \<Rightarrow> Inr x)"

fun mapM :: "('a \<Rightarrow> 'e + 'b) \<Rightarrow> 'a list \<Rightarrow> 'e + 'b list" where
  "mapM f [] = Inr []"
| "mapM f (x # xs) = bindE (f x) (\<lambda>y. bindE (mapM f xs) (\<lambda>ys. Inr (y # ys)))"

section \<open>Fixed-width integers\<close>

text \<open>
  A value of type \<^verbatim>\<open>i64\<close> is an \<^typ>\<open>int\<close>; arithmetic in a release build wraps, which
  \<open>wrap_i64\<close> writes out. Division and remainder truncate toward zero and panic on a zero
  divisor and on \<^verbatim>\<open>i64::MIN / -1\<close>, in every build.
\<close>

definition i64_min :: int where "i64_min = - (2 ^ 63)"
definition i64_max :: int where "i64_max = 2 ^ 63 - 1"
definition u32_max :: nat where "u32_max = 2 ^ 32 - 1"
definition u64_max :: nat where "u64_max = 2 ^ 64 - 1"

definition wrap_i64 :: "int \<Rightarrow> int" where
  "wrap_i64 x = (x + 2 ^ 63) mod 2 ^ 64 - 2 ^ 63"

definition in_i64 :: "int \<Rightarrow> bool" where
  "in_i64 x \<longleftrightarrow> i64_min \<le> x \<and> x \<le> i64_max"

definition wrap_u32 :: "nat \<Rightarrow> nat" where "wrap_u32 n = n mod 2 ^ 32"
definition wrap_u64 :: "nat \<Rightarrow> nat" where "wrap_u64 n = n mod 2 ^ 64"

section \<open>Strings\<close>

definition is_ws :: "char \<Rightarrow> bool" where
  "is_ws c \<longleftrightarrow> (let n = (of_char c :: nat) in n = 32 \<or> (9 \<le> n \<and> n \<le> 13))"

definition trim_start :: "string \<Rightarrow> string" where "trim_start s = dropWhile is_ws s"
definition trim_end :: "string \<Rightarrow> string" where "trim_end s = rev (dropWhile is_ws (rev s))"
definition trim :: "string \<Rightarrow> string" where "trim s = trim_end (trim_start s)"

fun split_on :: "char \<Rightarrow> string \<Rightarrow> string list" where
  "split_on d [] = [[]]"
| "split_on d (c # cs) =
     (if c = d then [] # split_on d cs
      else (case split_on d cs of [] \<Rightarrow> [[c]] | p # ps \<Rightarrow> (c # p) # ps))"

fun split_once :: "char \<Rightarrow> string \<Rightarrow> (string \<times> string) option" where
  "split_once d [] = None"
| "split_once d (c # cs) =
     (if c = d then Some ([], cs)
      else map_option (\<lambda>(a, b). (c # a, b)) (split_once d cs))"

fun split_ws_acc :: "string \<Rightarrow> string \<Rightarrow> string list" where
  "split_ws_acc w [] = (if w = [] then [] else [w])"
| "split_ws_acc w (c # cs) =
     (if is_ws c then (if w = [] then split_ws_acc [] cs else w # split_ws_acc [] cs)
      else split_ws_acc (w @ [c]) cs)"

definition split_whitespace :: "string \<Rightarrow> string list" where
  "split_whitespace s = split_ws_acc [] s"

definition starts_with :: "string \<Rightarrow> string \<Rightarrow> bool" where
  "starts_with p s \<longleftrightarrow> take (length p) s = p"

definition ends_with :: "string \<Rightarrow> string \<Rightarrow> bool" where
  "ends_with p s \<longleftrightarrow> length p \<le> length s \<and> drop (length s - length p) s = p"

definition strip_prefix :: "string \<Rightarrow> string \<Rightarrow> string option" where
  "strip_prefix p s = (if starts_with p s then Some (drop (length p) s) else None)"

definition strip_suffix :: "string \<Rightarrow> string \<Rightarrow> string option" where
  "strip_suffix p s = (if ends_with p s then Some (take (length s - length p) s) else None)"

fun contains_str :: "string \<Rightarrow> string \<Rightarrow> bool" where
  "contains_str p [] \<longleftrightarrow> p = []"
| "contains_str p (c # cs) \<longleftrightarrow> starts_with p (c # cs) \<or> contains_str p cs"

fun find_char :: "char \<Rightarrow> string \<Rightarrow> nat option" where
  "find_char d [] = None"
| "find_char d (c # cs) = (if c = d then Some 0 else map_option Suc (find_char d cs))"

definition lower_char :: "char \<Rightarrow> char" where
  "lower_char c =
     (let n = (of_char c :: nat) in if 65 \<le> n \<and> n \<le> 90 then char_of (n + 32) else c)"

definition to_ascii_lowercase :: "string \<Rightarrow> string" where
  "to_ascii_lowercase s = map lower_char s"

definition digit_val :: "char \<Rightarrow> nat option" where
  "digit_val c = (let n = (of_char c :: nat) in if 48 \<le> n \<and> n \<le> 57 then Some (n - 48) else None)"

definition digit_char :: "nat \<Rightarrow> char" where
  "digit_char d = char_of (48 + d)"

fun digits_acc :: "nat \<Rightarrow> string \<Rightarrow> nat option" where
  "digits_acc acc [] = Some acc"
| "digits_acc acc (c # cs) =
     (case digit_val c of None \<Rightarrow> None | Some d \<Rightarrow> digits_acc (acc * 10 + d) cs)"

definition parse_digits :: "string \<Rightarrow> nat option" where
  "parse_digits s = (if s = [] then None else digits_acc 0 s)"

definition parse_signed :: "int \<Rightarrow> int \<Rightarrow> string \<Rightarrow> int option" where
  "parse_signed lo hi s =
     (let v = (case s of [] \<Rightarrow> None
               | c # cs \<Rightarrow> if c = CHR ''-'' then map_option (\<lambda>n. - int n) (parse_digits cs)
                           else if c = CHR ''+'' then map_option int (parse_digits cs)
                           else map_option int (parse_digits s))
      in case v of None \<Rightarrow> None | Some x \<Rightarrow> if lo \<le> x \<and> x \<le> hi then Some x else None)"

abbreviation parse_i64 :: "string \<Rightarrow> int option" where
  "parse_i64 \<equiv> parse_signed i64_min i64_max"

definition parse_unsigned :: "nat \<Rightarrow> string \<Rightarrow> nat option" where
  "parse_unsigned hi s =
     (let v = (case s of [] \<Rightarrow> None
               | c # cs \<Rightarrow> if c = CHR ''+'' then parse_digits cs else parse_digits s)
      in case v of None \<Rightarrow> None | Some x \<Rightarrow> if x \<le> hi then Some x else None)"

fun show_nat :: "nat \<Rightarrow> string" where
  "show_nat n = (if n < 10 then [digit_char n] else show_nat (n div 10) @ [digit_char (n mod 10)])"

declare show_nat.simps [simp del]

definition show_int :: "int \<Rightarrow> string" where
  "show_int i = (if i < 0 then CHR ''-'' # show_nat (nat (- i)) else show_nat (nat i))"

fun join :: "string \<Rightarrow> string list \<Rightarrow> string" where
  "join d [] = []"
| "join d [x] = x"
| "join d (x # y # ys) = x @ d @ join d (y # ys)"

section \<open>Facts about results\<close>

lemma bindE_simps [simp]:
  "bindE (Inl e) f = Inl e"
  "bindE (Inr x) f = f x"
  by (simp_all add: bindE_def)

lemma bindE_eq_Inr [simp]: "bindE m f = Inr y \<longleftrightarrow> (\<exists>x. m = Inr x \<and> f x = Inr y)"
  by (cases m) auto

lemma bindE_eq_Inl: "bindE m f = Inl e \<longleftrightarrow> m = Inl e \<or> (\<exists>x. m = Inr x \<and> f x = Inl e)"
  by (cases m) auto

lemma ok_or_simps [simp]: "ok_or e None = Inl e" "ok_or e (Some x) = Inr x"
  by (simp_all add: ok_or_def)

lemma ok_or_eq_Inr [simp]: "ok_or e v = Inr x \<longleftrightarrow> v = Some x"
  by (cases v) auto

lemma mapM_length: "mapM f xs = Inr ys \<Longrightarrow> length ys = length xs"
  by (induction xs arbitrary: ys) auto

lemma mapM_nth: "mapM f xs = Inr ys \<Longrightarrow> i < length xs \<Longrightarrow> f (xs ! i) = Inr (ys ! i)"
proof (induction xs arbitrary: ys i)
  case (Cons x xs)
  then show ?case by (cases i) auto
qed simp

lemma mapM_Inr_all: "(\<And>x. x \<in> set xs \<Longrightarrow> f x = Inr (g x)) \<Longrightarrow> mapM f xs = Inr (map g xs)"
  by (induction xs) auto

section \<open>Facts about fixed-width integers\<close>

lemmas i64_bounds = i64_min_def i64_max_def

lemma wrap_i64_id [rust_int]: "in_i64 x \<Longrightarrow> wrap_i64 x = x"
  by (simp add: wrap_i64_def in_i64_def i64_bounds)

lemma in_i64I: "0 \<le> x \<Longrightarrow> x \<le> i64_max \<Longrightarrow> in_i64 x"
  by (simp add: in_i64_def i64_bounds)

lemma wrap_i64_nonneg: "0 \<le> x \<Longrightarrow> x < 2 ^ 63 \<Longrightarrow> wrap_i64 x = x"
  by (simp add: wrap_i64_id in_i64_def i64_bounds)

lemma in_i64_wrap [rust_int]: "in_i64 (wrap_i64 x)"
proof -
  have "0 \<le> (x + 2 ^ 63) mod 2 ^ 64" "(x + 2 ^ 63) mod 2 ^ 64 < 2 ^ 64" by simp_all
  then show ?thesis by (simp add: wrap_i64_def in_i64_def i64_bounds)
qed

lemma wrap_u32_id [rust_int]: "n \<le> u32_max \<Longrightarrow> wrap_u32 n = n"
  by (simp add: wrap_u32_def u32_max_def)

lemma wrap_u64_id [rust_int]: "n \<le> u64_max \<Longrightarrow> wrap_u64 n = n"
  by (simp add: wrap_u64_def u64_max_def)

lemma smod_nonneg [rust_int]: "0 \<le> a \<Longrightarrow> 0 < b \<Longrightarrow> a smod b = a mod (b::int)"
  by (simp add: signed_modulo_int_def sgn_if)

lemma sdiv_nonneg [rust_int]: "0 \<le> (a::int) \<Longrightarrow> 0 \<le> b \<Longrightarrow> a sdiv b = a div b"
  by (cases "b = 0"; cases "a = 0") (auto simp: signed_divide_int_def)

section \<open>Facts about strings\<close>

lemma split_on_nonempty [simp]: "split_on d s \<noteq> []"
  by (induction s) (auto split: list.splits)

lemma split_on_absent [rust_str]: "d \<notin> set s \<Longrightarrow> split_on d s = [s]"
  by (induction s) auto

lemma split_on_append [rust_str]: "d \<notin> set s \<Longrightarrow> split_on d (s @ d # t) = s # split_on d t"
  by (induction s) auto

lemma split_on_no_sep: "p \<in> set (split_on d s) \<Longrightarrow> d \<notin> set p"
proof (induction s arbitrary: p)
  case (Cons c cs)
  then show ?case by (cases "split_on d cs") (auto split: if_splits)
qed simp

lemma split_on_join: "join [d] (split_on d s) = s"
proof (induction s)
  case (Cons c cs)
  then show ?case
    by (cases "split_on d cs"; cases "tl (split_on d cs)") auto
qed simp

lemma join_split_on:
  assumes "xs \<noteq> []" and "\<And>x. x \<in> set xs \<Longrightarrow> d \<notin> set x"
  shows "split_on d (join [d] xs) = xs"
  using assms by (induction "[d]" xs rule: join.induct) (auto simp: rust_str)

lemma split_once_absent [rust_str]: "d \<notin> set s \<Longrightarrow> split_once d s = None"
  by (induction s) auto

lemma split_once_append [rust_str]: "d \<notin> set s \<Longrightarrow> split_once d (s @ d # t) = Some (s, t)"
  by (induction s) auto

lemma split_once_Some: "split_once d s = Some (a, b) \<longleftrightarrow> s = a @ d # b \<and> d \<notin> set a"
proof (induction s arbitrary: a)
  case (Cons c cs)
  show ?case
  proof (cases a)
    case Nil
    then show ?thesis by (auto simp: Cons)
  next
    case (Cons x xs)
    then show ?thesis using Cons.IH [of xs] by auto
  qed
qed simp

lemma dropWhile_hd: "xs = [] \<or> \<not> P (hd xs) \<Longrightarrow> dropWhile P xs = xs"
  by (cases xs) auto

lemma trim_id [rust_str]:
  assumes "s = [] \<or> (\<not> is_ws (hd s) \<and> \<not> is_ws (last s))"
  shows "trim s = s"
proof -
  from assms have "dropWhile is_ws s = s" and "dropWhile is_ws (rev s) = rev s"
    by (intro dropWhile_hd; auto simp: hd_rev)+
  then show ?thesis by (simp add: trim_def trim_start_def trim_end_def)
qed

lemma digit_val_char [simp]: "d < 10 \<Longrightarrow> digit_val (digit_char d) = Some d"
  by (simp add: digit_val_def digit_char_def)

lemma digits_acc_append [rust_str]:
  "digits_acc a (s @ t) = (case digits_acc a s of None \<Rightarrow> None | Some b \<Rightarrow> digits_acc b t)"
  by (induction s arbitrary: a) (auto split: option.splits)

lemma show_nat_nonempty [simp]: "show_nat n \<noteq> []"
  by (subst show_nat.simps) simp

lemma digits_acc_show_nat: "digits_acc 0 (show_nat n) = Some n"
proof (induction n rule: show_nat.induct)
  case (1 n)
  then show ?case
    by (cases "n < 10") (auto simp: show_nat.simps [of n] digits_acc_append)
qed

lemma parse_digits_show_nat [simp]: "parse_digits (show_nat n) = Some n"
  by (simp add: parse_digits_def digits_acc_show_nat)

lemma show_nat_digits: "c \<in> set (show_nat n) \<Longrightarrow> \<exists>d < 10. c = digit_char d"
proof (induction n rule: show_nat.induct)
  case (1 n)
  then show ?case
    by (cases "n < 10") (auto simp: show_nat.simps [of n] intro: exI [of _ "n mod 10"])
qed

lemma of_char_digit_char [simp]: "d < 10 \<Longrightarrow> (of_char (digit_char d) :: nat) = 48 + d"
  by (simp add: digit_char_def)

lemma show_nat_char_range: "c \<in> set (show_nat n) \<Longrightarrow> 48 \<le> (of_char c :: nat) \<and> (of_char c :: nat) \<le> 57"
  by (drule show_nat_digits) auto

lemma show_nat_not_ws [rust_str]: "c \<in> set (show_nat n) \<Longrightarrow> \<not> is_ws c"
  by (drule show_nat_char_range) (auto simp: is_ws_def Let_def)

lemma show_nat_no_char:
  assumes "(of_char d :: nat) < 48 \<or> 57 < (of_char d :: nat)"
  shows "d \<notin> set (show_nat n)"
  using assms show_nat_char_range [of d n] by auto

lemma trim_show_nat [simp]: "trim (show_nat n) = show_nat n"
proof (rule trim_id)
  have "hd (show_nat n) \<in> set (show_nat n)" "last (show_nat n) \<in> set (show_nat n)"
    by simp_all
  then show "show_nat n = [] \<or> \<not> is_ws (hd (show_nat n)) \<and> \<not> is_ws (last (show_nat n))"
    by (blast dest: show_nat_not_ws)
qed

lemma parse_signed_show_nat [rust_str]:
  assumes "lo \<le> int n" and "int n \<le> hi"
  shows "parse_signed lo hi (show_nat n) = Some (int n)"
proof (cases "show_nat n")
  case (Cons c cs)
  then have "c \<noteq> CHR ''-''" "c \<noteq> CHR ''+''"
    using show_nat_no_char [of "CHR ''-''" n] show_nat_no_char [of "CHR ''+''" n] by auto
  then have "parse_signed lo hi (c # cs) = Some (int n)"
    using assms Cons parse_digits_show_nat [of n] by (simp add: parse_signed_def)
  then show ?thesis by (simp add: Cons)
qed simp

lemma parse_signed_range: "parse_signed lo hi s = Some x \<Longrightarrow> lo \<le> x \<and> x \<le> hi"
  by (auto simp: parse_signed_def Let_def split: option.splits if_splits)

lemma parse_unsigned_range: "parse_unsigned hi s = Some x \<Longrightarrow> x \<le> hi"
  by (auto simp: parse_unsigned_def Let_def split: option.splits if_splits)

lemma digits_acc_range: "digits_acc a s = Some n \<Longrightarrow> c \<in> set s \<Longrightarrow> 48 \<le> (of_char c :: nat) \<and> (of_char c :: nat) \<le> 57"
  by (induction s arbitrary: a) (auto simp: digit_val_def Let_def split: option.splits if_splits)

lemma digits_acc_bound: "digits_acc a s = Some n \<Longrightarrow> a * 10 ^ length s \<le> n \<and> n < (a + 1) * 10 ^ length s"
proof (induction s arbitrary: a)
  case (Cons c cs)
  then obtain d where "digit_val c = Some d" and n: "digits_acc (a * 10 + d) cs = Some n"
    by (auto split: option.splits)
  then have d: "d \<le> 9" "digits_acc (a * 10 + d) cs = Some n"
    by (auto simp: digit_val_def Let_def split: if_splits)
  let ?p = "(10::nat) ^ length cs"
  have IH: "(a * 10 + d) * ?p \<le> n" "n < (a * 10 + d + 1) * ?p" using Cons.IH [OF d(2)] by simp_all
  have "a * 10 * ?p \<le> (a * 10 + d) * ?p" by (intro mult_right_mono) simp_all
  with IH(1) have "a * 10 * ?p \<le> n" by linarith
  moreover have "(a * 10 + d + 1) * ?p \<le> (a + 1) * 10 * ?p"
    using d(1) by (intro mult_right_mono) simp_all
  with IH(2) have "n < (a + 1) * 10 * ?p" by linarith
  ultimately show ?case by (simp add: algebra_simps)
qed simp

lemma parse_digits_facts:
  assumes "parse_digits s = Some n"
  shows "s \<noteq> []" "n < 10 ^ length s" "\<And>c. c \<in> set s \<Longrightarrow> 48 \<le> (of_char c :: nat) \<and> (of_char c :: nat) \<le> 57"
  using assms digits_acc_bound [of 0 s n] digits_acc_range [of 0 s n]
  by (auto simp: parse_digits_def split: if_splits)

lemma parse_digits_no_char:
  "parse_digits s = Some n \<Longrightarrow> (of_char d :: nat) < 48 \<or> 57 < (of_char d :: nat) \<Longrightarrow> d \<notin> set s"
  using parse_digits_facts(3) [of s n d] by auto

lemma parse_digits_not_ws: "parse_digits s = Some n \<Longrightarrow> c \<in> set s \<Longrightarrow> \<not> is_ws c"
  by (drule (1) parse_digits_facts(3)) (auto simp: is_ws_def Let_def)

lemma parse_signed_digits [rust_str]:
  assumes "parse_digits s = Some n" and "lo \<le> int n" and "int n \<le> hi"
  shows "parse_signed lo hi s = Some (int n)"
proof (cases s)
  case (Cons c cs)
  then have "c \<noteq> CHR ''-''" "c \<noteq> CHR ''+''"
    using parse_digits_no_char [OF assms(1), of "CHR ''-''"] parse_digits_no_char [OF assms(1), of "CHR ''+''"]
    by auto
  with Cons assms show ?thesis by (simp add: parse_signed_def)
qed (use assms in \<open>simp add: parse_digits_def\<close>)

end
