(* ===== verification/Exec_Config.thy ===== *)
theory Exec_Config
  imports Prelude
begin

text \<open>
  The load profile of a scenario. The type is declared by the published SDK crate; its
  seven variants and their fields are the ones that
  \<^verbatim>\<open>crates/tropel-core/src/segment.rs\<close> (\<^verbatim>\<open>ExecutionSegment::apply_with\<close>) takes apart and
  rebuilds exhaustively. The think-time block is only ever copied there, so its type is a
  parameter. VU counts (\<^verbatim>\<open>u32\<close>) and iteration budgets (\<^verbatim>\<open>u64\<close>) are natural numbers, rates
  (\<^verbatim>\<open>f64\<close>) are rationals: rounding, infinities and not-a-number are not modelled.
\<close>

record stage =
  stage_duration :: string
  stage_target :: nat

record arrival_rate_stage =
  rate_duration :: string
  rate_target :: rat

datatype 'think execution_config =
    ConstantVus (cv_vus: nat) (cv_duration: string) (cv_graceful_stop: "string option")
      (cv_think: 'think)
  | RampingVus (rv_stages: "stage list") (rv_start_vus: nat)
      (rv_graceful_ramp_down: "string option") (rv_graceful_stop: "string option")
      (rv_think: 'think)
  | ConstantArrivalRate (ca_rate: rat) (ca_time_unit: string) (ca_duration: string)
      (ca_pre_alloc_vus: nat) (ca_max_vus: nat) (ca_graceful_stop: "string option")
      (ca_think: 'think)
  | SharedIterations (si_iterations: nat) (si_max_duration: "string option") (si_vus: nat)
      (si_graceful_stop: "string option") (si_think: 'think)
  | RampingArrivalRate (ra_start_rate: rat) (ra_stages: "arrival_rate_stage list")
      (ra_time_unit: string) (ra_pre_alloc_vus: nat) (ra_max_vus: nat)
      (ra_graceful_stop: "string option") (ra_think: 'think)
  | PerVUIterations (pi_vus: nat) (pi_iterations: nat) (pi_max_duration: "string option")
      (pi_graceful_stop: "string option") (pi_think: 'think)
  | ExternallyControlled (ec_vus: nat) (ec_max_vus: nat) (ec_duration: "string option")
      (ec_graceful_stop: "string option") (ec_think: 'think)

end
