(* ===== verification/Segment.thy ===== *)
theory Segment
  imports Exec_Config
begin

text \<open>
  Execution segments, \<^verbatim>\<open>crates/tropel-core/src/segment.rs\<close>: the exact-rational half-open
  interval \<open>[from, to)\<close> of the workload a node runs, its construction and parsing, and the
  scaling of VU counts, iteration budgets and rates by it.

  Bounds are \<^verbatim>\<open>i64\<close> numerators and denominators. Products that the code forms in
  \<^verbatim>\<open>i128\<close> cannot overflow and are plain integer products; products it forms in \<^verbatim>\<open>i64\<close> wrap.
  Boundaries compared as \<^verbatim>\<open>f64\<close> are compared here as exact rationals.
\<close>

section \<open>Errors\<close>

text \<open>Each constructor is one error site of the file; \<open>Panicked\<close> is a Rust panic.\<close>

datatype seg_error =
    NegativeBounds | EmptySegment | OutsideUnit
  | EmptyFraction | BadNumerator string | BadDenominator string | DivisionByZero
  | BadPercentage string | BadFraction string
  | MissingColon string | SkipsBoundary | NotInSequence
  | TooFewBoundaries | MustStartAtZero | MustEndAtOne | NotAscending
  | EmptySequence | NotFull
  | Panicked

definition i64_div :: "int \<Rightarrow> int \<Rightarrow> seg_error + int" where
  "i64_div a b = (if b = 0 \<or> (a = i64_min \<and> b = -1) then Inl Panicked else Inr (a sdiv b))"

definition i64_rem :: "int \<Rightarrow> int \<Rightarrow> seg_error + int" where
  "i64_rem a b = (if b = 0 \<or> (a = i64_min \<and> b = -1) then Inl Panicked else Inr (a smod b))"

section \<open>The segment and its construction\<close>

record execution_segment =
  from_num :: int
  from_den :: int
  to_num :: int
  to_den :: int

definition new_segment :: "int \<Rightarrow> int \<Rightarrow> int \<Rightarrow> int \<Rightarrow> seg_error + execution_segment" where
  "new_segment fn fd tn td =
     (if fn < 0 \<or> fd \<le> 0 \<or> tn < 0 \<or> td \<le> 0 then Inl NegativeBounds
      else if fn * td \<ge> tn * fd then Inl EmptySegment
      else if fn > fd \<or> tn > td then Inl OutsideUnit
      else Inr \<lparr>from_num = fn, from_den = fd, to_num = tn, to_den = td\<rparr>)"

text \<open>
  The recursive \<^verbatim>\<open>gcd\<close> of the file. The base case takes \<^verbatim>\<open>a.abs()\<close>, which wraps on
  \<^verbatim>\<open>i64::MIN\<close>; the recursive call takes \<^verbatim>\<open>a % b\<close>, which can panic.
\<close>

function seg_gcd :: "int \<Rightarrow> int \<Rightarrow> seg_error + int" where
  "seg_gcd a b =
     (if b = 0 then Inr (wrap_i64 \<bar>a\<bar>)
      else if a = i64_min \<and> b = -1 then Inl Panicked
      else seg_gcd b (a smod b))"
  by pat_completeness auto
termination
proof (relation "measure (\<lambda>(a, b). nat \<bar>b\<bar>)")
  fix a b :: int
  assume "b \<noteq> 0"
  then have "a smod b \<in> {- \<bar>b\<bar> + 1..\<bar>b\<bar> - 1}" by (rule smod_int_range)
  with \<open>b \<noteq> 0\<close> show "((b, a smod b), (a, b)) \<in> measure (\<lambda>(a, b). nat \<bar>b\<bar>)"
    by auto
qed simp

declare seg_gcd.simps [simp del]

definition reduce_frac :: "int \<Rightarrow> int \<Rightarrow> seg_error + (int \<times> int)" where
  "reduce_frac n d =
     bindE (seg_gcd n d) (\<lambda>g. bindE (i64_div n g) (\<lambda>a. bindE (i64_div d g) (\<lambda>b. Inr (a, b))))"

definition parse_fraction :: "string \<Rightarrow> seg_error + (int \<times> int)" where
  "parse_fraction s0 =
     (let s = trim s0 in
      if s = [] then Inl EmptyFraction
      else (case split_once (CHR ''/'') s of
        Some (num, den) \<Rightarrow>
          bindE (ok_or (BadNumerator num) (parse_i64 (trim num))) (\<lambda>n.
          bindE (ok_or (BadDenominator den) (parse_i64 (trim den))) (\<lambda>d.
            if d = 0 then Inl DivisionByZero else reduce_frac n d))
      | None \<Rightarrow> (case strip_suffix ''%'' s of
          Some pct \<Rightarrow>
            bindE (ok_or (BadPercentage pct) (parse_i64 (trim pct))) (\<lambda>n. reduce_frac n 100)
        | None \<Rightarrow> (case split_once (CHR ''.'') s of
            Some (int_part, frac_part) \<Rightarrow>
              bindE (ok_or (BadFraction s) (parse_i64 int_part)) (\<lambda>int_num.
                let den = wrap_i64 (10 ^ length frac_part) in
                bindE (if frac_part = [] then Inr 0
                       else ok_or (BadFraction s) (parse_i64 frac_part)) (\<lambda>frac_num.
                  reduce_frac (wrap_i64 (wrap_i64 (int_num * den) + frac_num)) den))
          | None \<Rightarrow> bindE (ok_or (BadFraction s) (parse_i64 s)) (\<lambda>n. Inr (n, 1))))))"

section \<open>Sequences of boundaries\<close>

text \<open>
  \<^verbatim>\<open>num as f64 / den as f64\<close>. A zero denominator (64 or more fractional digits wrap
  \<^verbatim>\<open>10i64.pow\<close> to zero) gives an infinity, ordered beyond every quotient of two
  \<^verbatim>\<open>i64\<close> values, as \<open>2 ^ 64\<close> is.
\<close>

definition f64_quot :: "int \<Rightarrow> int \<Rightarrow> rat" where
  "f64_quot n d = (if d = 0 then (if n < 0 then - (2 ^ 64) else 2 ^ 64) else of_int n / of_int d)"

definition tolerance :: rat where "tolerance = 1 / 10 ^ 9"

definition seg_from :: "execution_segment \<Rightarrow> rat" where
  "seg_from seg = of_int (from_num seg) / of_int (from_den seg)"

definition seg_to :: "execution_segment \<Rightarrow> rat" where
  "seg_to seg = of_int (to_num seg) / of_int (to_den seg)"

definition fraction :: "execution_segment \<Rightarrow> rat" where
  "fraction seg = seg_to seg - seg_from seg"

fun strictly_ascending :: "rat list \<Rightarrow> bool" where
  "strictly_ascending (a # b # cs) = (a < b \<and> strictly_ascending (b # cs))"
| "strictly_ascending _ = True"

definition parse_sequence :: "string \<Rightarrow> seg_error + rat list" where
  "parse_sequence sequence =
     (let parts = map trim (split_on (CHR '','') sequence) in
      if length parts < 2 then Inl TooFewBoundaries
      else bindE (mapM parse_fraction parts) (\<lambda>fracs.
        let bounds = map (\<lambda>(n, d). f64_quot n d) fracs in
        if \<bar>hd bounds\<bar> > tolerance then Inl MustStartAtZero
        else if \<bar>last bounds - 1\<bar> > tolerance then Inl MustEndAtOne
        else if \<not> strictly_ascending bounds then Inl NotAscending
        else Inr bounds))"

fun position :: "('a \<Rightarrow> bool) \<Rightarrow> 'a list \<Rightarrow> nat option" where
  "position P [] = None"
| "position P (x # xs) = (if P x then Some 0 else map_option Suc (position P xs))"

definition parse_segment :: "string \<Rightarrow> string option \<Rightarrow> seg_error + execution_segment" where
  "parse_segment segment sequence =
     (case split_once (CHR '':'') segment of
        None \<Rightarrow> Inl (MissingColon segment)
      | Some (from_s, to_s) \<Rightarrow>
          bindE (parse_fraction from_s) (\<lambda>(fn, fd).
          bindE (parse_fraction to_s) (\<lambda>(tn, td).
          bindE (new_segment fn fd tn td) (\<lambda>seg.
            (case sequence of
               None \<Rightarrow> Inr seg
             | Some sq \<Rightarrow>
                 bindE (parse_sequence sq) (\<lambda>bounds.
                   (case (position (\<lambda>b. \<bar>b - seg_from seg\<bar> < tolerance) bounds,
                          position (\<lambda>b. \<bar>b - seg_to seg\<bar> < tolerance) bounds) of
                      (Some i, Some j) \<Rightarrow>
                        if j = i + 1 then Inr seg
                        else if i + 1 < length bounds then Inl SkipsBoundary
                        else Inl Panicked
                    | _ \<Rightarrow> Inl NotInSequence)))))))"

section \<open>Scaling\<close>

text \<open>The final cast of the \<^verbatim>\<open>i128\<close> difference to \<^verbatim>\<open>u32\<close> or \<^verbatim>\<open>u64\<close> truncates.\<close>

definition scale_vus :: "execution_segment \<Rightarrow> nat \<Rightarrow> nat" where
  "scale_vus seg vus =
     (if vus = 0 then 0
      else (let n = int vus;
                to_floor = (n * to_num seg) sdiv to_den seg;
                from_floor = (n * from_num seg) sdiv from_den seg;
                scaled = to_floor - from_floor
            in min (nat (scaled mod 2 ^ 32)) vus))"

definition scale_iterations :: "execution_segment \<Rightarrow> nat \<Rightarrow> nat" where
  "scale_iterations seg iterations =
     (if iterations = 0 then 0
      else (let n = int iterations;
                to_floor = (n * to_num seg) sdiv to_den seg;
                from_floor = (n * from_num seg) sdiv from_den seg;
                scaled = to_floor - from_floor
            in min (nat (scaled mod 2 ^ 64)) iterations))"

definition scale_rate :: "execution_segment \<Rightarrow> rat \<Rightarrow> rat" where
  "scale_rate seg rate = rate * fraction seg"

datatype rate_segmentation = ScaleRate | GlobalRate

definition rate_share :: "execution_segment \<Rightarrow> rate_segmentation \<Rightarrow> rat \<Rightarrow> rat" where
  "rate_share seg mode r = (case mode of ScaleRate \<Rightarrow> scale_rate seg r | GlobalRate \<Rightarrow> r)"

fun apply_with ::
  "execution_segment \<Rightarrow> 't execution_config \<Rightarrow> rate_segmentation \<Rightarrow> 't execution_config" where
  "apply_with seg (ConstantVus vus duration gs tt) mode =
     ConstantVus (scale_vus seg vus) duration gs tt"
| "apply_with seg (RampingVus stages start_vus grd gs tt) mode =
     RampingVus (map (\<lambda>s. \<lparr>stage_duration = stage_duration s,
                           stage_target = scale_vus seg (stage_target s)\<rparr>) stages)
       (scale_vus seg start_vus) grd gs tt"
| "apply_with seg (ConstantArrivalRate rate tu duration pre mx gs tt) mode =
     ConstantArrivalRate (rate_share seg mode rate) tu duration (scale_vus seg pre)
       (scale_vus seg mx) gs tt"
| "apply_with seg (SharedIterations iters md vus gs tt) mode =
     SharedIterations (scale_iterations seg iters) md (scale_vus seg vus) gs tt"
| "apply_with seg (RampingArrivalRate start stages tu pre mx gs tt) mode =
     RampingArrivalRate (rate_share seg mode start)
       (map (\<lambda>s. \<lparr>rate_duration = rate_duration s,
                   rate_target = rate_share seg mode (rate_target s)\<rparr>) stages)
       tu (scale_vus seg pre) (scale_vus seg mx) gs tt"
| "apply_with seg (PerVUIterations vus iters md gs tt) mode =
     PerVUIterations (scale_vus seg vus) (scale_iterations seg iters) md gs tt"
| "apply_with seg (ExternallyControlled vus mx duration gs tt) mode =
     ExternallyControlled (scale_vus seg vus) (scale_vus seg mx) duration gs tt"

definition apply_segment :: "execution_segment \<Rightarrow> 't execution_config \<Rightarrow> 't execution_config" where
  "apply_segment seg exec = apply_with seg exec ScaleRate"

section \<open>Arithmetic of the code against the rationals\<close>

lemma gcd_smod [rust_int]: "gcd b (a smod b) = gcd a (b::int)"
proof -
  have "gcd b (sgn a * (\<bar>a\<bar> mod \<bar>b\<bar>)) = gcd b (\<bar>a\<bar> mod \<bar>b\<bar>)"
    by (cases a "0::int" rule: linorder_cases) simp_all
  also have "\<dots> = gcd \<bar>b\<bar> (\<bar>a\<bar> mod \<bar>b\<bar>)" by simp
  also have "\<dots> = gcd \<bar>a\<bar> \<bar>b\<bar>" by (metis gcd.commute gcd_red_int)
  finally show ?thesis by (simp add: signed_modulo_int_def)
qed

lemma seg_gcd_correct [rust_int]:
  "\<bar>a\<bar> \<le> i64_max \<Longrightarrow> \<bar>b\<bar> \<le> i64_max \<Longrightarrow> seg_gcd a b = Inr (gcd a b)"
proof (induction a b rule: seg_gcd.induct)
  case (1 a b)
  show ?case
  proof (cases "b = 0")
    case True
    with 1(2) show ?thesis
      by (simp add: seg_gcd.simps [of a] wrap_i64_id in_i64_def i64_bounds)
  next
    case False
    have a: "a \<noteq> i64_min" using 1(2) by (auto simp: i64_bounds)
    from smod_int_range [OF False, of a] have "\<bar>a smod b\<bar> \<le> \<bar>b\<bar>" by auto
    with 1 False a have "seg_gcd b (a smod b) = Inr (gcd b (a smod b))" by simp
    with False a show ?thesis by (simp add: seg_gcd.simps [of a b] gcd_smod)
  qed
qed

lemma sdiv_dvd: "g dvd n \<Longrightarrow> n sdiv g = n div (g::int)"
  by (simp add: signed_divide_int_eq_divide_int)

lemma reduce_frac_exact:
  assumes "\<bar>n\<bar> \<le> i64_max" and "0 < d" and "d \<le> i64_max"
  shows "reduce_frac n d = Inr (n div gcd n d, d div gcd n d)"
proof -
  have "seg_gcd n d = Inr (gcd n d)" using assms by (intro seg_gcd_correct) auto
  moreover have "0 < gcd n d" using assms by simp
  moreover have "n \<noteq> i64_min" "d \<noteq> i64_min" using assms by (auto simp: i64_bounds)
  ultimately show ?thesis by (simp add: reduce_frac_def i64_div_def sdiv_dvd)
qed

lemma quot_reduced:
  assumes "0 < (d::int)"
  shows "(of_int (n div gcd n d) :: rat) / of_int (d div gcd n d) = of_int n / of_int d"
proof -
  have "of_int n = (of_int (n div gcd n d) * of_int (gcd n d) :: rat)"
    and "of_int d = (of_int (d div gcd n d) * of_int (gcd n d) :: rat)"
    by (simp_all flip: of_int_mult)
  moreover have "(of_int (gcd n d) :: rat) \<noteq> 0" using assms by simp
  ultimately show ?thesis by (metis mult_divide_mult_cancel_right)
qed

section \<open>Well-formed segments\<close>

text \<open>The invariant of the struct: its fields are private and only \<^verbatim>\<open>new\<close> builds one.\<close>

definition seg_ok :: "execution_segment \<Rightarrow> bool" where
  "seg_ok seg \<longleftrightarrow> 0 \<le> from_num seg \<and> 0 < from_den seg \<and> 0 \<le> to_num seg \<and> 0 < to_den seg
     \<and> from_num seg * to_den seg < to_num seg * from_den seg
     \<and> from_num seg \<le> from_den seg \<and> to_num seg \<le> to_den seg"

lemma rat_quot_less_iff:
  "0 < b \<Longrightarrow> 0 < d \<Longrightarrow> (of_int a / of_int b < (of_int c / of_int d :: rat)) = (a * d < c * b)"
  by (simp add: divide_simps flip: of_int_mult)

lemma rat_quot_le_1_iff: "0 < b \<Longrightarrow> (of_int a / of_int b \<le> (1::rat)) = (a \<le> b)"
  by (simp add: divide_simps)

lemma rat_quot_nonneg_iff: "0 < b \<Longrightarrow> (0 \<le> of_int a / (of_int b :: rat)) = (0 \<le> a)"
  by (simp add: zero_le_divide_iff)

lemma seg_ok_bounds:
  assumes "seg_ok seg"
  shows "0 \<le> seg_from seg" "seg_from seg < seg_to seg" "seg_to seg \<le> 1"
  using assms
  by (auto simp: seg_ok_def seg_from_def seg_to_def rat_quot_less_iff rat_quot_le_1_iff)

lemma new_segment_ok: "new_segment fn fd tn td = Inr seg \<Longrightarrow> seg_ok seg"
  by (auto simp: new_segment_def seg_ok_def split: if_splits)


section \<open>Telescoping shares\<close>

text \<open>
  A chain of segments that starts at 0, ends at 1 and has no gaps: what a parsed
  \<^verbatim>\<open>executionSegmentSequence\<close> is.
\<close>

fun linked :: "execution_segment list \<Rightarrow> bool" where
  "linked (a # b # cs) = (seg_to a = seg_from b \<and> linked (b # cs))"
| "linked _ = True"

definition unit_chain :: "execution_segment list \<Rightarrow> bool" where
  "unit_chain segs \<longleftrightarrow> segs \<noteq> [] \<and> (\<forall>s \<in> set segs. seg_ok s) \<and> linked segs
     \<and> seg_from (hd segs) = 0 \<and> seg_to (last segs) = 1"

lemma linked_telescope:
  "linked segs \<Longrightarrow> segs \<noteq> [] \<Longrightarrow>
     (\<Sum>s\<leftarrow>segs. F (seg_to s) - F (seg_from s)) = F (seg_to (last segs)) - (F (seg_from (hd segs)) :: 'a::ab_group_add)"
  by (induction segs rule: linked.induct) auto

lemma int_sum_list_map: "int (\<Sum>x\<leftarrow>xs. f x) = (\<Sum>x\<leftarrow>xs. int (f x))"
  by (induction xs) auto

locale telescoping_share =
  fixes share :: "execution_segment \<Rightarrow> nat \<Rightarrow> nat" and limit :: nat
  assumes share_floor: "seg_ok seg \<Longrightarrow> n \<le> limit \<Longrightarrow>
    int (share seg n) = \<lfloor>of_nat n * seg_to seg\<rfloor> - \<lfloor>of_nat n * seg_from seg\<rfloor>"
begin

lemma chain_sum:
  assumes "unit_chain segs" and "n \<le> limit"
  shows "(\<Sum>s\<leftarrow>segs. share s n) = n"
proof -
  have "(\<Sum>s\<leftarrow>segs. int (share s n))
      = (\<Sum>s\<leftarrow>segs. \<lfloor>of_nat n * seg_to s\<rfloor> - \<lfloor>of_nat n * seg_from s\<rfloor>)"
    using assms by (intro arg_cong [of _ _ sum_list] map_cong) (auto simp: unit_chain_def share_floor)
  also have "\<dots> = \<lfloor>of_nat n * seg_to (last segs)\<rfloor> - \<lfloor>of_nat n * seg_from (hd segs)\<rfloor>"
    using assms by (intro linked_telescope [of _ "\<lambda>x. \<lfloor>of_nat n * x\<rfloor>"]) (auto simp: unit_chain_def)
  also have "\<dots> = int n" using assms by (simp add: unit_chain_def)
  finally show ?thesis by (simp only: int_sum_list_map [symmetric] of_nat_eq_iff)
qed

lemma share_fair:
  assumes "seg_ok seg" and "n \<le> limit"
  shows "\<bar>of_nat (share seg n) - of_nat n * fraction seg\<bar> < 1"
proof -
  have "(of_nat (share seg n) :: rat)
      = of_int \<lfloor>of_nat n * seg_to seg\<rfloor> - of_int \<lfloor>of_nat n * seg_from seg\<rfloor>"
    by (metis share_floor [OF assms] of_int_diff of_int_of_nat_eq)
  moreover have "of_int \<lfloor>x\<rfloor> \<le> x" "x < of_int \<lfloor>x\<rfloor> + 1" for x :: rat
    using floor_correct [of x] by simp_all
  note this [of "of_nat n * seg_to seg"] this [of "of_nat n * seg_from seg"]
  ultimately show ?thesis
    unfolding fraction_def right_diff_distrib abs_less_iff by linarith
qed

lemma share_le: "seg_ok seg \<Longrightarrow> n \<le> limit \<Longrightarrow> share seg n \<le> n"
proof -
  assume *: "seg_ok seg" "n \<le> limit"
  have "of_nat n * seg_to seg \<le> of_nat n * 1"
    using seg_ok_bounds [OF *(1)] by (intro mult_left_mono) auto
  then have "\<lfloor>of_nat n * seg_to seg\<rfloor> \<le> int n" by (simp add: floor_le_iff)
  moreover have "0 \<le> \<lfloor>of_nat n * seg_from seg\<rfloor>" using seg_ok_bounds [OF *(1)] by simp
  ultimately show ?thesis using share_floor [OF *] by linarith
qed

end

lemma floor_scaled:
  "0 < d \<Longrightarrow> (int n * k) div d = \<lfloor>of_nat n * (of_int k / of_int d :: rat)\<rfloor>"
  by (metis floor_divide_of_int_eq of_int_mult of_int_of_nat_eq times_divide_eq_right)

lemma scale_diff_floor:
  fixes n :: nat
  assumes "seg_ok seg"
  defines "t \<equiv> (int n * to_num seg) sdiv to_den seg"
    and "f \<equiv> (int n * from_num seg) sdiv from_den seg"
  shows "t - f = \<lfloor>of_nat n * seg_to seg\<rfloor> - \<lfloor>of_nat n * seg_from seg\<rfloor>"
    and "0 \<le> t - f" and "t - f \<le> int n"
proof -
  show *: "t - f = \<lfloor>of_nat n * seg_to seg\<rfloor> - \<lfloor>of_nat n * seg_from seg\<rfloor>"
    using assms by (simp add: seg_ok_def rust_int floor_scaled seg_to_def seg_from_def)
  have "of_nat n * seg_from seg \<le> of_nat n * seg_to seg"
    using seg_ok_bounds [OF assms(1)] by (intro mult_left_mono) auto
  then show "0 \<le> t - f" unfolding * by (simp add: floor_mono)
  have "of_nat n * seg_to seg \<le> of_nat n * 1"
    using seg_ok_bounds [OF assms(1)] by (intro mult_left_mono) auto
  then have "\<lfloor>of_nat n * seg_to seg\<rfloor> \<le> int n" by (simp add: floor_le_iff)
  moreover have "0 \<le> \<lfloor>of_nat n * seg_from seg\<rfloor>" using seg_ok_bounds [OF assms(1)] by simp
  ultimately show "t - f \<le> int n" unfolding * by linarith
qed

interpretation vus: telescoping_share scale_vus u32_max
proof
  fix seg n
  assume *: "seg_ok seg" "n \<le> u32_max"
  note d = scale_diff_floor [OF *(1), of n]
  show "int (scale_vus seg n) = \<lfloor>of_nat n * seg_to seg\<rfloor> - \<lfloor>of_nat n * seg_from seg\<rfloor>"
    using d *(2) by (auto simp: scale_vus_def Let_def u32_max_def min_def)
qed

interpretation iterations: telescoping_share scale_iterations u64_max
proof
  fix seg n
  assume *: "seg_ok seg" "n \<le> u64_max"
  note d = scale_diff_floor [OF *(1), of n]
  show "int (scale_iterations seg n) = \<lfloor>of_nat n * seg_to seg\<rfloor> - \<lfloor>of_nat n * seg_from seg\<rfloor>"
    using d *(2) by (auto simp: scale_iterations_def Let_def u64_max_def min_def)
qed

end
