(* ===== verification/Striping.thy ===== *)
theory Striping
  imports Segment "HOL-Library.Multiset"
begin

text \<open>
  Striped offsets, the second half of \<^verbatim>\<open>crates/tropel-core/src/segment.rs\<close>: the sequence of
  all nodes' segments, the least common denominator of their lengths, the algorithm that
  deals the global ticks of one cycle out to the segments, and the cursor
  (\<^verbatim>\<open>SegmentedIndex\<close>, \<^verbatim>\<open>ArrivalStripe\<close>) with which a node walks the ticks it owns.

  The algorithm is related to a small abstract one that only records which segment takes
  each tick; the main results say that the segments partition the global ticks, and that the
  arrivals all nodes owe by any moment add up to the global count.
\<close>

section \<open>Sequences\<close>

fun seq_segments :: "int \<times> int \<Rightarrow> string list \<Rightarrow> seg_error + execution_segment list" where
  "seq_segments prev [] = Inr []"
| "seq_segments prev (tok # toks) =
     bindE (parse_fraction tok) (\<lambda>cur.
     bindE (new_segment (fst prev) (snd prev) (fst cur) (snd cur)) (\<lambda>seg.
     bindE (seq_segments cur toks) (\<lambda>segs. Inr (seg # segs))))"

definition parse_segment_sequence :: "string \<Rightarrow> seg_error + execution_segment list" where
  "parse_segment_sequence sequence =
     bindE (parse_sequence sequence) (\<lambda>bounds.
       let tokens = map trim (split_on (CHR '','') sequence) in
       bindE (parse_fraction (hd tokens)) (\<lambda>prev. seq_segments prev (tl tokens)))"

definition index_of :: "execution_segment list \<Rightarrow> execution_segment \<Rightarrow> nat option" where
  "index_of segs seg =
     position (\<lambda>s. \<bar>seg_from s - seg_from seg\<bar> < tolerance \<and> \<bar>seg_to s - seg_to seg\<bar> < tolerance) segs"

definition length_rat :: "execution_segment \<Rightarrow> seg_error + (int \<times> int)" where
  "length_rat seg =
     (let num = wrap_i64 (wrap_i64 (to_num seg * from_den seg) - wrap_i64 (from_num seg * to_den seg));
          den = wrap_i64 (to_den seg * from_den seg)
      in reduce_frac num den)"

fun lcd_loop :: "int \<Rightarrow> execution_segment list \<Rightarrow> seg_error + int" where
  "lcd_loop acc [] = Inr acc"
| "lcd_loop acc (seg # segs) =
     bindE (length_rat seg) (\<lambda>(_, n).
       if acc = n then lcd_loop acc segs
       else bindE (i64_rem acc n) (\<lambda>r.
         if r = 0 then lcd_loop acc segs
         else bindE (seg_gcd acc n) (\<lambda>g.
              bindE (i64_div n g) (\<lambda>q. lcd_loop (wrap_i64 (acc * q)) segs))))"

definition sequence_lcd :: "execution_segment list \<Rightarrow> seg_error + int" where
  "sequence_lcd segs =
     (case segs of [] \<Rightarrow> Inl Panicked
      | s # ss \<Rightarrow> bindE (length_rat s) (\<lambda>(_, d). lcd_loop d ss))"

section \<open>The striping algorithm\<close>

record wrapper =
  w_lcd :: int
  w_offsets :: "int list list"

record stripe_state =
  st_offsets :: "int list list"
  st_prev :: "int list"
  st_chosen :: "int list"

definition norm_items :: "int \<Rightarrow> execution_segment list \<Rightarrow> seg_error + (int \<times> nat) list" where
  "norm_items lcd segs =
     mapM (\<lambda>(seg, i).
       bindE (length_rat seg) (\<lambda>(ln, ld).
       bindE (i64_div lcd ld) (\<lambda>q. Inr (wrap_i64 (ln * q), i)))) (zip segs [0..<length segs])"

text \<open>
  The test for segment \<open>denom\<close> with \<open>chosen\<close> ticks so far to take tick \<open>gi\<close>. The quotient
  \<^verbatim>\<open>i64::MIN / -1\<close>, which would panic, is out of reach unless an earlier product wrapped.
\<close>

definition takes_tick :: "int \<Rightarrow> int \<Rightarrow> int \<Rightarrow> int \<Rightarrow> bool" where
  "takes_tick lcd gi chosen denom \<longleftrightarrow>
     (let num = wrap_i64 (chosen * lcd) in
      denom \<noteq> 0 \<and> (gi > num sdiv denom \<or> (gi = num sdiv denom \<and> num smod denom = 0)))"

definition tick_step :: "int \<Rightarrow> (int \<times> nat) list \<Rightarrow> int \<Rightarrow> stripe_state \<Rightarrow> stripe_state" where
  "tick_step lcd items gi st =
     (case find (\<lambda>k. takes_tick lcd gi (st_chosen st ! k) (fst (items ! k))) [0..<length items] of
        None \<Rightarrow> st
      | Some k \<Rightarrow>
          (let (denom, idx) = items ! k;
               offs = st_offsets st ! idx @ [gi - st_prev st ! idx];
               offs' = (if int (length offs) = denom then offs @ [offs ! 0 + lcd - gi] else offs)
           in st\<lparr>st_chosen := (st_chosen st)[k := st_chosen st ! k + 1],
                 st_offsets := (st_offsets st)[idx := offs'],
                 st_prev := (st_prev st)[idx := gi]\<rparr>))"

definition init_stripe :: "nat \<Rightarrow> stripe_state" where
  "init_stripe n = \<lparr>st_offsets = replicate n [], st_prev = replicate n 0, st_chosen = replicate n 0\<rparr>"

definition stripe_loop :: "int \<Rightarrow> (int \<times> nat) list \<Rightarrow> nat \<Rightarrow> stripe_state" where
  "stripe_loop lcd items n = fold (tick_step lcd items) (map int [0..<nat lcd]) (init_stripe n)"

definition wrapper_new :: "execution_segment list \<Rightarrow> seg_error + wrapper" where
  "wrapper_new segs =
     (if segs = [] then Inl EmptySequence
      else if \<not> (from_num (hd segs) = 0 \<and> to_num (last segs) = to_den (last segs)) then Inl NotFull
      else bindE (sequence_lcd segs) (\<lambda>lcd.
           bindE (norm_items lcd segs) (\<lambda>items0.
             let items = sort_key (\<lambda>a. - fst a) items0 in
             Inr \<lparr>w_lcd = lcd, w_offsets = st_offsets (stripe_loop lcd items (length segs))\<rparr>)))"

definition get_striped_offsets :: "wrapper \<Rightarrow> nat \<Rightarrow> seg_error + (int \<times> int list \<times> int)" where
  "get_striped_offsets w i =
     (if i < length (w_offsets w)
      then (case w_offsets w ! i of [] \<Rightarrow> Inl Panicked | x # xs \<Rightarrow> Inr (x, xs, w_lcd w))
      else Inl Panicked)"

section \<open>The cursor\<close>

record segmented_index =
  si_start :: int
  si_lcd :: int
  si_offsets :: "int list"
  si_scaled :: int
  si_unscaled :: int

definition segmented_index :: "wrapper \<Rightarrow> nat \<Rightarrow> seg_error + segmented_index" where
  "segmented_index w i =
     bindE (get_striped_offsets w i) (\<lambda>(start, offsets, lcd).
       Inr \<lparr>si_start = start, si_lcd = lcd, si_offsets = offsets, si_scaled = 0, si_unscaled = 0\<rparr>)"

definition advance :: "segmented_index \<Rightarrow> seg_error + (segmented_index \<times> int \<times> int)" where
  "advance ix =
     bindE (if si_scaled ix = 0 then Inr (wrap_i64 (si_start ix + 1))
            else if si_offsets ix = [] then Inl Panicked
            else let i = (si_scaled ix - 1) smod int (length (si_offsets ix)) in
              if i < 0 then Inl Panicked else Inr (si_offsets ix ! nat i)) (\<lambda>inc.
       let u = wrap_i64 (si_unscaled ix + inc); s = wrap_i64 (si_scaled ix + 1)
       in Inr (ix\<lparr>si_unscaled := u, si_scaled := s\<rparr>, s, u))"

record arrival_stripe =
  as_index :: segmented_index
  as_next_owned :: int
  as_released :: nat

definition from_index :: "segmented_index \<Rightarrow> seg_error + arrival_stripe" where
  "from_index ix =
     bindE (advance ix) (\<lambda>(ix', _, u).
       Inr \<lparr>as_index = ix', as_next_owned = u, as_released = 0\<rparr>)"

definition stripe_full :: "seg_error + arrival_stripe" where
  "stripe_full =
     from_index \<lparr>si_start = 0, si_lcd = 1, si_offsets = [1], si_scaled = 0, si_unscaled = 0\<rparr>"

definition arrival_stripe :: "wrapper \<Rightarrow> nat \<Rightarrow> seg_error + arrival_stripe" where
  "arrival_stripe w i = bindE (segmented_index w i) from_index"

text \<open>
  The loop of \<^verbatim>\<open>due_by\<close> ends because owned ticks grow; that is a fact about the stripes the
  algorithm builds, so the loop itself is partial: \<open>None\<close> is a loop that never ends.
\<close>

partial_function (option) due_by ::
  "arrival_stripe \<Rightarrow> nat \<Rightarrow> (seg_error + arrival_stripe \<times> nat) option" where
  "due_by st global_arrivals =
     (if as_next_owned st > 0 \<and> as_next_owned st \<le> int global_arrivals then
        (case advance (as_index st) of
           Inl e \<Rightarrow> Some (Inl e)
         | Inr (ix', _, u) \<Rightarrow>
             due_by (st\<lparr>as_released := wrap_u64 (as_released st + 1), as_index := ix', as_next_owned := u\<rparr>)
               global_arrivals)
      else Some (Inr (st, as_released st)))"

declare due_by.simps [code]

section \<open>The abstract algorithm: who takes each tick\<close>

definition pick :: "int \<Rightarrow> int list \<Rightarrow> nat list \<Rightarrow> int \<Rightarrow> nat option" where
  "pick L ds own g = find (\<lambda>k. int (count_list own k) * L \<le> g * ds ! k) [0..<length ds]"

fun owners :: "int \<Rightarrow> int list \<Rightarrow> nat \<Rightarrow> nat list" where
  "owners L ds 0 = []"
| "owners L ds (Suc g) =
     owners L ds g @ (case pick L ds (owners L ds g) (int g) of None \<Rightarrow> [] | Some k \<Rightarrow> [k])"

definition plan_ok :: "int \<Rightarrow> int list \<Rightarrow> bool" where
  "plan_ok L ds \<longleftrightarrow> 0 < L \<and> (\<forall>d \<in> set ds. 0 < d) \<and> sum_list ds = L"

lemma find_None_upt: "find P [0..<n] = None \<Longrightarrow> k < n \<Longrightarrow> \<not> P k"
  by (simp add: find_None_iff)

lemma find_Some_upt: "find P [0..<n] = Some k \<Longrightarrow> k < n \<and> P k \<and> (\<forall>j < k. \<not> P j)"
  by (auto simp: find_Some_iff)

lemma sum_count_list: "(\<And>x. x \<in> set xs \<Longrightarrow> x < (n::nat)) \<Longrightarrow> (\<Sum>k<n. count_list xs k) = length xs"
proof (induction xs)
  case (Cons a xs)
  then have "(\<Sum>k<n. count_list (a # xs) k) = (\<Sum>k<n. (if a = k then 1 else 0) + count_list xs k)"
    by (intro sum.cong) auto
  also have "\<dots> = (\<Sum>k<n. if a = k then 1 else 0) + (\<Sum>k<n. count_list xs k)" by (rule sum.distrib)
  also have "(\<Sum>k<n. if a = k then 1 else 0) = (1::nat)" using Cons.prems [of a] by (subst sum.delta') auto
  also have "(\<Sum>k<n. count_list xs k) = length xs" using Cons by auto
  finally show ?case by simp
qed simp

lemma owners_lt: "k \<in> set (owners L ds g) \<Longrightarrow> k < length ds"
  by (induction g) (auto simp: pick_def split: option.splits dest: find_Some_upt [OF sym])

lemma owners_length_le: "length (owners L ds g) \<le> g"
  by (induction g) (auto split: option.splits)

text \<open>Counting: if nobody may take tick \<open>g\<close> then more than \<open>g\<close> ticks are already taken.\<close>

lemma pick_total:
  assumes "plan_ok L ds"
  shows "\<exists>k. pick L ds (owners L ds g) (int g) = Some k"
proof (rule ccontr)
  let ?own = "owners L ds g"
  assume "\<nexists>k. pick L ds ?own (int g) = Some k"
  then have none: "pick L ds ?own (int g) = None" by (cases "pick L ds ?own (int g)") auto
  have "int g * ds ! k < int (count_list ?own k) * L" if "k < length ds" for k
    using find_None_upt [OF none [unfolded pick_def] that] by simp
  moreover have "ds \<noteq> []" using assms by (auto simp: plan_ok_def)
  ultimately have "(\<Sum>k<length ds. int g * ds ! k) < (\<Sum>k<length ds. int (count_list ?own k) * L)"
    by (intro sum_strict_mono) auto
  also have "\<dots> = int (length ?own) * L"
    using sum_count_list [of ?own "length ds"] owners_lt [of _ L ds g]
    by (simp flip: sum_distrib_right of_nat_sum)
  also have "(\<Sum>k<length ds. int g * ds ! k) = int g * L"
    using assms by (simp add: plan_ok_def sum_list_sum_nth atLeast0LessThan flip: sum_distrib_left)
  finally have "int g < int (length ?own)" using assms by (simp add: plan_ok_def)
  then show False using owners_length_le [of L ds g] by simp
qed

lemma owners_length: "plan_ok L ds \<Longrightarrow> length (owners L ds g) = g"
  by (induction g) (use pick_total in \<open>auto split: option.splits\<close>)

text \<open>A segment never takes tick \<open>g < L\<close> when it already has its full share.\<close>

lemma pick_below_share:
  assumes "plan_ok L ds" and "int g < L" and "pick L ds own (int g) = Some k"
  shows "int (count_list own k) < ds ! k"
proof -
  from assms have "k < length ds" and le: "int (count_list own k) * L \<le> int g * ds ! k"
    by (auto simp: pick_def dest: find_Some_upt)
  with assms have "0 < ds ! k" "0 < L" by (auto simp: plan_ok_def)
  with assms(2) have "int g * ds ! k < L * ds ! k" by (intro mult_strict_right_mono) auto
  with le have "int (count_list own k) * L < ds ! k * L" by (simp add: mult.commute)
  with \<open>0 < L\<close> show ?thesis by (simp add: mult_less_cancel_right)
qed

lemma owners_count_le:
  assumes "plan_ok L ds" and "int g \<le> L" and "k < length ds"
  shows "int (count_list (owners L ds g) k) \<le> ds ! k"
  using assms(2)
proof (induction g)
  case 0
  then show ?case using assms by (auto simp: plan_ok_def less_imp_le)
next
  case (Suc g)
  obtain j where j: "pick L ds (owners L ds g) (int g) = Some j"
    using pick_total [OF assms(1)] by blast
  have "int (count_list (owners L ds g) j) < ds ! j"
    using pick_below_share [OF assms(1) _ j] Suc.prems by simp
  with Suc j show ?case by (cases "j = k") auto
qed

lemma owners_count_final:
  assumes "plan_ok L ds" and "k < length ds"
  shows "int (count_list (owners L ds (nat L)) k) = ds ! k"
proof -
  let ?own = "owners L ds (nat L)"
  have L: "0 \<le> L" "int (nat L) \<le> L" using assms by (auto simp: plan_ok_def)
  have "(\<Sum>k<length ds. ds ! k - int (count_list ?own k)) = L - int (length ?own)"
    using assms sum_count_list [of ?own "length ds"] owners_lt [of _ L ds "nat L"]
    by (simp add: sum_subtractf plan_ok_def sum_list_sum_nth atLeast0LessThan flip: of_nat_sum)
  also have "\<dots> = 0" using owners_length [OF assms(1), of "nat L"] L(1) by simp
  finally have "\<forall>j \<in> {..<length ds}. ds ! j - int (count_list ?own j) = 0"
    using owners_count_le [OF assms(1) L(2)] by (subst (asm) sum_nonneg_eq_0_iff) auto
  with assms(2) show ?thesis by auto
qed

section \<open>The code's table of offsets refines the owner list\<close>

text \<open>The ticks a segment owns within one cycle, and the gaps between consecutive ones.\<close>

definition positions :: "nat list \<Rightarrow> nat \<Rightarrow> int list" where
  "positions own k = map int (filter (\<lambda>i. own ! i = k) [0..<length own])"

fun gaps :: "int \<Rightarrow> int list \<Rightarrow> int list" where
  "gaps p [] = []"
| "gaps p (t # ts) = (t - p) # gaps t ts"

definition offsets_of :: "int \<Rightarrow> int \<Rightarrow> int list \<Rightarrow> int list" where
  "offsets_of L d ps = gaps 0 ps @ (if int (length ps) = d then [hd ps + L - last ps] else [])"

lemma positions_Nil [simp]: "positions [] k = []"
  by (simp add: positions_def)

lemma positions_snoc [simp]:
  "positions (own @ [j]) k = positions own k @ (if j = k then [int (length own)] else [])"
  by (auto simp: positions_def nth_append intro!: filter_cong)

lemma length_positions [simp]: "length (positions own k) = count_list own k"
  by (induction own rule: rev_induct) auto

lemma length_gaps [simp]: "length (gaps p ts) = length ts"
  by (induction p ts rule: gaps.induct) auto

lemma gaps_snoc: "gaps p (ts @ [t]) = gaps p ts @ [t - (if ts = [] then p else last ts)]"
  by (induction p ts rule: gaps.induct) auto

lemma offsets_of_snoc:
  assumes "int (length ps) < d"
  shows "offsets_of L d (ps @ [t]) =
    (let offs = offsets_of L d ps @ [t - (if ps = [] then 0 else last ps)]
     in if int (length offs) = d then offs @ [offs ! 0 + L - t] else offs)"
  using assms by (cases ps) (auto simp: offsets_of_def gaps_snoc Let_def)

text \<open>A segment's \<open>r\<close>-th tick of a cycle does not come before its fair moment \<open>r * L / d\<close>.\<close>

lemma owners_even:
  assumes "plan_ok L ds" and "r < count_list (owners L ds g) k"
  shows "int r * L \<le> positions (owners L ds g) k ! r * ds ! k"
  using assms(2)
proof (induction g)
  case (Suc g)
  obtain j where j: "pick L ds (owners L ds g) (int g) = Some j" using pick_total [OF assms(1)] by blast
  have le: "int (count_list (owners L ds g) j) * L \<le> int g * ds ! j"
    using j by (auto simp: pick_def dest: find_Some_upt)
  have len: "length (owners L ds g) = g" by (rule owners_length [OF assms(1)])
  show ?case
  proof (cases "r < count_list (owners L ds g) k")
    case True
    with Suc.IH j show ?thesis by (simp add: nth_append)
  next
    case False
    with Suc.prems j have "j = k" "r = count_list (owners L ds g) k" by (auto split: if_splits)
    with j le len show ?thesis by (simp add: nth_append)
  qed
qed simp

text \<open>When the products stay inside \<^verbatim>\<open>i64\<close> the code's test is the rational comparison.\<close>

lemma takes_tick_iff:
  assumes "0 < denom" and "0 \<le> chosen * lcd" and "chosen * lcd \<le> i64_max"
  shows "takes_tick lcd gi chosen denom \<longleftrightarrow> chosen * lcd \<le> gi * denom"
proof -
  let ?n = "chosen * lcd"
  have w: "wrap_i64 ?n = ?n" using assms by (intro wrap_i64_id) (auto simp: in_i64_def i64_bounds)
  have "?n \<le> gi * denom \<longleftrightarrow> gi > ?n div denom \<or> (gi = ?n div denom \<and> ?n mod denom = 0)"
    (is "?L \<longleftrightarrow> ?R")
  proof
    assume ?L
    then have "?n div denom \<le> gi" using assms(1)
      by (metis nonzero_mult_div_cancel_right order_less_irrefl zdiv_mono1)
    moreover have "?n mod denom = 0" if "gi = ?n div denom"
      using \<open>?L\<close> that assms(1) by (metis add_le_same_cancel1 div_mult_mod_eq order_antisym pos_mod_sign)
    ultimately show ?R by linarith
  next
    assume ?R
    then consider "?n div denom + 1 \<le> gi" | "gi = ?n div denom" "?n mod denom = 0" by linarith
    then show ?L
    proof cases
      case 1
      then have "(?n div denom + 1) * denom \<le> gi * denom" using assms(1) by (intro mult_right_mono) auto
      moreover have "?n < (?n div denom + 1) * denom" using assms(1)
        by (metis distrib_right div_mult_mod_eq mult_1 pos_mod_bound add_strict_left_mono)
      ultimately show ?thesis by linarith
    qed (metis add.right_neutral div_mult_mod_eq order_refl)
  qed
  with w assms show ?thesis by (simp add: takes_tick_def Let_def rust_int)
qed

definition items_ok :: "int \<Rightarrow> (int \<times> nat) list \<Rightarrow> bool" where
  "items_ok L items \<longleftrightarrow> plan_ok L (map fst items) \<and> distinct (map snd items)
     \<and> set (map snd items) = {..<length items} \<and> L * L \<le> i64_max"

definition stripe_rel :: "int \<Rightarrow> (int \<times> nat) list \<Rightarrow> nat list \<Rightarrow> stripe_state \<Rightarrow> bool" where
  "stripe_rel L items own st \<longleftrightarrow>
     length (st_offsets st) = length items \<and> length (st_prev st) = length items
     \<and> length (st_chosen st) = length items
     \<and> (\<forall>k < length items. st_chosen st ! k = int (count_list own k)
         \<and> st_offsets st ! snd (items ! k) = offsets_of L (fst (items ! k)) (positions own k)
         \<and> st_prev st ! snd (items ! k) = (if positions own k = [] then 0 else last (positions own k)))"

lemma items_ok_idx:
  assumes "items_ok L items" and "k < length items"
  shows "snd (items ! k) < length items"
    and "j < length items \<Longrightarrow> snd (items ! j) = snd (items ! k) \<longleftrightarrow> j = k"
proof -
  show "snd (items ! k) < length items"
    using assms by (metis items_ok_def length_map lessThan_iff nth_map nth_mem)
  assume "j < length items"
  then show "snd (items ! j) = snd (items ! k) \<longleftrightarrow> j = k"
    using assms nth_eq_iff_index_eq [of "map snd items" j k] by (auto simp: items_ok_def)
qed

lemma stripe_rel_init:
  assumes "items_ok L items"
  shows "stripe_rel L items [] (init_stripe (length items))"
proof -
  have "0 < fst (items ! k)" if "k < length items" for k
    using assms that by (auto simp: items_ok_def plan_ok_def)
  then have "offsets_of L (fst (items ! k)) [] = []" if "k < length items" for k
    using that by (fastforce simp: offsets_of_def)
  then show ?thesis
    using items_ok_idx(1) [OF assms] by (auto simp: stripe_rel_def init_stripe_def)
qed

text \<open>One tick of the code is one tick of the abstract algorithm.\<close>

lemma pick_refined:
  assumes ok: "items_ok L items" and g: "int g < L" and own: "own = owners L (map fst items) g"
    and rel: "stripe_rel L items own st"
  shows "find (\<lambda>k. takes_tick L (int g) (st_chosen st ! k) (fst (items ! k))) [0..<length items]
    = pick L (map fst items) own (int g)"
proof -
  have plan: "plan_ok L (map fst items)" and sq: "L * L \<le> i64_max" using ok by (auto simp: items_ok_def)
  have "takes_tick L (int g) (st_chosen st ! k) (fst (items ! k))
      \<longleftrightarrow> int (count_list own k) * L \<le> int g * map fst items ! k" if k: "k < length items" for k
  proof -
    have c: "st_chosen st ! k = int (count_list own k)" using rel k by (simp add: stripe_rel_def)
    have pos: "0 < fst (items ! k)" "0 < L" using plan k by (auto simp: plan_ok_def)
    have "count_list own k \<le> g" using count_le_length [of own k] owners_length_le [of L _ g] own
      by (metis order_trans)
    then have "int (count_list own k) * L \<le> L * L" using g pos by (intro mult_right_mono) auto
    with sq have "int (count_list own k) * L \<le> i64_max" by linarith
    with takes_tick_iff [of "fst (items ! k)" "int (count_list own k)" L "int g"] pos c k
    show ?thesis by simp
  qed
  then show ?thesis by (auto simp: pick_def intro!: find_cong)
qed

lemma tick_refines:
  assumes ok: "items_ok L items" and g: "int g < L" and own: "own = owners L (map fst items) g"
    and rel: "stripe_rel L items own st"
  shows "stripe_rel L items (owners L (map fst items) (Suc g)) (tick_step L items (int g) st)"
proof -
  have plan: "plan_ok L (map fst items)" using ok by (simp add: items_ok_def)
  obtain k where k: "pick L (map fst items) own (int g) = Some k"
    using pick_total [OF plan] own by blast
  then have kl: "k < length items" by (auto simp: pick_def dest: find_Some_upt)
  obtain d i where it: "items ! k = (d, i)" by (cases "items ! k")
  have below: "int (length (positions own k)) < d"
    using pick_below_share [OF plan g k] kl it by simp
  have len: "length own = g" using owners_length [OF plan] own by simp
  have next_own: "owners L (map fst items) (Suc g) = own @ [k]" using k own by simp
  let ?offs = "st_offsets st ! i @ [int g - st_prev st ! i]"
  have i: "st_offsets st ! i = offsets_of L d (positions own k)"
    "st_prev st ! i = (if positions own k = [] then 0 else last (positions own k))"
    using rel kl it unfolding stripe_rel_def by (metis fst_conv snd_conv)+
  have new: "offsets_of L d (positions own k @ [int g])
      = (if int (length ?offs) = d then ?offs @ [?offs ! 0 + L - int g] else ?offs)"
    using offsets_of_snoc [OF below, of L "int g"] unfolding i Let_def by simp
  have il: "i < length items" using items_ok_idx(1) [OF ok kl] it by simp
  have step: "tick_step L items (int g) st = st\<lparr>st_chosen := (st_chosen st)[k := st_chosen st ! k + 1],
      st_offsets := (st_offsets st)[i := offsets_of L d (positions own k @ [int g])],
      st_prev := (st_prev st)[i := int g]\<rparr>"
    unfolding tick_step_def pick_refined [OF assms] k new by (simp add: it Let_def)
  have idx: "snd (items ! j) = i \<longleftrightarrow> j = k" if "j < length items" for j
    using items_ok_idx(2) [OF ok kl that] it by simp
  have d: "fst (items ! k) = d" using it by simp
  show ?thesis
    unfolding next_own step using rel kl il d idx len
    by (auto simp: stripe_rel_def nth_list_update)
qed

lemma stripe_loop_refines:
  assumes "items_ok L items" and "int g \<le> L"
  shows "stripe_rel L items (owners L (map fst items) g)
    (fold (tick_step L items) (map int [0..<g]) (init_stripe (length items)))"
  using assms(2)
proof (induction g)
  case 0
  show ?case using stripe_rel_init [OF assms(1)] by simp
next
  case (Suc g)
  then show ?case using tick_refines [OF assms(1) _ refl] by simp
qed

text \<open>
  After a full cycle the table of the segment listed \<open>k\<close>-th holds the gaps of its owned ticks
  and the wrap-around to the next cycle.
\<close>

lemma stripe_loop_offsets:
  assumes "items_ok L items" and "k < length items"
  shows "st_offsets (stripe_loop L items (length items)) ! snd (items ! k)
    = (let ps = positions (owners L (map fst items) (nat L)) k
       in gaps 0 ps @ [hd ps + L - last ps])"
proof -
  have plan: "plan_ok L (map fst items)" using assms by (simp add: items_ok_def)
  then have "int (nat L) = L" by (simp add: plan_ok_def)
  with stripe_loop_refines [OF assms(1), of "nat L"] owners_count_final [OF plan, of k] assms(2)
  show ?thesis by (simp add: stripe_rel_def stripe_loop_def Let_def offsets_of_def)
qed

section \<open>From the sequence string to the items\<close>

lemma seq_segments_chain:
  "seq_segments prev toks = Inr segs \<Longrightarrow>
     length segs = length toks \<and> (\<forall>s \<in> set segs. seg_ok s) \<and> linked segs
     \<and> (segs \<noteq> [] \<longrightarrow> from_num (hd segs) = fst prev \<and> from_den (hd segs) = snd prev)"
proof (induction toks arbitrary: prev segs)
  case (Cons tok toks)
  then obtain cur seg segs' where
    new: "new_segment (fst prev) (snd prev) (fst cur) (snd cur) = Inr seg"
    and rest: "seq_segments cur toks = Inr segs'" and segs: "segs = seg # segs'"
    by (auto simp: bindE_eq_Inr)
  note IH = Cons.IH [OF rest]
  have seg: "seg = \<lparr>from_num = fst prev, from_den = snd prev, to_num = fst cur, to_den = snd cur\<rparr>"
    using new by (auto simp: new_segment_def split: if_splits)
  have "linked (seg # segs')"
    using IH seg by (cases segs') (auto simp: seg_to_def seg_from_def)
  with IH new_segment_ok [OF new] seg segs show ?case by simp
qed simp

lemma parse_sequence_tokens:
  "parse_sequence sequence = Inr bounds \<Longrightarrow> 2 \<le> length (split_on (CHR '','') sequence)"
  by (auto simp: parse_sequence_def Let_def split: if_splits)

lemma parse_segment_sequence_chain:
  assumes "parse_segment_sequence sequence = Inr segs"
  shows "segs \<noteq> [] \<and> (\<forall>s \<in> set segs. seg_ok s) \<and> linked segs"
proof -
  from assms obtain bounds prev where "parse_sequence sequence = Inr bounds"
    and "seq_segments prev (tl (map trim (split_on (CHR '','') sequence))) = Inr segs"
    by (auto simp: parse_segment_sequence_def bindE_eq_Inr Let_def)
  from parse_sequence_tokens [OF this(1)] seq_segments_chain [OF this(2)] show ?thesis
    by (cases segs) auto
qed

lemma full_sequence_chain:
  assumes "parse_segment_sequence sequence = Inr segs"
    and "from_num (hd segs) = 0" and "to_num (last segs) = to_den (last segs)"
  shows "unit_chain segs"
proof -
  have *: "segs \<noteq> []" "\<forall>s \<in> set segs. seg_ok s" "linked segs"
    using parse_segment_sequence_chain [OF assms(1)] by auto
  then have "0 < to_den (last segs)" by (auto simp: seg_ok_def)
  with * assms(2,3) show ?thesis by (simp add: unit_chain_def seg_from_def seg_to_def)
qed

text \<open>A two-node sequence, used as a concrete instance.\<close>

definition two_halves :: "execution_segment list" where
  "two_halves = [\<lparr>from_num = 0, from_den = 1, to_num = 1, to_den = 2\<rparr>,
                 \<lparr>from_num = 1, from_den = 2, to_num = 1, to_den = 1\<rparr>]"

lemma parse_two_halves: "parse_segment_sequence ''0,1/2,1'' = Inr two_halves"
  by code_simp

text \<open>
  The sequences on which the integer arithmetic of the striping code is exact: the square of
  the common denominator of all boundaries fits \<^verbatim>\<open>i64\<close>, i.e. it is at most 3037000499.
\<close>

definition common_den :: "execution_segment list \<Rightarrow> int" where
  "common_den segs = foldr (\<lambda>s a. lcm (lcm (from_den s) (to_den s)) a) segs 1"

definition len_num :: "execution_segment \<Rightarrow> int" where
  "len_num seg = (let n = to_num seg * from_den seg - from_num seg * to_den seg;
                      d = to_den seg * from_den seg in n div gcd n d)"

definition len_den :: "execution_segment \<Rightarrow> int" where
  "len_den seg = (let n = to_num seg * from_den seg - from_num seg * to_den seg;
                      d = to_den seg * from_den seg in d div gcd n d)"

lemma common_den_dvd: "s \<in> set segs \<Longrightarrow> lcm (from_den s) (to_den s) dvd common_den segs"
  by (induction segs) (auto simp: common_den_def intro: dvd_trans simp del: lcm_least_iff)

lemma common_den_pos: "(\<forall>s \<in> set segs. seg_ok s) \<Longrightarrow> 0 < common_den segs"
  by (induction segs) (auto simp: common_den_def seg_ok_def intro!: lcm_pos_int)

lemma div_dvd_div_coarser:
  assumes "h dvd g" "g dvd d" "(d::int) \<noteq> 0"
  shows "d div g dvd d div h"
proof -
  from assms obtain a b where *: "d = g * a" "g = h * b" by (auto simp: dvd_def)
  with assms have "g \<noteq> 0" "h \<noteq> 0" by auto
  then have "d div g = a" "d div h = b * a" using * by (auto simp: mult.assoc)
  then show ?thesis by simp
qed

lemma len_den_dvd: "seg_ok seg \<Longrightarrow> len_den seg dvd lcm (from_den seg) (to_den seg)"
proof -
  assume ok: "seg_ok seg"
  let ?n = "to_num seg * from_den seg - from_num seg * to_den seg"
  let ?d = "to_den seg * from_den seg" and ?h = "gcd (from_den seg) (to_den seg)"
  have "?h dvd gcd ?n ?d" by (intro gcd_greatest) auto
  then have "?d div gcd ?n ?d dvd ?d div ?h" using ok
    by (intro div_dvd_div_coarser) (auto simp: seg_ok_def)
  also have "?d div ?h = lcm (from_den seg) (to_den seg)"
    using ok by (simp add: lcm_gcd mult.commute seg_ok_def pos_imp_zdiv_nonneg_iff)
  finally show ?thesis by (simp add: len_den_def Let_def)
qed

lemma len_facts:
  assumes "seg_ok seg"
  shows "0 < len_num seg" "0 < len_den seg" "of_int (len_num seg) / of_int (len_den seg) = fraction seg"
proof -
  let ?n = "to_num seg * from_den seg - from_num seg * to_den seg"
  let ?d = "to_den seg * from_den seg"
  have pos: "0 < ?n" "0 < ?d" using assms by (auto simp: seg_ok_def)
  then have g: "0 < gcd ?n ?d" by simp
  have "?n = len_num seg * gcd ?n ?d" "?d = len_den seg * gcd ?n ?d"
    by (simp_all add: len_num_def len_den_def Let_def)
  with pos g show "0 < len_num seg" "0 < len_den seg" by (metis zero_less_mult_pos2)+
  have "of_int (len_num seg) / of_int (len_den seg) = (of_int ?n / of_int ?d :: rat)"
    using quot_reduced [OF pos(2), of ?n] by (simp add: len_num_def len_den_def Let_def)
  also have "\<dots> = fraction seg" using assms
    by (simp add: fraction_def seg_to_def seg_from_def seg_ok_def diff_frac_eq mult.commute)
  finally show "of_int (len_num seg) / of_int (len_den seg) = fraction seg" .
qed

lemma length_rat_exact:
  assumes "seg_ok seg" and "from_den seg * to_den seg \<le> i64_max"
  shows "length_rat seg = Inr (len_num seg, len_den seg)"
proof -
  let ?a = "to_num seg * from_den seg" and ?b = "from_num seg * to_den seg"
    and ?d = "to_den seg * from_den seg"
  have "?a \<le> ?d" "?b \<le> ?d" using assms by (auto simp: seg_ok_def mult.commute intro: mult_right_mono)
  moreover have "0 \<le> ?b" "?b < ?a" "0 < ?d" using assms by (auto simp: seg_ok_def)
  moreover have "?d \<le> i64_max" using assms(2) by (simp add: mult.commute)
  ultimately have "wrap_i64 ?a = ?a" "wrap_i64 ?b = ?b" "wrap_i64 ?d = ?d"
    "wrap_i64 (?a - ?b) = ?a - ?b" "\<bar>?a - ?b\<bar> \<le> i64_max" "0 < ?d" "?d \<le> i64_max"
    by (auto intro!: wrap_i64_id simp: in_i64_def i64_bounds)
  then show ?thesis by (simp add: length_rat_def Let_def reduce_frac_exact len_num_def len_den_def)
qed

lemma i64_rem_pos: "0 < a \<Longrightarrow> 0 < b \<Longrightarrow> i64_rem a b = Inr (a mod b)"
  by (auto simp: i64_rem_def i64_bounds rust_int)

lemma i64_div_pos: "0 < a \<Longrightarrow> 0 < b \<Longrightarrow> i64_div a b = Inr (a div b)"
  by (auto simp: i64_div_def i64_bounds rust_int)

text \<open>Everything the loop computes divides the common denominator, so nothing overflows.\<close>

definition small_dens :: "int \<Rightarrow> execution_segment list \<Rightarrow> bool" where
  "small_dens D segs \<longleftrightarrow> 0 < D \<and> D * D \<le> i64_max
     \<and> (\<forall>s \<in> set segs. seg_ok s \<and> lcm (from_den s) (to_den s) dvd D)"

lemma small_densD:
  assumes "small_dens D segs" and "s \<in> set segs"
  shows "length_rat s = Inr (len_num s, len_den s)" "len_den s dvd D"
    "0 < len_num s" "0 < len_den s" "of_int (len_num s) / of_int (len_den s) = fraction s" "D \<le> i64_max"
proof -
  have ok: "seg_ok s" and dv: "lcm (from_den s) (to_den s) dvd D" and D: "0 < D" "D * D \<le> i64_max"
    using assms by (auto simp: small_dens_def)
  have "from_den s dvd D" "to_den s dvd D" using dv by auto
  then have "from_den s \<le> D" "to_den s \<le> D" using D by (auto intro: zdvd_imp_le)
  then have "from_den s * to_den s \<le> D * D" using ok D by (intro mult_mono) (auto simp: seg_ok_def)
  with ok D show "length_rat s = Inr (len_num s, len_den s)" by (intro length_rat_exact) auto
  show "len_den s dvd D" using len_den_dvd [OF ok] dv by (rule dvd_trans)
  show "0 < len_num s" "0 < len_den s" "of_int (len_num s) / of_int (len_den s) = fraction s"
    using len_facts [OF ok] by auto
  have "D * 1 \<le> D * D" using D by (intro mult_left_mono) auto
  with D show "D \<le> i64_max" by linarith
qed

lemma lcd_loop_step:
  assumes "length_rat s = Inr (k, n)" and "0 < acc" "0 < n" and "seg_gcd acc n = Inr (gcd acc n)"
  shows "lcd_loop acc (s # ss) =
    lcd_loop (if n dvd acc then acc else wrap_i64 (acc * (n div gcd acc n))) ss"
  using assms by (simp add: i64_rem_pos i64_div_pos dvd_eq_mod_eq_0)

lemma lcm_pos_eq: "0 < a \<Longrightarrow> 0 < b \<Longrightarrow> a * (b div gcd a b) = lcm a (b::int)"
  by (simp add: lcm_gcd div_mult_swap pos_imp_zdiv_nonneg_iff)

lemma lcd_loop_ok:
  assumes "small_dens D segs" and "0 < acc" and "acc dvd D"
  shows "\<exists>l. lcd_loop acc segs = Inr l \<and> 0 < l \<and> l dvd D \<and> acc dvd l \<and> (\<forall>s \<in> set segs. len_den s dvd l)"
  using assms
proof (induction segs arbitrary: acc)
  case (Cons s ss)
  let ?n = "len_den s"
  note s = small_densD [OF Cons.prems(1), of s, simplified]
  have ss: "small_dens D ss" and D: "0 < D" using Cons.prems(1) by (auto simp: small_dens_def)
  have lcm: "lcm acc ?n dvd D" "0 < lcm acc ?n" using Cons.prems s by (auto intro: lcm_pos_int)
  have "acc \<le> D" "?n \<le> D" "lcm acc ?n \<le> D"
    using Cons.prems(3) s(2) lcm(1) D by (auto intro: zdvd_imp_le simp del: lcm_least_iff)
  then have g: "seg_gcd acc ?n = Inr (gcd acc ?n)" and w: "wrap_i64 (lcm acc ?n) = lcm acc ?n"
    using s(4,6) Cons.prems(2) lcm(2)
    by (auto intro!: seg_gcd_correct wrap_i64_id simp: in_i64_def i64_bounds)
  have "lcd_loop acc (s # ss) = lcd_loop (lcm acc ?n) ss"
  proof (cases "?n dvd acc")
    case True
    with Cons.prems(2) have "lcm acc ?n = acc" by (simp add: lcm_proj1_iff_int)
    with True show ?thesis unfolding lcd_loop_step [OF s(1) Cons.prems(2) s(4) g] by simp
  next
    case False
    then show ?thesis
      unfolding lcd_loop_step [OF s(1) Cons.prems(2) s(4) g] lcm_pos_eq [OF Cons.prems(2) s(4)] w by simp
  qed
  with Cons.IH [OF ss lcm(2,1)] show ?case by (auto simp del: lcd_loop.simps)
qed simp

lemma sequence_lcd_ok:
  assumes "small_dens D segs" and "segs \<noteq> []"
  shows "\<exists>l. sequence_lcd segs = Inr l \<and> 0 < l \<and> l dvd D \<and> (\<forall>s \<in> set segs. len_den s dvd l)"
proof -
  obtain s ss where [simp]: "segs = s # ss" using assms(2) by (cases segs) auto
  note s = small_densD [OF assms(1), of s, simplified]
  have "small_dens D ss" using assms(1) by (simp add: small_dens_def)
  from lcd_loop_ok [OF this s(4) s(2)] s(1) show ?thesis by (auto simp: sequence_lcd_def)
qed

definition share_of :: "int \<Rightarrow> execution_segment \<Rightarrow> int" where
  "share_of l s = len_num s * (l div len_den s)"

lemma share_of_rat:
  assumes "seg_ok s" and "len_den s dvd l"
  shows "of_int (share_of l s) = of_int l * fraction s"
proof -
  have "(of_int l :: rat) = of_int (l div len_den s) * of_int (len_den s)"
    using assms(2) by (simp flip: of_int_mult)
  then show ?thesis
    using len_facts [OF assms(1)] by (simp add: share_of_def flip: len_facts(3) [OF assms(1)])
qed

lemma norm_items_ok:
  assumes "small_dens D segs" and "0 < l" "l dvd D" and "\<forall>s \<in> set segs. len_den s dvd l"
  shows "norm_items l segs = Inr (zip (map (share_of l) segs) [0..<length segs])"
proof -
  have "wrap_i64 (share_of l s) = share_of l s \<and> i64_div l (len_den s) = Inr (l div len_den s)"
    if "s \<in> set segs" for s
  proof -
    have ok: "seg_ok s" using assms(1) that by (simp add: small_dens_def)
    note s = small_densD [OF assms(1) that]
    have "fraction s \<le> 1" "0 < fraction s" using seg_ok_bounds [OF ok] by (auto simp: fraction_def)
    then have "of_int (share_of l s) \<le> (of_int l :: rat)" "0 \<le> (of_int (share_of l s) :: rat)"
      using assms that ok by (auto simp: share_of_rat mult_left_le)
    moreover have "l \<le> D" using assms by (auto simp: small_dens_def intro: zdvd_imp_le)
    ultimately show ?thesis
      using s assms(2) by (auto simp: i64_div_pos in_i64_def i64_bounds intro!: wrap_i64_id)
  qed
  moreover have "zip (map (share_of l) segs) [0..<length segs]
      = map (\<lambda>(s, i). (share_of l s, i)) (zip segs [0..<length segs])"
    by (simp add: zip_map1)
  ultimately show ?thesis
    using small_densD(1) [OF assms(1)] unfolding norm_items_def
    by (auto intro!: mapM_Inr_all dest!: set_zip_leftD simp: share_of_def)
qed

lemma sum_shares:
  assumes "unit_chain segs" and "\<forall>s \<in> set segs. len_den s dvd l"
  shows "(\<Sum>s\<leftarrow>segs. share_of l s) = l"
proof -
  have "of_int (\<Sum>s\<leftarrow>segs. share_of l s) = (\<Sum>s\<leftarrow>segs. of_int (share_of l s) :: rat)"
    by (induction segs) auto
  also have "\<dots> = (\<Sum>s\<leftarrow>segs. of_int l * seg_to s - of_int l * seg_from s)"
    using assms by (intro arg_cong [of _ _ sum_list] map_cong)
      (auto simp: unit_chain_def share_of_rat fraction_def right_diff_distrib)
  also have "\<dots> = of_int l * seg_to (last segs) - of_int l * seg_from (hd segs)"
    using assms by (intro linked_telescope [of _ "\<lambda>x. of_int l * x"]) (auto simp: unit_chain_def)
  also have "\<dots> = (of_int l :: rat)" using assms by (simp add: unit_chain_def)
  finally show ?thesis by (simp only: of_int_eq_iff)
qed

lemma sorted_items_ok:
  assumes chain: "unit_chain segs" and small: "small_dens D segs"
    and l: "0 < l" "l dvd D" "\<forall>s \<in> set segs. len_den s dvd l"
  defines "items \<equiv> sort_key (\<lambda>a. - fst a) (zip (map (share_of l) segs) [0..<length segs])"
  shows "items_ok l items" and "length items = length segs"
    and "k < length items \<Longrightarrow> fst (items ! k) = share_of l (segs ! snd (items ! k))"
proof -
  let ?z = "zip (map (share_of l) segs) [0..<length segs]"
  have m: "mset items = mset ?z" by (simp add: items_def)
  have "mset (map fst items) = mset (map (share_of l) segs)"
    using arg_cong [OF m, of "image_mset fst"] by (simp flip: mset_map)
  then have fst: "sum_list (map fst items) = (\<Sum>s\<leftarrow>segs. share_of l s)"
    and set: "fst ` set items = share_of l ` set segs"
    by (metis sum_mset_sum_list, metis set_map set_mset_mset)
  have "mset (map snd items) = mset [0..<length segs]"
    using arg_cong [OF m, of "image_mset snd"] by (simp flip: mset_map)
  then have snd: "distinct (map snd items)" "set (map snd items) = {..<length segs}"
    by (metis distinct_upt mset_eq_imp_distinct_iff, metis atLeast_upt set_mset_mset)
  show len: "length items = length segs" by (simp add: items_def)
  have "l \<le> D" using l small by (auto simp: small_dens_def intro: zdvd_imp_le)
  then have "l * l \<le> D * D" using l by (intro mult_mono) auto
  then have "l * l \<le> i64_max" using small by (simp add: small_dens_def)
  moreover have "0 < share_of l s" if "s \<in> set segs" for s
    using that l small_densD(3,4) [OF small that] zdvd_imp_le [of "len_den s" l]
    by (simp add: share_of_def pos_imp_zdiv_pos_iff)
  ultimately show "items_ok l items"
    using fst snd set len sum_shares [OF chain l(3)] l(1) by (simp add: items_ok_def plan_ok_def)
  show "fst (items ! k) = share_of l (segs ! snd (items ! k))" if "k < length items"
  proof -
    have "items ! k \<in> set ?z" using nth_mem [OF that] by (simp add: items_def)
    then show ?thesis by (auto simp: set_zip)
  qed
qed

section \<open>Who owns which tick, by segment\<close>

text \<open>
  What a finished wrapper means: a list \<open>own\<close> naming, for each tick of a cycle, the index of
  the segment that owns it; each segment's table is the gaps between its own ticks.
\<close>

definition stripes :: "wrapper \<Rightarrow> execution_segment list \<Rightarrow> nat list \<Rightarrow> bool" where
  "stripes w segs own \<longleftrightarrow> 0 < w_lcd w \<and> length own = nat (w_lcd w) \<and> (\<forall>i \<in> set own. i < length segs)
     \<and> length (w_offsets w) = length segs
     \<and> (\<forall>i < length segs. positions own i \<noteq> []
         \<and> of_nat (count_list own i) = of_int (w_lcd w) * fraction (segs ! i)
         \<and> (\<forall>r < count_list own i. int r * w_lcd w \<le> positions own i ! r * int (count_list own i))
         \<and> w_offsets w ! i = gaps 0 (positions own i)
              @ [hd (positions own i) + w_lcd w - last (positions own i)])"

lemma positions_map_inj:
  "inj_on f (insert k (set own)) \<Longrightarrow> positions (map f own) (f k) = positions own k"
  by (auto simp: positions_def inj_on_def intro!: filter_cong)

lemma length_tick_step: "length (st_offsets (tick_step L items g st)) = length (st_offsets st)"
  by (auto simp: tick_step_def Let_def split: option.splits prod.splits)

lemma length_stripe_loop: "length (st_offsets (stripe_loop L items n)) = n"
proof -
  have "length (st_offsets (fold (tick_step L items) gs st)) = length (st_offsets st)" for gs st
    by (induction gs arbitrary: st) (simp_all add: length_tick_step)
  then show ?thesis by (simp add: stripe_loop_def init_stripe_def)
qed

lemma stripes_items:
  assumes ok: "items_ok L items" and len: "length items = length segs"
    and fst: "\<And>k. k < length items \<Longrightarrow> fst (items ! k) = share_of L (segs ! snd (items ! k))"
    and share: "\<And>s. s \<in> set segs \<Longrightarrow> of_int (share_of L s) = of_int L * fraction s"
  shows "stripes \<lparr>w_lcd = L, w_offsets = st_offsets (stripe_loop L items (length segs))\<rparr> segs
    (map (\<lambda>k. snd (items ! k)) (owners L (map fst items) (nat L)))"
proof -
  let ?own = "owners L (map fst items) (nat L)" and ?f = "\<lambda>k. snd (items ! k)"
  have plan: "plan_ok L (map fst items)" using ok by (simp add: items_ok_def)
  have inj: "inj_on ?f {..<length items}" using items_ok_idx(2) [OF ok] by (auto intro: inj_onI)
  have lt: "k < length items" if "k \<in> set ?own" for k using owners_lt [OF that] by simp
  have pos: "positions (map ?f ?own) (?f k) = positions ?own k" if "k < length items" for k
    using that lt by (intro positions_map_inj inj_on_subset [OF inj]) auto
  have cnt: "int (count_list ?own k) = fst (items ! k)" "0 < fst (items ! k)" if "k < length items" for k
    using owners_count_final [OF plan, of k] plan that by (auto simp: plan_ok_def)
  have "\<exists>k < length items. i = ?f k" if "i < length segs" for i
  proof -
    have "i \<in> set (map snd items)" using ok that len by (simp add: items_ok_def)
    then show ?thesis by (metis in_set_conv_nth length_map nth_map)
  qed
  moreover have "positions (map ?f ?own) (?f k) \<noteq> []
      \<and> of_nat (count_list (map ?f ?own) (?f k)) = of_int L * fraction (segs ! ?f k)
      \<and> (\<forall>r < count_list (map ?f ?own) (?f k). int r * L
            \<le> positions (map ?f ?own) (?f k) ! r * int (count_list (map ?f ?own) (?f k)))
      \<and> st_offsets (stripe_loop L items (length segs)) ! ?f k = gaps 0 (positions (map ?f ?own) (?f k))
          @ [hd (positions (map ?f ?own) (?f k)) + L - last (positions (map ?f ?own) (?f k))]"
    if k: "k < length items" for k
  proof -
    have "count_list (map ?f ?own) (?f k) = count_list ?own k"
      using arg_cong [OF pos [OF k], of length] by simp
    moreover have "positions ?own k \<noteq> []" using cnt [OF k] by (auto simp flip: length_greater_0_conv)
    moreover have "of_nat (count_list ?own k) = (of_int (fst (items ! k)) :: rat)"
      by (metis cnt(1) [OF k] of_int_of_nat_eq)
    moreover have "int r * L \<le> positions ?own k ! r * fst (items ! k)" if "r < count_list ?own k" for r
      using owners_even [OF plan that] k by simp
    ultimately show ?thesis
      using stripe_loop_offsets [OF ok k] len items_ok_idx(1) [OF ok k] cnt(1) [OF k]
      unfolding pos [OF k] by (simp add: Let_def fst [OF k] share)
  qed
  ultimately show ?thesis
    using plan lt items_ok_idx(1) [OF ok] len owners_length [OF plan, of "nat L"]
    by (auto simp: stripes_def plan_ok_def length_stripe_loop)
qed

lemma wrapper_new_stripes:
  assumes "unit_chain segs" and "common_den segs * common_den segs \<le> i64_max"
    and "from_num (hd segs) = 0" and "to_num (last segs) = to_den (last segs)"
  shows "\<exists>w own. wrapper_new segs = Inr w \<and> stripes w segs own \<and> w_lcd w \<le> common_den segs"
proof -
  have ok: "\<forall>s \<in> set segs. seg_ok s" and ne: "segs \<noteq> []" using assms(1) by (auto simp: unit_chain_def)
  have small: "small_dens (common_den segs) segs"
    using assms ok common_den_pos [OF ok] common_den_dvd by (auto simp: small_dens_def simp del: lcm_least_iff)
  obtain l where l: "sequence_lcd segs = Inr l" "0 < l" "l dvd common_den segs" "\<forall>s \<in> set segs. len_den s dvd l"
    using sequence_lcd_ok [OF small ne] by blast
  note items = sorted_items_ok [OF assms(1) small l(2-4)]
  have "of_int (share_of l s) = of_int l * fraction s" if "s \<in> set segs" for s
    using that ok l(4) by (simp add: share_of_rat)
  from stripes_items [OF items(1,2,3) this] l(1) norm_items_ok [OF small l(2-4)] assms ne
  show ?thesis using zdvd_imp_le [OF l(3) common_den_pos [OF ok]]
    by (auto simp: wrapper_new_def Let_def)
qed

end
