(* ===== verification/Scaling.thy ===== *)
theory Scaling
  imports Striping
begin

text \<open>
  What segment strings mean and what scaling a load profile does
  (\<^verbatim>\<open>crates/tropel-core/src/segment.rs\<close>): the four spellings of a boundary, the check of a
  segment against a sequence, and the conservation of the work across the nodes of a sequence.
\<close>

section \<open>Spellings of a boundary\<close>

lemma trim_framed:
  assumes "parse_digits a = Some x" and "t = a @ b" and "\<not> is_ws (last t)"
  shows "trim t = t"
proof (rule trim_id)
  have "hd a \<in> set a" using parse_digits_facts(1) [OF assms(1)] by simp
  then have "\<not> is_ws (hd t)" using parse_digits_not_ws [OF assms(1)] parse_digits_facts(1) [OF assms(1)] assms(2)
    by simp
  with assms(3) show "t = [] \<or> \<not> is_ws (hd t) \<and> \<not> is_ws (last t)" by simp
qed

lemma last_digits_not_ws: "parse_digits s = Some n \<Longrightarrow> \<not> is_ws (last s)"
  using parse_digits_not_ws parse_digits_facts(1) by simp

lemma trim_digits: "parse_digits s = Some n \<Longrightarrow> trim s = s"
  using trim_framed [of s n s "[]"] last_digits_not_ws by simp

lemma digits_no_sep:
  assumes "parse_digits s = Some n"
  shows "CHR ''/'' \<notin> set s" "CHR ''.'' \<notin> set s" "CHR ''%'' \<notin> set s"
  using parse_digits_no_char [OF assms] by auto

lemma ends_with_char: "ends_with [c] s \<longleftrightarrow> s \<noteq> [] \<and> last s = c"
  by (cases s rule: rev_cases) (auto simp: ends_with_def)

lemma strip_percent_digits: "parse_digits s = Some n \<Longrightarrow> strip_suffix ''%'' (p @ s) = None"
proof -
  assume s: "parse_digits s = Some n"
  then have "last s \<in> set s" using parse_digits_facts(1) by simp
  then have "last s \<noteq> CHR ''%''" using digits_no_sep(3) [OF s] by metis
  then show ?thesis using parse_digits_facts(1) [OF s] by (simp add: strip_suffix_def ends_with_char)
qed

lemma parse_fraction_slash:
  assumes "parse_digits a = Some n" "parse_digits b = Some d" "0 < d" "int n \<le> i64_max" "int d \<le> i64_max"
  shows "parse_fraction (a @ ''/'' @ b) = Inr (int n div gcd (int n) (int d), int d div gcd (int n) (int d))"
proof -
  let ?s = "a @ CHR ''/'' # b"
  have "trim ?s = ?s"
    using assms last_digits_not_ws [OF assms(2)] parse_digits_facts(1) [OF assms(2)]
    by (intro trim_framed [OF assms(1)]) auto
  moreover have "split_once (CHR ''/'') ?s = Some (a, b)"
    using digits_no_sep [OF assms(1)] by (simp add: split_once_append)
  moreover have "parse_i64 a = Some (int n)" "parse_i64 b = Some (int d)"
    using assms by (auto intro!: parse_signed_digits simp: i64_bounds)
  ultimately show ?thesis
    using assms by (simp add: parse_fraction_def Let_def trim_digits reduce_frac_exact)
qed

lemma parse_fraction_percent:
  assumes "parse_digits a = Some n" "int n \<le> i64_max"
  shows "parse_fraction (a @ ''%'') = Inr (int n div gcd (int n) 100, 100 div gcd (int n) 100)"
proof -
  let ?s = "a @ ''%''"
  have "trim ?s = ?s" using assms by (intro trim_framed [OF assms(1)]) (auto simp: is_ws_def Let_def)
  moreover have "split_once (CHR ''/'') ?s = None" using digits_no_sep [OF assms(1)] by (intro split_once_absent) auto
  moreover have "strip_suffix ''%'' ?s = Some a" by (simp add: strip_suffix_def ends_with_def)
  moreover have "parse_i64 a = Some (int n)" using assms by (auto intro!: parse_signed_digits simp: i64_bounds)
  ultimately show ?thesis
    using assms by (simp add: parse_fraction_def Let_def trim_digits reduce_frac_exact i64_bounds)
qed

lemma parse_fraction_decimal:
  assumes "parse_digits a = Some n" "parse_digits f = Some m" "int n * 10 ^ length f + int m \<le> i64_max"
    and "(10::int) ^ length f \<le> i64_max"
  shows "parse_fraction (a @ ''.'' @ f) = (let num = int n * 10 ^ length f + int m; den = 10 ^ length f
    in Inr (num div gcd num den, den div gcd num den))"
proof -
  let ?s = "a @ CHR ''.'' # f" and ?den = "(10::int) ^ length f"
  have ne: "f \<noteq> []" by (rule parse_digits_facts [OF assms(2)])
  have "trim ?s = ?s" using last_digits_not_ws [OF assms(2)] ne by (intro trim_framed [OF assms(1)]) auto
  moreover have "split_once (CHR ''/'') ?s = None"
    using digits_no_sep [OF assms(1)] digits_no_sep [OF assms(2)] by (intro split_once_absent) auto
  moreover have "strip_suffix ''%'' ?s = None" using strip_percent_digits [OF assms(2), of "a @ ''.''"] by simp
  moreover have "split_once (CHR ''.'') ?s = Some (a, f)"
    using digits_no_sep [OF assms(1)] by (simp add: split_once_append)
  moreover have n: "int n \<le> int n * ?den" "0 \<le> int m" by (simp_all add: mult_le_cancel_left1)
  moreover have "parse_i64 a = Some (int n)" "parse_i64 f = Some (int m)"
    using assms n by (auto intro!: parse_signed_digits simp: i64_bounds)
  moreover have "wrap_i64 ?den = ?den" "wrap_i64 (int n * ?den) = int n * ?den"
    "wrap_i64 (int n * ?den + int m) = int n * ?den + int m"
    using assms n by (auto intro!: wrap_i64_id in_i64I)
  ultimately show ?thesis
    using assms ne by (simp add: parse_fraction_def Let_def reduce_frac_exact)
qed

lemma parse_fraction_int:
  assumes "parse_digits a = Some n" "int n \<le> i64_max"
  shows "parse_fraction a = Inr (int n, 1)"
proof -
  have "split_once (CHR ''/'') a = None" "split_once (CHR ''.'') a = None"
    using digits_no_sep [OF assms(1)] by (auto intro: split_once_absent)
  moreover have "parse_i64 a = Some (int n)" using assms by (auto intro!: parse_signed_digits simp: i64_bounds)
  ultimately show ?thesis
    using assms strip_percent_digits [OF assms(1), of "[]"] parse_digits_facts(1) [OF assms(1)]
    by (simp add: parse_fraction_def Let_def trim_digits)
qed

definition denotes :: "seg_error + (int \<times> int) \<Rightarrow> rat \<Rightarrow> bool" where
  "denotes r q \<longleftrightarrow> (case r of Inl _ \<Rightarrow> False
     | Inr (a, b) \<Rightarrow> 0 < b \<and> coprime a b \<and> of_int a / of_int b = q)"

lemma denotes_reduced: "0 < (d::int) \<Longrightarrow> denotes (Inr (n div gcd n d, d div gcd n d)) (of_int n / of_int d)"
proof -
  assume d: "0 < d"
  then have "0 < d div gcd n d" by (simp add: pos_imp_zdiv_pos_iff zdvd_imp_le)
  with d show ?thesis by (simp add: denotes_def quot_reduced div_gcd_coprime)
qed

text \<open>Every spelling of a boundary denotes the rational it spells, in lowest terms: a
  fraction of two decimal numerals, a percentage, a decimal with any number of fractional
  digits whose value fits \<^verbatim>\<open>i64\<close>, and a whole number.\<close>

theorem parse_fraction_denotes:
  assumes "parse_digits a = Some n" and "parse_digits b = Some d" and "0 < d"
    and "int d \<le> i64_max" and "(10::int) ^ length b \<le> i64_max" and "int n * 10 ^ length b + int d \<le> i64_max"
  shows "denotes (parse_fraction (a @ ''/'' @ b)) (of_nat n / of_nat d)
    \<and> denotes (parse_fraction (a @ ''%'')) (of_nat n / 100)
    \<and> denotes (parse_fraction (a @ ''.'' @ b)) (of_nat n + of_nat d / 10 ^ length b)
    \<and> denotes (parse_fraction a) (of_nat n)"
proof -
  have "int n \<le> int n * 10 ^ length b" by (simp add: mult_le_cancel_left1)
  with assms(6) have n: "int n \<le> i64_max" by linarith
  have "(of_int (int n * 10 ^ length b + int d) :: rat) / of_int (10 ^ length b) = of_nat n + of_nat d / 10 ^ length b"
    by (simp add: divide_simps)
  then have "denotes (parse_fraction (a @ ''.'' @ b)) (of_nat n + of_nat d / 10 ^ length b)"
    using denotes_reduced [of "10 ^ length b" "int n * 10 ^ length b + int d"]
    by (simp only: parse_fraction_decimal [OF assms(1,2,6,5)] Let_def) simp
  moreover have "denotes (parse_fraction (a @ ''/'' @ b)) (of_nat n / of_nat d)"
    using denotes_reduced [of "int d" "int n"] assms(3)
    by (simp only: parse_fraction_slash [OF assms(1-3) n assms(4)]) simp
  moreover have "denotes (parse_fraction (a @ ''%'')) (of_nat n / 100)"
    using denotes_reduced [of 100 "int n"] by (simp only: parse_fraction_percent [OF assms(1) n]) simp
  moreover have "denotes (parse_fraction a) (of_nat n)"
    by (simp add: parse_fraction_int [OF assms(1) n] denotes_def)
  ultimately show ?thesis by blast
qed

theorem parse_fraction_denotes_witness:
  "denotes (parse_fraction (''1'' @ ''/'' @ ''4'')) (of_nat 1 / of_nat 4)
    \<and> denotes (parse_fraction (''1'' @ ''%'')) (of_nat 1 / 100)
    \<and> denotes (parse_fraction (''1'' @ ''.'' @ ''4'')) (of_nat 1 + of_nat 4 / 10 ^ length ''4'')
    \<and> denotes (parse_fraction ''1'') (of_nat 1)"
  by (rule parse_fraction_denotes; code_simp)

section \<open>A segment against its sequence\<close>

lemma position_Some:
  "position P xs = Some i \<Longrightarrow> i < length xs \<and> P (xs ! i) \<and> (\<forall>j < i. \<not> P (xs ! j))"
proof (induction xs arbitrary: i)
  case (Cons x xs)
  then show ?case
    by (auto simp: nth_Cons less_Suc_eq_0_disj split: if_splits nat.splits)
qed simp

lemma strictly_ascending_sorted: "strictly_ascending xs \<Longrightarrow> sorted_wrt (<) xs"
  by (induction xs rule: strictly_ascending.induct) (auto intro: less_trans)

lemma parse_sequence_shape:
  assumes "parse_sequence sequence = Inr bounds"
  shows "2 \<le> length bounds" "sorted_wrt (<) bounds"
    "\<bar>hd bounds\<bar> \<le> tolerance" "\<bar>last bounds - 1\<bar> \<le> tolerance"
  using assms
  by (auto simp: parse_sequence_def Let_def not_less dest!: mapM_length dest: strictly_ascending_sorted
      split: if_splits)

text \<open>A segment accepted against a sequence is one of its cells: the sequence is a strictly
  ascending list of boundaries from 0 to 1 (within the tolerance), and the segment is a
  well-formed interval whose two ends are, within the tolerance, two consecutive boundaries.\<close>

theorem parse_segment_consecutive:
  assumes "parse_segment segment (Some sequence) = Inr seg"
  shows "\<exists>bounds i. parse_sequence sequence = Inr bounds \<and> sorted_wrt (<) bounds
    \<and> \<bar>hd bounds\<bar> \<le> tolerance \<and> \<bar>last bounds - 1\<bar> \<le> tolerance
    \<and> i + 1 < length bounds \<and> \<bar>bounds ! i - seg_from seg\<bar> < tolerance
    \<and> \<bar>bounds ! (i + 1) - seg_to seg\<bar> < tolerance
    \<and> 0 \<le> seg_from seg \<and> seg_from seg < seg_to seg \<and> seg_to seg \<le> 1"
proof -
  let ?at = "\<lambda>x. position (\<lambda>b. \<bar>b - x\<bar> < tolerance)"
  from assms obtain fn fd tn td seg' bounds where new: "new_segment fn fd tn td = Inr seg'"
    and bounds: "parse_sequence sequence = Inr bounds"
    and cells: "(case (?at (seg_from seg') bounds, ?at (seg_to seg') bounds) of
          (Some i, Some j) \<Rightarrow> if j = i + 1 then Inr seg'
             else if i + 1 < length bounds then Inl SkipsBoundary else Inl Panicked
        | _ \<Rightarrow> Inl NotInSequence) = Inr seg"
    by (cases "split_once (CHR '':'') segment") (auto simp: parse_segment_def)
  from cells obtain i where i: "?at (seg_from seg) bounds = Some i"
    and j: "?at (seg_to seg) bounds = Some (i + 1)" and seg: "seg' = seg"
    by (cases "?at (seg_from seg') bounds"; cases "?at (seg_to seg') bounds") (auto split: if_splits)
  from parse_sequence_shape [OF bounds] position_Some [OF i] position_Some [OF j]
    seg_ok_bounds [OF new_segment_ok [OF new]] seg bounds
  show ?thesis by auto
qed

theorem parse_segment_consecutive_witness:
  "parse_segment ''1/3:2/3'' (Some ''0,1/3,2/3,1'') = Inr \<lparr>from_num = 1, from_den = 3, to_num = 2, to_den = 3\<rparr>
   \<and> (\<exists>bounds i. parse_sequence ''0,1/3,2/3,1'' = Inr bounds \<and> i + 1 < length bounds)"
proof -
  have *: "parse_segment ''1/3:2/3'' (Some ''0,1/3,2/3,1'')
      = Inr \<lparr>from_num = 1, from_den = 3, to_num = 2, to_den = 3\<rparr>" by code_simp
  from parse_segment_consecutive [OF *] * show ?thesis by blast
qed

text \<open>The sign of a decimal between -1 and 0 is lost: \<^verbatim>\<open>-0.5\<close> is read as one half, because
  the integer part \<^verbatim>\<open>-0\<close> is read as zero and the fraction digits are then added. So a segment
  with a negative lower bound, which \<^verbatim>\<open>new\<close> is there to reject, is accepted.\<close>

theorem parse_fraction_loses_sign:
  "parse_fraction ''-0.5'' = Inr (1, 2) \<and> parse_fraction ''0.5'' = Inr (1, 2)
   \<and> parse_fraction ''-1/2'' = Inr (- 1, 2)
   \<and> parse_segment ''-0.5:1'' None = Inr \<lparr>from_num = 1, from_den = 2, to_num = 1, to_den = 1\<rparr>"
  by (intro conjI; code_simp)

text \<open>Checking a segment that starts within the tolerance of the last boundary panics: the
  error message indexes the boundary after the last one.\<close>

theorem parse_segment_panics:
  "parse_segment ''0.9999999999:1'' (Some ''0,1'') = Inl Panicked"
  by code_simp

section \<open>Conservation of work\<close>

fun vu_fields :: "'t execution_config \<Rightarrow> nat list" where
  "vu_fields (ConstantVus vus duration gs tt) = [vus]"
| "vu_fields (RampingVus stages start_vus grd gs tt) = start_vus # map stage_target stages"
| "vu_fields (ConstantArrivalRate rate tu duration pre mx gs tt) = [pre, mx]"
| "vu_fields (SharedIterations iters md vus gs tt) = [vus]"
| "vu_fields (RampingArrivalRate start stages tu pre mx gs tt) = [pre, mx]"
| "vu_fields (PerVUIterations vus iters md gs tt) = [vus]"
| "vu_fields (ExternallyControlled vus mx duration gs tt) = [vus, mx]"

fun iteration_fields :: "'t execution_config \<Rightarrow> nat list" where
  "iteration_fields (SharedIterations iters md vus gs tt) = [iters]"
| "iteration_fields _ = []"

fun rate_fields :: "'t execution_config \<Rightarrow> rat list" where
  "rate_fields (ConstantArrivalRate rate tu duration pre mx gs tt) = [rate]"
| "rate_fields (RampingArrivalRate start stages tu pre mx gs tt) = start # map rate_target stages"
| "rate_fields _ = []"

lemma vu_fields_apply: "vu_fields (apply_with seg e mode) = map (scale_vus seg) (vu_fields e)"
  by (cases e) auto

lemma iteration_fields_apply:
  "iteration_fields (apply_with seg e mode) = map (scale_iterations seg) (iteration_fields e)"
  by (cases e) auto

lemma rate_fields_apply: "rate_fields (apply_with seg e mode) = map (rate_share seg mode) (rate_fields e)"
  by (cases e) auto

lemma rate_chain_sum:
  assumes "unit_chain segs"
  shows "(\<Sum>s\<leftarrow>segs. scale_rate s r) = r"
proof -
  have "(\<Sum>s\<leftarrow>segs. scale_rate s r) = (\<Sum>s\<leftarrow>segs. r * seg_to s - r * seg_from s)"
    by (simp add: scale_rate_def fraction_def right_diff_distrib)
  also have "\<dots> = r * seg_to (last segs) - r * seg_from (hd segs)"
    using assms by (intro linked_telescope [of _ "\<lambda>x. r * x"]) (auto simp: unit_chain_def)
  finally show ?thesis using assms by (simp add: unit_chain_def)
qed


definition ramp_demo :: "unit execution_config" where
  "ramp_demo = RampingVus [\<lparr>stage_duration = ''30s'', stage_target = 7\<rparr>, \<lparr>stage_duration = ''10s'', stage_target = 0\<rparr>] 3 None None ()"


text \<open>A node's share of a VU count or an iteration budget is within one of the exact share
  and never exceeds the whole.\<close>

theorem scale_fair:
  assumes "new_segment fn fd tn td = Inr seg" and "v \<le> u32_max" and "n \<le> u64_max"
  shows "\<bar>of_nat (scale_vus seg v) - of_nat v * fraction seg\<bar> < 1 \<and> scale_vus seg v \<le> v
    \<and> \<bar>of_nat (scale_iterations seg n) - of_nat n * fraction seg\<bar> < 1 \<and> scale_iterations seg n \<le> n"
  using vus.share_fair vus.share_le iterations.share_fair iterations.share_le
    new_segment_ok [OF assms(1)] assms(2,3) by blast

theorem scale_fair_witness:
  "\<bar>of_nat (scale_vus \<lparr>from_num = 1, from_den = 3, to_num = 2, to_den = 3\<rparr> 10)
     - of_nat 10 * fraction \<lparr>from_num = 1, from_den = 3, to_num = 2, to_den = 3\<rparr>\<bar> < 1"
  using scale_fair [of 1 3 2 3 "\<lparr>from_num = 1, from_den = 3, to_num = 2, to_den = 3\<rparr>" 10 0]
  by (simp add: new_segment_def u32_max_def)

text \<open>The per-VU iteration profile is the exception to conservation: both the VU count and
  the iterations of each VU are scaled, so two half segments together run only half of the
  \<open>vus * iterations\<close> that one node runs.\<close>

theorem per_vu_iterations_lose_work:
  assumes "2 * a \<le> u32_max" and "2 * b \<le> u64_max"
  shows "(\<Sum>s\<leftarrow>two_halves. let e = apply_segment s (PerVUIterations (2 * a) (2 * b) md gs tt)
            in pi_vus e * pi_iterations e) = 2 * a * b"
proof -
  have "scale_vus s (2 * a) = a \<and> scale_iterations s (2 * b) = b" if "s \<in> set two_halves" for s
  proof -
    have h: "\<lfloor>of_nat (2 * n) * (1 / 2 :: rat)\<rfloor> = int n" "\<lfloor>of_nat (2 * n) * (1 :: rat)\<rfloor> = int (2 * n)"
      "\<lfloor>of_nat (2 * n) * (0 :: rat)\<rfloor> = 0" for n
      by simp (metis floor_of_nat mult.right_neutral, simp)
    have ok: "seg_ok s" and "seg_from s = 0 \<and> seg_to s = 1 / 2 \<or> seg_from s = 1 / 2 \<and> seg_to s = 1"
      using that by (auto simp: two_halves_def seg_ok_def seg_from_def seg_to_def)
    then have "int (scale_vus s (2 * a)) = int a" "int (scale_iterations s (2 * b)) = int b"
      unfolding vus.share_floor [OF ok assms(1)] iterations.share_floor [OF ok assms(2)]
      by (auto simp only: h)
    then show ?thesis by simp
  qed
  then show ?thesis by (simp add: two_halves_def apply_segment_def)
qed

theorem per_vu_iterations_lose_work_witness:
  "(\<Sum>s\<leftarrow>two_halves. let e = apply_segment s (PerVUIterations (2 * 5) (2 * 5) None None ())
            in pi_vus e * pi_iterations e) = 2 * 5 * 5"
  by (rule per_vu_iterations_lose_work) (simp_all add: u32_max_def u64_max_def)

end
