(* ===== verification/Arrivals.thy ===== *)
theory Arrivals
  imports Striping
begin

text \<open>
  Walking the striped offsets: closed form of the cursor \<^verbatim>\<open>ArrivalStripe\<close>, termination and
  result of \<^verbatim>\<open>due_by\<close>, and the theorems about a whole cluster of nodes.
\<close>

section \<open>Ticks of a cyclic pattern\<close>

text \<open>The ticks \<open>ps\<close> of a cycle of length \<open>L\<close>; \<open>owned L ps j\<close> is the \<open>j\<close>-th tick of the pattern repeated for ever.\<close>

definition cycle_ok :: "int \<Rightarrow> int list \<Rightarrow> bool" where
  "cycle_ok L ps \<longleftrightarrow> ps \<noteq> [] \<and> sorted_wrt (<) ps \<and> (\<forall>t \<in> set ps. 0 \<le> t \<and> t < L)"

definition owned :: "int \<Rightarrow> int list \<Rightarrow> nat \<Rightarrow> int" where
  "owned L ps j = ps ! (j mod length ps) + L * int (j div length ps)"

definition cycle_offsets :: "int \<Rightarrow> int list \<Rightarrow> int list" where
  "cycle_offsets L ps = tl (gaps 0 ps) @ [hd ps + L - last ps]"

lemma gaps_nth: "i < length ts \<Longrightarrow> gaps p ts ! i = ts ! i - (if i = 0 then p else ts ! (i - 1))"
  by (induction p ts arbitrary: i rule: gaps.induct) (auto simp: nth_Cons split: nat.split)

lemma length_cycle_offsets: "ps \<noteq> [] \<Longrightarrow> length (cycle_offsets L ps) = length ps"
  by (simp add: cycle_offsets_def)

lemma cycle_offsets_inner:
  "Suc i < length ps \<Longrightarrow> cycle_offsets L ps ! i = ps ! Suc i - ps ! i"
  by (subgoal_tac "i < length ps - 1") (simp_all add: cycle_offsets_def nth_append nth_tl gaps_nth)

lemma cycle_offsets_wrap:
  "ps \<noteq> [] \<Longrightarrow> cycle_offsets L ps ! (length ps - 1) = ps ! 0 + L - ps ! (length ps - 1)"
  by (simp add: cycle_offsets_def nth_append last_conv_nth hd_conv_nth)

lemma cycle_ok_pos: "cycle_ok L ps \<Longrightarrow> 0 < L"
  by (cases ps) (auto simp: cycle_ok_def)

lemma owned_step:
  assumes "ps \<noteq> []"
  shows "owned L ps (Suc j) = owned L ps j + cycle_offsets L ps ! (j mod length ps)"
proof (cases "Suc (j mod length ps) = length ps")
  case True
  then have "j mod length ps = length ps - 1" "Suc j mod length ps = 0"
    "Suc j div length ps = Suc (j div length ps)"
    using assms by (auto simp: mod_Suc div_Suc)
  then show ?thesis
    using assms cycle_offsets_wrap [OF assms, of L] by (simp add: owned_def algebra_simps)
next
  case False
  moreover have "j mod length ps < length ps" using assms by simp
  ultimately have lt: "Suc (j mod length ps) < length ps" by linarith
  have "cycle_offsets L ps ! (j mod length ps) = ps ! Suc (j mod length ps) - ps ! (j mod length ps)"
    using lt by (rule cycle_offsets_inner)
  with False show ?thesis by (simp add: owned_def mod_Suc div_Suc)
qed

lemma cycle_offset_range:
  assumes "cycle_ok L ps" and "i < length ps"
  shows "0 < cycle_offsets L ps ! i" "cycle_offsets L ps ! i \<le> L"
proof -
  have ps: "sorted_wrt (<) ps" "ps \<noteq> []" and b: "\<And>k. k < length ps \<Longrightarrow> 0 \<le> ps ! k \<and> ps ! k < L"
    using assms by (auto simp: cycle_ok_def)
  show "0 < cycle_offsets L ps ! i" "cycle_offsets L ps ! i \<le> L"
  proof (atomize (full), cases "Suc i < length ps")
    case True
    then have "ps ! i < ps ! Suc i" using ps by (simp add: sorted_wrt_iff_nth_less)
    with True b [of i] b [of "Suc i"]
    show "0 < cycle_offsets L ps ! i \<and> cycle_offsets L ps ! i \<le> L"
      by (simp add: cycle_offsets_inner)
  next
    case False
    with assms have i: "i = length ps - 1" by simp
    have "ps ! 0 \<le> ps ! i" using ps i by (cases "i = 0") (auto simp: sorted_wrt_iff_nth_less less_imp_le)
    with i ps b [of 0] b [of i] cycle_offsets_wrap [OF ps(2), of L]
    show "0 < cycle_offsets L ps ! i \<and> cycle_offsets L ps ! i \<le> L" by simp
  qed
qed

lemma owned_Suc_bounds:
  assumes "cycle_ok L ps"
  shows "owned L ps j < owned L ps (Suc j)" "owned L ps (Suc j) \<le> owned L ps j + L"
proof -
  have ne: "ps \<noteq> []" using assms by (simp add: cycle_ok_def)
  then have "j mod length ps < length ps" by simp
  from cycle_offset_range [OF assms this] owned_step [OF ne, of L j]
  show "owned L ps j < owned L ps (Suc j)" "owned L ps (Suc j) \<le> owned L ps j + L" by simp_all
qed

lemma owned_mono: "cycle_ok L ps \<Longrightarrow> strict_mono (owned L ps)"
  by (simp add: strict_mono_Suc_iff owned_Suc_bounds)

lemma owned_ge: "cycle_ok L ps \<Longrightarrow> int j \<le> owned L ps j"
proof (induction j)
  case 0
  then show ?case by (simp add: owned_def cycle_ok_def)
next
  case (Suc j)
  with owned_Suc_bounds(1) [OF Suc.prems, of j] show ?case by simp
qed

lemma owned_range:
  assumes "cycle_ok L ps"
  shows "range (owned L ps) = {t. 0 \<le> t \<and> t mod L \<in> set ps}"
proof (intro set_eqI iffI)
  fix t assume "t \<in> range (owned L ps)"
  then obtain j where t: "t = owned L ps j" by auto
  have m: "ps ! (j mod length ps) \<in> set ps" using assms by (simp add: cycle_ok_def)
  then have "0 \<le> ps ! (j mod length ps)" "ps ! (j mod length ps) < L" using assms by (auto simp: cycle_ok_def)
  then have "t mod L = ps ! (j mod length ps)" by (simp add: t owned_def)
  with m owned_ge [OF assms, of j] t show "t \<in> {t. 0 \<le> t \<and> t mod L \<in> set ps}" by simp
next
  fix t assume "t \<in> {t. 0 \<le> t \<and> t mod L \<in> set ps}"
  then obtain i where i: "i < length ps" "ps ! i = t mod L" and t: "0 \<le> t" by (auto simp: in_set_conv_nth)
  have L: "0 < L" using assms by (rule cycle_ok_pos)
  let ?j = "nat (t div L) * length ps + i"
  have "length ps \<noteq> 0" using i(1) by linarith
  then have "owned L ps ?j = t mod L + L * (t div L)"
    using i t L by (simp add: owned_def pos_imp_zdiv_nonneg_iff div_mult_self3)
  then have "owned L ps ?j = t" by simp
  then show "t \<in> range (owned L ps)" by (metis rangeI)
qed

text \<open>How many of the first \<open>n\<close> ticks belong to the pattern.\<close>

definition due_count :: "int \<Rightarrow> int list \<Rightarrow> nat \<Rightarrow> nat" where
  "due_count L ps n = card {t. 0 \<le> t \<and> t < int n \<and> t mod L \<in> set ps}"

lemma down_closed_card:
  assumes "finite S" and down: "\<And>j k. k \<in> S \<Longrightarrow> j < k \<Longrightarrow> j \<in> (S :: nat set)"
  shows "S = {..<card S}"
proof -
  let ?m = "LEAST m. m \<notin> S"
  have "\<exists>m. m \<notin> S" using ex_new_if_finite [OF infinite_UNIV_nat assms(1)] .
  then have m: "?m \<notin> S" by (rule LeastI_ex)
  have "S = {..<?m}"
  proof (intro set_eqI iffI)
    fix j assume "j \<in> S"
    then show "j \<in> {..<?m}" using m down [of j ?m] by (cases j ?m rule: linorder_cases) auto
  next
    fix j assume "j \<in> {..<?m}"
    then show "j \<in> S" using not_less_Least [of j "\<lambda>m. m \<notin> S"] by auto
  qed
  then show ?thesis by (metis card_lessThan)
qed

lemma due_count_less_iff:
  assumes "cycle_ok L ps"
  shows "j < due_count L ps n \<longleftrightarrow> owned L ps j < int n"
proof -
  let ?S = "{j. owned L ps j < int n}"
  have "j < n" if "owned L ps j < int n" for j using owned_ge [OF assms, of j] that by linarith
  then have "?S \<subseteq> {..<n}" by auto
  then have fin: "finite ?S" by (rule finite_subset) simp
  have down: "j \<in> ?S" if "k \<in> ?S" "j < k" for j k
    using strict_monoD [OF owned_mono [OF assms] that(2)] that(1) by simp
  have "{t. 0 \<le> t \<and> t < int n \<and> t mod L \<in> set ps} = owned L ps ` ?S"
    using owned_range [OF assms] by auto
  moreover have "inj_on (owned L ps) ?S"
    by (rule strict_mono_imp_inj_on [OF owned_mono [OF assms]])
  ultimately have "due_count L ps n = card ?S" unfolding due_count_def by (metis card_image)
  then have "?S = {..<due_count L ps n}" using down_closed_card [OF fin down] by simp
  then show ?thesis by (simp add: set_eq_iff)
qed

section \<open>The cursor in closed form\<close>

text \<open>The cursor of a node that has released \<open>j\<close> arrivals.\<close>

definition cursor :: "int \<Rightarrow> int list \<Rightarrow> nat \<Rightarrow> arrival_stripe" where
  "cursor L ps j =
     \<lparr>as_index = \<lparr>si_start = hd ps, si_lcd = L, si_offsets = cycle_offsets L ps,
                 si_scaled = int j + 1, si_unscaled = owned L ps j + 1\<rparr>,
      as_next_owned = owned L ps j + 1, as_released = j\<rparr>"

lemma advance_first:
  assumes "cycle_ok L ps" and "L \<le> i64_max"
  shows "from_index \<lparr>si_start = hd ps, si_lcd = L, si_offsets = cycle_offsets L ps,
           si_scaled = 0, si_unscaled = 0\<rparr> = Inr (cursor L ps 0)"
proof -
  have "0 \<le> hd ps" "hd ps < L" "ps ! 0 = hd ps" using assms by (auto simp: cycle_ok_def hd_conv_nth)
  then show ?thesis
    using assms(2)
    by (simp add: from_index_def advance_def cursor_def owned_def Let_def wrap_i64_id in_i64I i64_bounds)
qed

lemma advance_next:
  assumes "cycle_ok L ps" and "owned L ps (Suc j) + 1 \<le> i64_max"
  shows "advance (as_index (cursor L ps j)) =
    Inr (as_index (cursor L ps (Suc j)), int (Suc j) + 1, owned L ps (Suc j) + 1)"
proof -
  have ne: "ps \<noteq> []" using assms by (simp add: cycle_ok_def)
  have "int (j mod length ps) = int j smod int (length ps)"
    using ne by (simp add: rust_int zmod_int)
  then have idx: "nat (int j smod int (length ps)) = j mod length ps" "0 \<le> int j smod int (length ps)"
    by (metis nat_int, metis of_nat_0_le_iff)
  have "int (Suc j) + 1 \<le> i64_max" using owned_ge [OF assms(1), of "Suc j"] assms(2) by linarith
  then have w: "wrap_i64 (2 + int j) = 2 + int j" by (intro wrap_i64_id in_i64I) auto
  have "wrap_i64 (owned L ps (Suc j) + 1) = owned L ps (Suc j) + 1"
    using owned_ge [OF assms(1), of "Suc j"] assms(2) by (intro wrap_i64_id in_i64I) auto
  moreover have "cycle_offsets L ps \<noteq> []" by (simp add: cycle_offsets_def)
  moreover have "owned L ps j + 1 + cycle_offsets L ps ! (j mod length ps) = owned L ps (Suc j) + 1"
    using owned_step [OF ne, of L j] by linarith
  ultimately have "wrap_i64 (owned L ps j + 1 + cycle_offsets L ps ! (j mod length ps)) = owned L ps (Suc j) + 1"
    and "cycle_offsets L ps \<noteq> []" by (simp_all only: not_False_eq_True)
  then show ?thesis
    using ne idx w by (simp add: advance_def cursor_def length_cycle_offsets Let_def)
qed

text \<open>The loop of \<^verbatim>\<open>due_by\<close> ends, with the cursor at the arrivals owed.\<close>

lemma due_by_cursor:
  assumes ok: "cycle_ok L ps" and bound: "int n + L < i64_max"
  shows "due_by (cursor L ps j) n =
    Some (Inr (cursor L ps (max j (due_count L ps n)), max j (due_count L ps n)))"
proof (induction "due_count L ps n - j" arbitrary: j)
  case 0
  then have "\<not> j < due_count L ps n" by simp
  then have "\<not> owned L ps j < int n" using due_count_less_iff [OF ok] by simp
  with 0 show ?case by (subst due_by.simps) (simp add: cursor_def max_absorb1)
next
  case (Suc d)
  then have "j < due_count L ps n" by simp
  then have lt: "owned L ps j < int n" using due_count_less_iff [OF ok] by simp
  then have b: "owned L ps (Suc j) + 1 \<le> i64_max"
    using owned_Suc_bounds(2) [OF ok, of j] bound by linarith
  have j: "int j \<le> owned L ps j" by (rule owned_ge [OF ok])
  with lt bound cycle_ok_pos [OF ok] have "wrap_u64 (j + 1) = j + 1"
    by (intro wrap_u64_id) (simp add: u64_max_def i64_bounds)
  then have "due_by (cursor L ps j) n = due_by (cursor L ps (Suc j)) n"
    using lt j advance_next [OF ok b] by (subst due_by.simps) (simp add: cursor_def)
  also have "\<dots> = Some (Inr (cursor L ps (max (Suc j) (due_count L ps n)), max (Suc j) (due_count L ps n)))"
    using Suc by (intro Suc.hyps) simp
  finally show ?case using \<open>j < due_count L ps n\<close> by simp
qed

section \<open>A cluster of nodes\<close>

lemma set_positions: "set (positions own i) = {int t | t. t < length own \<and> own ! t = i}"
  by (auto simp: positions_def)

lemma positions_cycle: "positions own i \<noteq> [] \<Longrightarrow> cycle_ok (int (length own)) (positions own i)"
  by (auto simp: cycle_ok_def set_positions) (simp add: positions_def sorted_wrt_map sorted_wrt_filter)

lemma stripes_node:
  assumes st: "stripes w segs own" and i: "i < length segs" and b: "w_lcd w \<le> i64_max"
  shows "cycle_ok (w_lcd w) (positions own i)"
    and "arrival_stripe w i = Inr (cursor (w_lcd w) (positions own i) 0)"
proof -
  let ?ps = "positions own i" and ?L = "w_lcd w"
  have ne: "?ps \<noteq> []" and L: "int (length own) = ?L" and len: "length (w_offsets w) = length segs"
    and offs: "w_offsets w ! i = gaps 0 ?ps @ [hd ?ps + ?L - last ?ps]"
    using st i by (auto simp: stripes_def)
  show ok: "cycle_ok ?L ?ps" using positions_cycle [OF ne] L by simp
  have "gaps 0 ?ps = hd ?ps # tl (gaps 0 ?ps)" using ne by (cases ?ps) auto
  then have "w_offsets w ! i = hd ?ps # cycle_offsets ?L ?ps"
    unfolding offs cycle_offsets_def by (metis append_Cons)
  then have "get_striped_offsets w i = Inr (hd ?ps, cycle_offsets ?L ?ps, ?L)"
    using i len by (simp add: get_striped_offsets_def)
  then show "arrival_stripe w i = Inr (cursor ?L ?ps 0)"
    using advance_first [OF ok b] by (simp add: arrival_stripe_def segmented_index_def)
qed

lemma due_count_sum:
  assumes "stripes w segs own"
  shows "(\<Sum>i<length segs. due_count (w_lcd w) (positions own i) n) = n"
proof -
  let ?L = "w_lcd w" and ?A = "\<lambda>i. {t. 0 \<le> t \<and> t < int n \<and> t mod w_lcd w \<in> set (positions own i)}"
  have L: "0 < ?L" "int (length own) = ?L" and lt: "\<forall>i \<in> set own. i < length segs"
    using assms by (auto simp: stripes_def)
  have own: "t mod ?L \<in> set (positions own i) \<longleftrightarrow> own ! nat (t mod ?L) = i" for t i
    using L pos_mod_bound [OF L(1), of t] pos_mod_sign [OF L(1), of t]
    by (auto simp: set_positions intro!: exI [of _ "nat (t mod ?L)"])
  have "(\<Sum>i<length segs. card (?A i)) = card (\<Union>i<length segs. ?A i)"
    by (rule card_UN_disjoint [symmetric]) (auto simp: own intro: finite_subset [of _ "{0..<int n}"])
  also have "(\<Union>i<length segs. ?A i) = {0..<int n}"
  proof -
    have "own ! nat (t mod ?L) \<in> set own" for t
      using L pos_mod_bound [OF L(1), of t] pos_mod_sign [OF L(1), of t] by (intro nth_mem) linarith
    with lt show ?thesis by (auto simp: own)
  qed
  finally show ?thesis by (simp add: due_count_def)
qed

text \<open>C1. Striped offsets partition the global arrivals. For every full sequence string (its
  first boundary is 0, its last 1) whose common denominator squared fits \<^verbatim>\<open>i64\<close>, building the
  wrapper succeeds, every node gets its stripe, \<^verbatim>\<open>due_by(n)\<close> returns on every node, and the
  arrivals the nodes owe add up to exactly \<open>n\<close>: nothing is fired twice and nothing is lost.\<close>

theorem arrivals_partition:
  assumes "parse_segment_sequence sequence = Inr segs"
    and "from_num (hd segs) = 0" and "to_num (last segs) = to_den (last segs)"
    and "common_den segs * common_den segs \<le> i64_max"
    and "int n + common_den segs < i64_max"
  shows "\<exists>w dues. wrapper_new segs = Inr w \<and> length dues = length segs
    \<and> (\<forall>i < length segs. \<exists>st st'. arrival_stripe w i = Inr st \<and> due_by st n = Some (Inr (st', dues ! i)))
    \<and> sum_list dues = n"
proof -
  obtain w own where w: "wrapper_new segs = Inr w" and st: "stripes w segs own"
    and le: "w_lcd w \<le> common_den segs"
    using wrapper_new_stripes [OF full_sequence_chain [OF assms(1-3)] assms(4,2,3)] by blast
  let ?dues = "map (\<lambda>i. due_count (w_lcd w) (positions own i) n) [0..<length segs]"
  have "\<exists>st st'. arrival_stripe w i = Inr st \<and> due_by st n = Some (Inr (st', ?dues ! i))"
    if i: "i < length segs" for i
    using stripes_node [OF st i] due_by_cursor [of "w_lcd w" "positions own i" n 0] le assms(5) i by simp
  moreover have "sum_list ?dues = n"
    using due_count_sum [OF st, of n] by (simp add: interv_sum_list_conv_sum_set_nat atLeast0LessThan)
  ultimately show ?thesis using w by (intro exI [of _ w] exI [of _ ?dues]) simp
qed

lemma two_halves_full:
  "from_num (hd two_halves) = 0" "to_num (last two_halves) = to_den (last two_halves)"
  "common_den two_halves * common_den two_halves \<le> i64_max" "int 1001 + common_den two_halves < i64_max"
  by (simp_all add: two_halves_def common_den_def i64_bounds)

theorem arrivals_partition_witness:
  "\<exists>w dues. wrapper_new two_halves = Inr w \<and> length dues = length two_halves
    \<and> (\<forall>i < length two_halves. \<exists>st st'. arrival_stripe w i = Inr st \<and> due_by st 1001 = Some (Inr (st', dues ! i)))
    \<and> sum_list dues = 1001"
  by (rule arrivals_partition [OF parse_two_halves two_halves_full])

lemma due_count_fair:
  assumes ok: "cycle_ok L ps" and even: "\<And>r. r < length ps \<Longrightarrow> int r * L \<le> ps ! r * int (length ps)"
  shows "int (due_count L ps n) * L < int n * int (length ps) + L"
proof (cases "due_count L ps n")
  case 0
  then show ?thesis using cycle_ok_pos [OF ok] by (simp add: add_nonneg_pos)
next
  case (Suc c)
  let ?d = "length ps"
  have d: "0 < ?d" using ok by (simp add: cycle_ok_def)
  have lt: "owned L ps c < int n" using due_count_less_iff [OF ok, of c n] Suc by simp
  have "int c * L = int (c mod ?d) * L + L * int (c div ?d) * int ?d"
    by (metis (no_types, opaque_lifting) add.commute distrib_right mod_div_mult_eq mult.assoc mult.commute
        of_nat_add of_nat_mult)
  also have "\<dots> \<le> ps ! (c mod ?d) * int ?d + L * int (c div ?d) * int ?d"
    using even [of "c mod ?d"] d by simp
  also have "\<dots> = owned L ps c * int ?d" by (simp add: owned_def distrib_right)
  also have "\<dots> < int n * int ?d" using lt d by simp
  finally show ?thesis using Suc by (simp add: distrib_right)
qed

text \<open>Striping does not bunch. On every node of a full sequence the arrivals owed after
  \<open>n\<close> global arrivals stay below the node's exact share \<open>n * fraction\<close> plus one: no node is
  ever a whole arrival ahead of the global schedule.\<close>

theorem arrivals_not_ahead:
  assumes "parse_segment_sequence sequence = Inr segs" and "wrapper_new segs = Inr w"
    and "common_den segs * common_den segs \<le> i64_max"
    and "int n + common_den segs < i64_max" and "i < length segs"
    and "arrival_stripe w i = Inr st" and "due_by st n = Some (Inr (st', due))"
  shows "of_nat due < of_nat n * fraction (segs ! i) + 1"
proof -
  have full: "from_num (hd segs) = 0" "to_num (last segs) = to_den (last segs)"
    using assms(2) by (auto simp: wrapper_new_def split: if_splits)
  obtain own where st: "stripes w segs own" and le: "w_lcd w \<le> common_den segs"
    using wrapper_new_stripes [OF full_sequence_chain [OF assms(1) full] assms(3) full] assms(2) by auto
  let ?ps = "positions own i" and ?L = "w_lcd w"
  have b: "?L \<le> i64_max" "int n + ?L < i64_max" using le assms(4) by linarith+
  note node = stripes_node [OF st assms(5) b(1)]
  have due: "due = due_count ?L ?ps n" using assms(6,7) node(2) due_by_cursor [OF node(1) b(2), of 0] by simp
  have even: "\<And>r. r < length ?ps \<Longrightarrow> int r * ?L \<le> ?ps ! r * int (length ?ps)"
    and share: "of_nat (length ?ps) = of_int ?L * fraction (segs ! i)" and L: "0 < ?L"
    using st assms(5) by (auto simp: stripes_def)
  have "(of_nat due * of_int ?L :: rat) < of_nat n * of_nat (length ?ps) + of_int ?L"
    using due_count_fair [OF node(1) even, of n] unfolding due
    by (metis (no_types, lifting) of_int_add of_int_less_iff of_int_mult of_int_of_nat_eq)
  also have "\<dots> = (of_nat n * fraction (segs ! i) + 1) * of_int ?L" unfolding share by (simp add: algebra_simps)
  finally show ?thesis using L by simp
qed

lemma wrapper_two_halves:
  "wrapper_new two_halves = Inr \<lparr>w_lcd = 2, w_offsets = [[0, 2], [1, 2]]\<rparr>"
  by code_simp

theorem arrivals_not_ahead_witness:
  "\<exists>st st'. arrival_stripe \<lparr>w_lcd = 2, w_offsets = [[0, 2], [1, 2]]\<rparr> 1 = Inr st
     \<and> due_by st 1001 = Some (Inr (st', 500))
     \<and> (of_nat 500 :: rat) < of_nat 1001 * fraction (two_halves ! 1) + 1"
proof -
  let ?st = "cursor 2 [1] 0"
  have st: "arrival_stripe \<lparr>w_lcd = 2, w_offsets = [[0, 2], [1, 2]]\<rparr> 1 = Inr ?st" by code_simp
  have ok: "cycle_ok 2 [1]" by (simp add: cycle_ok_def)
  have "\<not> 500 < due_count 2 [1] 1001" "499 < due_count 2 [1] 1001"
    unfolding due_count_less_iff [OF ok] by (simp_all add: owned_def)
  then have "due_count 2 [1] 1001 = 500" by linarith
  then have "due_by ?st 1001 = Some (Inr (cursor 2 [1] 500, 500))"
    using due_by_cursor [OF ok, of 1001 0] by (simp add: i64_bounds)
  with st arrivals_not_ahead [OF parse_two_halves wrapper_two_halves two_halves_full(3,4) _ st]
  show ?thesis by (auto simp: two_halves_def)
qed

section \<open>The contract of an arrival cursor\<close>

text \<open>
  What the arrival-rate executors rely on: polling returns, the released count is what is
  returned, never falls, and an intermediate poll does not change a later answer.
\<close>

locale arrival_cursor =
  fixes due :: "'c \<Rightarrow> nat \<Rightarrow> (seg_error + 'c \<times> nat) option"
    and released :: "'c \<Rightarrow> nat"
    and valid :: "nat \<Rightarrow> 'c \<Rightarrow> bool"
  assumes due_returns: "valid cap c \<Longrightarrow> n \<le> cap \<Longrightarrow>
      \<exists>c'. due c n = Some (Inr (c', released c')) \<and> valid cap c' \<and> released c \<le> released c'"
    and released_le: "valid cap c \<Longrightarrow> released c \<le> cap"
    and due_again: "valid cap c \<Longrightarrow> n \<le> m \<Longrightarrow> m \<le> cap \<Longrightarrow>
      due c n = Some (Inr (c', k)) \<Longrightarrow> due c' m = due c m"
begin

lemma due_mono:
  assumes "valid cap c" and "n \<le> m" "m \<le> cap"
    and "due c n = Some (Inr (c1, k1))" and "due c m = Some (Inr (c2, k2))"
  shows "k1 \<le> k2"
proof -
  obtain c' where "due c n = Some (Inr (c', released c'))" "valid cap c'"
    using due_returns [OF assms(1)] assms(2,3) by (meson order_trans)
  with assms(4) have c1: "valid cap c1" "k1 = released c1" by auto
  have "due c1 m = Some (Inr (c2, k2))" using due_again [OF assms(1-4)] assms(5) by simp
  moreover obtain c3 where "due c1 m = Some (Inr (c3, released c3))" "released c1 \<le> released c3"
    using due_returns [OF c1(1) assms(3)] by blast
  ultimately show ?thesis using c1(2) by auto
qed

end

definition stripe_valid :: "nat \<Rightarrow> arrival_stripe \<Rightarrow> bool" where
  "stripe_valid cap st \<longleftrightarrow> (\<exists>L ps j. st = cursor L ps j \<and> cycle_ok L ps \<and> j \<le> cap \<and> int cap + L < i64_max)"

lemma due_count_le: "cycle_ok L ps \<Longrightarrow> due_count L ps n \<le> n"
  using due_count_less_iff [of L ps n n] owned_ge [of L ps n] by (simp add: not_less [symmetric])

lemma due_count_mono: "n \<le> m \<Longrightarrow> due_count L ps n \<le> due_count L ps m"
  unfolding due_count_def
  by (intro card_mono) (auto intro: finite_subset [of _ "{0..<int m}"])

interpretation stripe: arrival_cursor due_by as_released stripe_valid
proof
  fix cap c n
  assume "stripe_valid cap c" "n \<le> cap"
  then obtain L ps j where c: "c = cursor L ps j" and ok: "cycle_ok L ps" "int cap + L < i64_max" "int n + L < i64_max"
    and j: "j \<le> cap" by (auto simp: stripe_valid_def)
  have "max j (due_count L ps n) \<le> cap" using due_count_le [OF ok(1), of n] j \<open>n \<le> cap\<close> by simp
  then show "\<exists>c'. due_by c n = Some (Inr (c', as_released c')) \<and> stripe_valid cap c' \<and> as_released c \<le> as_released c'"
    using due_by_cursor [OF ok(1,3), of j] ok unfolding c
    by (auto simp: stripe_valid_def) (auto simp: cursor_def)
next
  fix cap c
  assume "stripe_valid cap c"
  then show "as_released c \<le> cap" by (auto simp: stripe_valid_def cursor_def)
next
  fix cap c n m c' k
  assume "stripe_valid cap c" "n \<le> m" "m \<le> cap" and due: "due_by c n = Some (Inr (c', k))"
  then obtain L ps j where c: "c = cursor L ps j" and ok: "cycle_ok L ps" "int n + L < i64_max" "int m + L < i64_max"
    by (auto simp: stripe_valid_def)
  from due have "c' = cursor L ps (max j (due_count L ps n))"
    using due_by_cursor [OF ok(1,2), of j] c by auto
  with due_count_mono [OF \<open>n \<le> m\<close>, of L ps] show "due_by c' m = due_by c m"
    unfolding c by (simp add: due_by_cursor [OF ok(1,3)] max.assoc max_absorb2)
qed

lemma stripe_full_cursor: "stripe_full = Inr (cursor 1 [0] 0)"
  by code_simp

text \<open>The identity stripe leaves the schedule of a single node unchanged: \<^verbatim>\<open>due_by(n) == n\<close>.\<close>

theorem stripe_full_identity:
  assumes "int n + 1 < i64_max"
  shows "\<exists>st st'. stripe_full = Inr st \<and> due_by st n = Some (Inr (st', n))"
proof -
  have "due_count 1 [0] n = card {0..<int n}" unfolding due_count_def by (rule arg_cong [of _ _ card]) auto
  then show ?thesis
    using due_by_cursor [of 1 "[0]" n 0] assms by (auto simp: stripe_full_cursor cycle_ok_def)
qed

theorem stripe_full_identity_witness:
  "\<exists>st st'. stripe_full = Inr st \<and> due_by st 1000000 = Some (Inr (st', 1000000))"
  by (rule stripe_full_identity) (simp add: i64_bounds)

end
