(* ===== verification/Sched_State.thy ===== *)
theory Sched_State
  imports Arrivals
begin

text \<open>
  The shared state of the VU scheduler and its operations,
  \<^verbatim>\<open>crates/tropel-scheduler/src/scheduler.rs\<close> (\<^verbatim>\<open>VUScheduler\<close>, \<^verbatim>\<open>VuLease\<close>, the RAII guards).

  Every atomic of the struct is a field; an operation is a function on the record, and a
  \<^verbatim>\<open>fetch_update\<close> or \<^verbatim>\<open>compare_exchange\<close> is one step. Counters are natural numbers kept
  modulo their width. The \<^verbatim>\<open>Notify\<close> handles only wake sleepers that re-check these fields,
  so they have no field of their own.
\<close>

section \<open>State\<close>

record 't sched =
  config :: "'t execution_config"
  active_vus :: nat
  total_iterations :: nat
  claimed_iterations :: nat
  stop_requested :: bool
  force_stop_requested :: bool
  arrival_tokens :: nat
  arrival_dropped :: nat
  idle_vus :: nat
  ramp_down_target :: nat
  ramp_down_remaining :: nat
  control_target_vus :: nat
  control_max_vus :: nat
  control_hard_max :: nat
  control_spawned :: nat
  control_paused :: bool
  control_tainted :: bool
  last_reap :: nat
  sched_stripe :: arrival_stripe

definition full_stripe :: arrival_stripe where
  "full_stripe = \<lparr>as_index = \<lparr>si_start = 0, si_lcd = 1, si_offsets = [1], si_scaled = 1, si_unscaled = 1\<rparr>,
                  as_next_owned = 1, as_released = 0\<rparr>"

definition new_sched :: "'t execution_config \<Rightarrow> nat \<Rightarrow> 't sched" where
  "new_sched cfg now =
     \<lparr>config = cfg, active_vus = 0, total_iterations = 0, claimed_iterations = 0,
      stop_requested = False, force_stop_requested = False, arrival_tokens = 0, arrival_dropped = 0,
      idle_vus = 0, ramp_down_target = u32_max, ramp_down_remaining = 0, control_target_vus = 0,
      control_max_vus = 0, control_hard_max = u32_max, control_spawned = 0, control_paused = False,
      control_tainted = False, last_reap = now, sched_stripe = full_stripe\<rparr>"

definition with_arrival_stripe :: "arrival_stripe \<Rightarrow> 't sched \<Rightarrow> 't sched" where
  "with_arrival_stripe st s = s\<lparr>sched_stripe := st\<rparr>"

section \<open>Operations\<close>

definition lease_acquire :: "'t sched \<Rightarrow> 't sched" where
  "lease_acquire s = s\<lparr>active_vus := wrap_u32 (active_vus s + 1)\<rparr>"

definition lease_drop :: "'t sched \<Rightarrow> 't sched" where
  "lease_drop s = s\<lparr>active_vus := active_vus s - 1\<rparr>"

definition request_stop :: "'t sched \<Rightarrow> 't sched" where
  "request_stop s = s\<lparr>stop_requested := True\<rparr>"

definition request_force_stop :: "'t sched \<Rightarrow> 't sched" where
  "request_force_stop s = s\<lparr>force_stop_requested := True, stop_requested := True\<rparr>"

definition set_ramp_down_target :: "nat \<Rightarrow> nat \<Rightarrow> 't sched \<Rightarrow> 't sched" where
  "set_ramp_down_target target current_vus s =
     s\<lparr>ramp_down_target := target, ramp_down_remaining := current_vus - target\<rparr>"

definition arm_ramp_down_step :: "nat \<Rightarrow> 't sched \<Rightarrow> 't sched" where
  "arm_ramp_down_step target s =
     s\<lparr>ramp_down_target := target, ramp_down_remaining := wrap_u32 (ramp_down_remaining s + 1)\<rparr>"

definition clear_ramp_down :: "'t sched \<Rightarrow> 't sched" where
  "clear_ramp_down s = s\<lparr>ramp_down_target := u32_max, ramp_down_remaining := 0\<rparr>"

definition vu_exited :: "'t sched \<Rightarrow> 't sched" where
  "vu_exited s = s\<lparr>control_spawned := control_spawned s - 1\<rparr>"

text \<open>
  \<^verbatim>\<open>try_claim_ramp_down\<close> is three atomic accesses: the test of the target, the update of the
  surplus counter, and the update of the pool size.
\<close>

definition claim_wanted :: "nat \<Rightarrow> 't sched \<Rightarrow> bool" where
  "claim_wanted my_active s \<longleftrightarrow> ramp_down_target s \<noteq> u32_max \<and> \<not> my_active \<le> ramp_down_target s"

definition claim_slot :: "'t sched \<Rightarrow> 't sched \<times> bool" where
  "claim_slot s =
     (if ramp_down_remaining s > 0 then (s\<lparr>ramp_down_remaining := ramp_down_remaining s - 1\<rparr>, True)
      else (s, False))"

definition try_claim_ramp_down :: "nat \<Rightarrow> 't sched \<Rightarrow> 't sched \<times> bool" where
  "try_claim_ramp_down my_active s =
     (if \<not> claim_wanted my_active s then (s, False)
      else (case claim_slot s of
              (s', True) \<Rightarrow> (s'\<lparr>control_spawned := control_spawned s' - 1\<rparr>, True)
            | (s', False) \<Rightarrow> (s', False)))"

definition acquire_cas :: "nat \<Rightarrow> 't sched \<Rightarrow> 't sched \<times> bool" where
  "acquire_cas current s =
     (if arrival_tokens s = current then (s\<lparr>arrival_tokens := current - 1\<rparr>, True) else (s, False))"

definition try_acquire_arrival_token :: "'t sched \<Rightarrow> 't sched \<times> bool" where
  "try_acquire_arrival_token s =
     (let current = arrival_tokens s in if current > 0 then acquire_cas current s else (s, False))"

definition is_arrival_rate :: "'t sched \<Rightarrow> bool" where
  "is_arrival_rate s =
     (case config s of ConstantArrivalRate _ _ _ _ _ _ _ \<Rightarrow> True
      | RampingArrivalRate _ _ _ _ _ _ _ \<Rightarrow> True | _ \<Rightarrow> False)"

definition mark_idle :: "'t sched \<Rightarrow> 't sched" where
  "mark_idle s = s\<lparr>idle_vus := wrap_u32 (idle_vus s + 1)\<rparr>"

definition mark_busy :: "'t sched \<Rightarrow> 't sched" where
  "mark_busy s = s\<lparr>idle_vus := idle_vus s - 1\<rparr>"

definition set_control_target :: "nat \<Rightarrow> nat \<Rightarrow> 't sched \<Rightarrow> 't sched" where
  "set_control_target vus max_vus s =
     (let hard = control_hard_max s; mx = min max_vus hard
      in s\<lparr>control_max_vus := mx, control_target_vus := min vus mx\<rparr>)"

definition set_paused :: "bool \<Rightarrow> 't sched \<Rightarrow> 't sched" where
  "set_paused paused s = s\<lparr>control_paused := paused\<rparr>"

definition set_tainted :: "'t sched \<Rightarrow> 't sched" where
  "set_tainted s = s\<lparr>control_tainted := True\<rparr>"

definition take_dropped_iterations :: "'t sched \<Rightarrow> 't sched \<times> nat" where
  "take_dropped_iterations s = (s\<lparr>arrival_dropped := 0\<rparr>, arrival_dropped s)"

fun config_peak :: "'t execution_config \<Rightarrow> nat" where
  "config_peak (ConstantVus vus duration gs tt) = vus"
| "config_peak (RampingVus stages start_vus grd gs tt) =
     foldl (\<lambda>acc s. max acc (stage_target s)) start_vus stages"
| "config_peak (SharedIterations iters md vus gs tt) = vus"
| "config_peak (ConstantArrivalRate rate tu duration pre mx gs tt) = mx"
| "config_peak (PerVUIterations vus iters md gs tt) = vus"
| "config_peak (RampingArrivalRate start stages tu pre mx gs tt) = mx"
| "config_peak (ExternallyControlled vus mx duration gs tt) = mx"

definition peak_vus :: "'t sched \<Rightarrow> nat" where
  "peak_vus s = config_peak (config s)"

definition increment_iterations :: "'t sched \<Rightarrow> 't sched" where
  "increment_iterations s = s\<lparr>total_iterations := wrap_u64 (total_iterations s + 1)\<rparr>"

definition try_claim_shared_iteration :: "nat \<Rightarrow> 't sched \<Rightarrow> 't sched \<times> bool" where
  "try_claim_shared_iteration budget s =
     (if claimed_iterations s \<ge> budget then (s, False)
      else (s\<lparr>claimed_iterations := wrap_u64 (claimed_iterations s + 1)\<rparr>, True))"

definition stopping :: "'t sched \<Rightarrow> bool" where
  "stopping s \<longleftrightarrow> stop_requested s \<or> force_stop_requested s"

lemma full_stripe_eq: "stripe_full = Inr full_stripe"
  by code_simp

lemmas sched_ops = lease_acquire_def lease_drop_def request_stop_def request_force_stop_def
  set_ramp_down_target_def arm_ramp_down_step_def clear_ramp_down_def vu_exited_def claim_slot_def
  acquire_cas_def mark_idle_def mark_busy_def set_control_target_def set_paused_def set_tainted_def
  increment_iterations_def try_claim_shared_iteration_def

section \<open>Driver operations\<close>

text \<open>
  What the executors, the control API, the threshold coordinator, the signal handler and the
  samplers do to the shared state; one constructor per atomic store or update.
\<close>

datatype driver_op =
    OpStop | OpForceStop | OpSetRampDown nat nat | OpArm nat | OpClear
  | OpControlTarget nat nat | OpPause bool | OpTaint | OpTakeDropped
  | OpAddTokens nat | OpDrop nat | OpSeedControl nat nat | OpStoreSpawned nat | OpAddSpawned nat
  | OpReapStamp nat

fun do_op :: "driver_op \<Rightarrow> 't sched \<Rightarrow> 't sched" where
  "do_op OpStop s = request_stop s"
| "do_op OpForceStop s = request_force_stop s"
| "do_op (OpSetRampDown t c) s = set_ramp_down_target t c s"
| "do_op (OpArm t) s = arm_ramp_down_step t s"
| "do_op OpClear s = clear_ramp_down s"
| "do_op (OpControlTarget v m) s = set_control_target v m s"
| "do_op (OpPause b) s = set_paused b s"
| "do_op OpTaint s = set_tainted s"
| "do_op OpTakeDropped s = fst (take_dropped_iterations s)"
| "do_op (OpAddTokens n) s = s\<lparr>arrival_tokens := wrap_u64 (arrival_tokens s + n)\<rparr>"
| "do_op (OpDrop n) s = s\<lparr>arrival_dropped := wrap_u64 (arrival_dropped s + n)\<rparr>"
| "do_op (OpSeedControl vus mx) s =
     s\<lparr>control_hard_max := mx, control_max_vus := mx, control_target_vus := min vus mx\<rparr>"
| "do_op (OpStoreSpawned n) s = s\<lparr>control_spawned := n\<rparr>"
| "do_op (OpAddSpawned n) s = s\<lparr>control_spawned := wrap_u32 (control_spawned s + n)\<rparr>"
| "do_op (OpReapStamp t) s = s\<lparr>last_reap := t\<rparr>"

text \<open>Stop flags and the taint flag are sticky under every operation.\<close>

lemma do_op_sticky:
  "stop_requested s \<Longrightarrow> stop_requested (do_op p s)"
  "force_stop_requested s \<Longrightarrow> force_stop_requested (do_op p s)"
  "control_tainted s \<Longrightarrow> control_tainted (do_op p s)"
  by (cases p; simp add: sched_ops take_dropped_iterations_def Let_def)+

end
