(* ===== verification/Vu_Loop.thy ===== *)
theory Vu_Loop
  imports Sched_State
begin

text \<open>
  The per-VU iteration loop, \<^verbatim>\<open>crates/tropel-engine/src/vu_loop.rs\<close> (\<^verbatim>\<open>run_vu_loop\<close>), as a small-step
  machine, and a system of any number of such VUs interleaved with the driver operations of
  the executors. One step is one atomic access to the shared state; sleeps and wake-ups are
  steps that leave the state alone. The body of an iteration is outside the model: its only
  effects on the loop are that it ends, may ask for an abort, or unwinds.
\<close>

section \<open>One VU\<close>

datatype vu_pc =
    PStart | PTop | PReadActive | PClaim nat | PClaimSlot | PClaimed | PGate | PGate2 | PShared
  | PArrival | PWait | PCas nat | PRun | PPace | PExit | PLease | PGone

record vu =
  vu_ident :: nat
  pc :: vu_pc
  iteration_index :: nat
  guard_claimed :: bool

record run_shared =
  rs_total_iterations :: nat
  is_per_vu_iterations :: bool

definition new_vu :: "nat \<Rightarrow> vu" where
  "new_vu i = \<lparr>vu_ident = i, pc = PStart, iteration_index = 0, guard_claimed = False\<rparr>"

definition shared_budget :: "run_shared \<Rightarrow> bool" where
  "shared_budget sh \<longleftrightarrow> \<not> is_per_vu_iterations sh \<and> rs_total_iterations sh \<noteq> u64_max"

definition per_vu_done :: "run_shared \<Rightarrow> nat \<Rightarrow> bool" where
  "per_vu_done sh i \<longleftrightarrow> rs_total_iterations sh \<noteq> u64_max \<and> is_per_vu_iterations sh \<and> i \<ge> rs_total_iterations sh"

definition vu_step :: "run_shared \<Rightarrow> bool \<Rightarrow> 't sched \<Rightarrow> vu \<Rightarrow> 't sched \<times> vu" where
  "vu_step sh abort s v =
     (case pc v of
        PStart \<Rightarrow> (lease_acquire s, v\<lparr>pc := PTop\<rparr>)
      | PTop \<Rightarrow> (s, v\<lparr>pc := (if stopping s then PExit else PReadActive)\<rparr>)
      | PReadActive \<Rightarrow> (s, v\<lparr>pc := PClaim (active_vus s)\<rparr>)
      | PClaim a \<Rightarrow> (s, v\<lparr>pc := (if claim_wanted a s then PClaimSlot else PGate)\<rparr>)
      | PClaimSlot \<Rightarrow>
          (let (s', ok) = claim_slot s in (s', v\<lparr>pc := (if ok then PClaimed else PGate)\<rparr>))
      | PClaimed \<Rightarrow> (vu_exited s, v\<lparr>pc := PExit, guard_claimed := True\<rparr>)
      | PGate \<Rightarrow> (s, v\<lparr>pc := (if control_paused s \<and> \<not> stopping s then PGate else PGate2)\<rparr>)
      | PGate2 \<Rightarrow> (s, v\<lparr>pc := (if stopping s then PExit else PShared)\<rparr>)
      | PShared \<Rightarrow>
          (if shared_budget sh then
             (let (s', ok) = try_claim_shared_iteration (rs_total_iterations sh) s
              in (s', v\<lparr>pc := (if ok then PArrival else PExit)\<rparr>))
           else (s, v\<lparr>pc := PArrival\<rparr>))
      | PArrival \<Rightarrow> (if is_arrival_rate s then (mark_idle s, v\<lparr>pc := PWait\<rparr>) else (s, v\<lparr>pc := PRun\<rparr>))
      | PWait \<Rightarrow>
          (if stopping s then (mark_busy s, v\<lparr>pc := PExit\<rparr>)
           else if arrival_tokens s > 0 then (s, v\<lparr>pc := PCas (arrival_tokens s)\<rparr>)
           else (s, v))
      | PCas cur \<Rightarrow>
          (let (s', ok) = acquire_cas cur s
           in if ok then (mark_busy s', v\<lparr>pc := PRun\<rparr>) else (s', v\<lparr>pc := PWait\<rparr>))
      | PRun \<Rightarrow>
          (increment_iterations (if abort then request_stop s else s),
           v\<lparr>pc := PPace, iteration_index := wrap_u64 (iteration_index v + 1)\<rparr>)
      | PPace \<Rightarrow> (s, v\<lparr>pc := (if per_vu_done sh (iteration_index v) then PExit else PTop)\<rparr>)
      | PExit \<Rightarrow> (if guard_claimed v then s else vu_exited s, v\<lparr>pc := PLease\<rparr>)
      | PLease \<Rightarrow> (lease_drop s, v\<lparr>pc := PGone\<rparr>)
      | PGone \<Rightarrow> (s, v))"

text \<open>
  A panic inside the iteration, or an abort at a suspension point: the guards held there run.
\<close>

definition vu_unwind :: "'t sched \<Rightarrow> vu \<Rightarrow> ('t sched \<times> vu) option" where
  "vu_unwind s v =
     (if pc v = PWait then Some (mark_busy s, v\<lparr>pc := PExit\<rparr>)
      else if pc v \<in> {PGate, PRun, PPace} then Some (s, v\<lparr>pc := PExit\<rparr>)
      else None)"

text \<open>A VU whose driver cannot be initialised: it takes its lease, reports its exit and leaves.\<close>

definition vu_init_fail :: "'t sched \<Rightarrow> vu \<Rightarrow> ('t sched \<times> vu) option" where
  "vu_init_fail s v = (if pc v = PStart then Some (lease_acquire s, v\<lparr>pc := PExit\<rparr>) else None)"

section \<open>The system\<close>

record 't system =
  shared_state :: "'t sched"
  vu_tasks :: "vu list"
  next_vu_id :: nat

datatype event = EVu nat bool | EUnwind nat | EInitFail nat | ESpawn | EOp driver_op

definition put_vu :: "'t system \<Rightarrow> nat \<Rightarrow> 't sched \<times> vu \<Rightarrow> 't system" where
  "put_vu y i r = y\<lparr>shared_state := fst r, vu_tasks := (vu_tasks y)[i := snd r]\<rparr>"

definition alloc_vu_id :: "'t system \<Rightarrow> 't system \<times> nat" where
  "alloc_vu_id y = (y\<lparr>next_vu_id := wrap_u32 (next_vu_id y + 1)\<rparr>, next_vu_id y)"

definition spawn_vu :: "'t system \<Rightarrow> 't system" where
  "spawn_vu y = (let (y', i) = alloc_vu_id y in y'\<lparr>vu_tasks := vu_tasks y' @ [new_vu i]\<rparr>)"

fun exec_event :: "run_shared \<Rightarrow> event \<Rightarrow> 't system \<Rightarrow> 't system option" where
  "exec_event sh (EVu i abort) y =
     (if i < length (vu_tasks y) then Some (put_vu y i (vu_step sh abort (shared_state y) (vu_tasks y ! i)))
      else None)"
| "exec_event sh (EUnwind i) y =
     (if i < length (vu_tasks y)
      then map_option (put_vu y i) (vu_unwind (shared_state y) (vu_tasks y ! i)) else None)"
| "exec_event sh (EInitFail i) y =
     (if i < length (vu_tasks y)
      then map_option (put_vu y i) (vu_init_fail (shared_state y) (vu_tasks y ! i)) else None)"
| "exec_event sh ESpawn y = Some (spawn_vu y)"
| "exec_event sh (EOp p) y = Some (y\<lparr>shared_state := do_op p (shared_state y)\<rparr>)"

fun run_events :: "run_shared \<Rightarrow> event list \<Rightarrow> 't system \<Rightarrow> 't system option" where
  "run_events sh [] y = Some y"
| "run_events sh (e # es) y = (case exec_event sh e y of None \<Rightarrow> None | Some y' \<Rightarrow> run_events sh es y')"

definition init_system :: "'t execution_config \<Rightarrow> nat \<Rightarrow> 't system" where
  "init_system cfg now = \<lparr>shared_state = new_sched cfg now, vu_tasks = [], next_vu_id = 0\<rparr>"

text \<open>States reachable by events that satisfy \<open>ok\<close>.\<close>

inductive reach :: "(event \<Rightarrow> bool) \<Rightarrow> run_shared \<Rightarrow> 't system \<Rightarrow> 't system \<Rightarrow> bool"
  for ok sh y0 where
  reach_refl: "reach ok sh y0 y0"
| reach_step: "reach ok sh y0 y \<Longrightarrow> ok e \<Longrightarrow> exec_event sh e y = Some y' \<Longrightarrow> reach ok sh y0 y'"

lemma run_events_reach:
  "run_events sh es y = Some y' \<Longrightarrow> reach ok sh y0 y \<Longrightarrow> (\<forall>e \<in> set es. ok e) \<Longrightarrow> reach ok sh y0 y'"
  by (induction es arbitrary: y) (auto split: option.splits intro: reach_step)

text \<open>An invariant of every event is an invariant of every reachable state.\<close>

lemma reach_invariant:
  assumes "reach ok sh y0 y" and "P y0"
    and "\<And>e x x'. P x \<Longrightarrow> ok e \<Longrightarrow> exec_event sh e x = Some x' \<Longrightarrow> P x'"
  shows "P y"
  using assms by (induction rule: reach.induct) blast+

section \<open>Counting tasks\<close>

definition cnt :: "(vu \<Rightarrow> bool) \<Rightarrow> 't system \<Rightarrow> nat" where
  "cnt P y = length (filter P (vu_tasks y))"

lemma length_filter_update:
  "i < length xs \<Longrightarrow> length (filter P (xs[i := v])) + of_bool (P (xs ! i)) = length (filter P xs) + of_bool (P v)"
proof (induction xs arbitrary: i)
  case (Cons x xs)
  then show ?case by (cases i) auto
qed simp

lemma cnt_put:
  "i < length (vu_tasks y) \<Longrightarrow>
     cnt P (put_vu y i r) + of_bool (P (vu_tasks y ! i)) = cnt P y + of_bool (P (snd r))"
  by (simp add: cnt_def put_vu_def length_filter_update)

lemma cnt_spawn: "cnt P (spawn_vu y) = cnt P y + of_bool (P (new_vu (next_vu_id y)))"
  by (simp add: cnt_def spawn_vu_def alloc_vu_id_def)

lemma cnt_op [simp]: "cnt P (y\<lparr>shared_state := s\<rparr>) = cnt P y"
  by (simp add: cnt_def)

lemma cnt_pos: "i < length (vu_tasks y) \<Longrightarrow> P (vu_tasks y ! i) \<Longrightarrow> 0 < cnt P y"
  by (auto simp: cnt_def filter_empty_conv intro: nth_mem)

lemma cnt_le: "cnt P y \<le> length (vu_tasks y)"
  by (simp add: cnt_def)

lemma length_put [simp]: "length (vu_tasks (put_vu y i r)) = length (vu_tasks y)"
  by (simp add: put_vu_def)

lemma shared_put [simp]: "shared_state (put_vu y i r) = fst r"
  by (simp add: put_vu_def)

lemma spawn_simps [simp]:
  "shared_state (spawn_vu y) = shared_state y" "length (vu_tasks (spawn_vu y)) = Suc (length (vu_tasks y))"
  by (simp_all add: spawn_vu_def alloc_vu_id_def)

section \<open>Counters that follow the tasks\<close>

text \<open>
  The RAII contract: a counter of the shared state goes up when a task enters a region of the
  loop and down when it leaves it, by whatever way, and no driver operation touches it. Then
  in every reachable state the counter is the number of tasks inside the region.
\<close>

locale guard_counter =
  fixes field :: "'t sched \<Rightarrow> nat" and inside :: "vu \<Rightarrow> bool"
  assumes new_outside: "\<not> inside (new_vu i)"
    and op_keeps: "field (do_op p s) = field s"
    and step_tracks: "(inside v \<Longrightarrow> 0 < field s) \<Longrightarrow> (\<not> inside v \<Longrightarrow> field s < u32_max) \<Longrightarrow>
      vu_step sh ab s v = (s', v') \<Longrightarrow> field s' + of_bool (inside v) = field s + of_bool (inside v')"
    and unwind_tracks: "(inside v \<Longrightarrow> 0 < field s) \<Longrightarrow> (\<not> inside v \<Longrightarrow> field s < u32_max) \<Longrightarrow>
      vu_unwind s v = Some (s', v') \<Longrightarrow> field s' + of_bool (inside v) = field s + of_bool (inside v')"
    and init_tracks: "(inside v \<Longrightarrow> 0 < field s) \<Longrightarrow> (\<not> inside v \<Longrightarrow> field s < u32_max) \<Longrightarrow>
      vu_init_fail s v = Some (s', v') \<Longrightarrow> field s' + of_bool (inside v) = field s + of_bool (inside v')"
begin

lemma outside_room:
  assumes "i < length (vu_tasks y)" and "\<not> inside (vu_tasks y ! i)"
  shows "cnt inside y < length (vu_tasks y)"
proof -
  have "cnt inside y \<noteq> length (vu_tasks y)"
    using assms by (metis cnt_def filter_id_conv length_filter_less less_irrefl nth_mem)
  with cnt_le [of inside y] show ?thesis by simp
qed

lemma put_tracks:
  assumes inv: "field (shared_state y) = cnt inside y" and i: "i < length (vu_tasks y)"
    and b: "length (vu_tasks y) \<le> u32_max"
    and tracks: "(inside (vu_tasks y ! i) \<Longrightarrow> 0 < field (shared_state y)) \<Longrightarrow>
      (\<not> inside (vu_tasks y ! i) \<Longrightarrow> field (shared_state y) < u32_max) \<Longrightarrow>
      field (fst r) + of_bool (inside (vu_tasks y ! i)) = field (shared_state y) + of_bool (inside (snd r))"
  shows "field (shared_state (put_vu y i r)) = cnt inside (put_vu y i r)"
proof -
  have "inside (vu_tasks y ! i) \<Longrightarrow> 0 < field (shared_state y)" using inv i cnt_pos by metis
  moreover have "\<not> inside (vu_tasks y ! i) \<Longrightarrow> field (shared_state y) < u32_max"
    using inv outside_room [OF i] b by simp
  ultimately show ?thesis using tracks cnt_put [OF i, of inside r] inv by simp
qed

lemma event_tracks:
  assumes inv: "field (shared_state y) = cnt inside y" and b: "length (vu_tasks y) \<le> u32_max"
    and e: "exec_event sh e y = Some y'"
  shows "field (shared_state y') = cnt inside y'"
proof (cases e)
  case (EVu i ab)
  with e have i: "i < length (vu_tasks y)" and y': "y' = put_vu y i (vu_step sh ab (shared_state y) (vu_tasks y ! i))"
    by (auto split: if_splits)
  show ?thesis unfolding y' by (rule put_tracks [OF inv i b], rule step_tracks) auto
next
  case (EUnwind i)
  with e obtain r where i: "i < length (vu_tasks y)" and r: "vu_unwind (shared_state y) (vu_tasks y ! i) = Some r"
    and y': "y' = put_vu y i r" by (auto split: if_splits)
  show ?thesis unfolding y' by (rule put_tracks [OF inv i b], rule unwind_tracks) (auto simp: r)
next
  case (EInitFail i)
  with e obtain r where i: "i < length (vu_tasks y)" and r: "vu_init_fail (shared_state y) (vu_tasks y ! i) = Some r"
    and y': "y' = put_vu y i r" by (auto split: if_splits)
  show ?thesis unfolding y' by (rule put_tracks [OF inv i b], rule init_tracks) (auto simp: r)
next
  case ESpawn
  with e inv show ?thesis by (auto simp: cnt_spawn new_outside)
next
  case (EOp p)
  with e inv show ?thesis by (auto simp: op_keeps)
qed

end

lemma exec_length: "exec_event sh e y = Some y' \<Longrightarrow> length (vu_tasks y) \<le> length (vu_tasks y')"
  by (cases e) (auto split: if_splits)

definition leased :: "vu \<Rightarrow> bool" where
  "leased v \<longleftrightarrow> pc v \<noteq> PStart \<and> pc v \<noteq> PGone"

definition waiting :: "vu \<Rightarrow> bool" where
  "waiting v \<longleftrightarrow> (case pc v of PWait \<Rightarrow> True | PCas _ \<Rightarrow> True | _ \<Rightarrow> False)"

lemmas vu_defs = vu_step_def vu_unwind_def vu_init_fail_def new_vu_def take_dropped_iterations_def

lemma do_op_keeps [simp]:
  "active_vus (do_op p s) = active_vus s" "idle_vus (do_op p s) = idle_vus s"
  "total_iterations (do_op p s) = total_iterations s" "claimed_iterations (do_op p s) = claimed_iterations s"
  "config (do_op p s) = config s"
  by (cases p; simp add: sched_ops take_dropped_iterations_def Let_def)+

interpretation lease: guard_counter active_vus leased
  by unfold_locales
    (auto simp: vu_defs sched_ops leased_def Let_def wrap_u32_id split: vu_pc.splits if_splits)

interpretation idle: guard_counter idle_vus waiting
  by unfold_locales
    (auto simp: vu_defs sched_ops waiting_def Let_def wrap_u32_id split: vu_pc.splits if_splits)

lemma reach_length: "reach ok sh y0 y \<Longrightarrow> length (vu_tasks y0) \<le> length (vu_tasks y)"
  by (induction rule: reach.induct) (auto dest: exec_length)

text \<open>C3. The RAII counters are exact in every interleaving. Whatever the schedule of the VUs,
  the driver operations, the panics, aborts and failed initialisations, \<^verbatim>\<open>active_vus\<close> is the
  number of VU tasks that hold a lease and \<^verbatim>\<open>idle_vus\<close> is the number of VUs waiting for an
  arrival token: neither counter leaks, so the drain loops and the pool growth that read them
  cannot be misled.\<close>

theorem guards_exact:
  assumes "reach ok sh (init_system cfg now) y" and "length (vu_tasks y) \<le> u32_max"
  shows "active_vus (shared_state y) = cnt leased y \<and> idle_vus (shared_state y) = cnt waiting y"
  using assms
proof (induction rule: reach.induct)
  case reach_refl
  then show ?case by (simp add: init_system_def new_sched_def cnt_def)
next
  case (reach_step y e y')
  then have b: "length (vu_tasks y) \<le> u32_max" using exec_length order_trans by blast
  with reach_step lease.event_tracks [OF _ b] idle.event_tracks [OF _ b] show ?case by blast
qed

theorem guards_exact_witness:
  "\<exists>y. reach (\<lambda>_. True) \<lparr>rs_total_iterations = 1, is_per_vu_iterations = False\<rparr>
         (init_system (SharedIterations 1 None 2 None ()) 0) y
     \<and> active_vus (shared_state y) = 2 \<and> active_vus (shared_state y) = cnt leased y"
proof -
  let ?sh = "\<lparr>rs_total_iterations = 1, is_per_vu_iterations = False\<rparr>"
  let ?y0 = "init_system (SharedIterations 1 None 2 None ()) 0"
  have "\<exists>y. run_events ?sh [ESpawn, ESpawn, EVu 0 False, EInitFail 1] ?y0 = Some y
      \<and> active_vus (shared_state y) = 2 \<and> length (vu_tasks y) = 2"
    by (simp add: init_system_def new_sched_def spawn_vu_def alloc_vu_id_def new_vu_def vu_step_def
        vu_init_fail_def put_vu_def lease_acquire_def wrap_u32_def)
  then obtain y where y: "run_events ?sh [ESpawn, ESpawn, EVu 0 False, EInitFail 1] ?y0 = Some y"
    and a: "active_vus (shared_state y) = 2" and l: "length (vu_tasks y) = 2" by blast
  have r: "reach (\<lambda>_. True) ?sh ?y0 y" by (rule run_events_reach [OF y reach_refl]) simp
  have "active_vus (shared_state y) = cnt leased y" using guards_exact [OF r] l by (simp add: u32_max_def)
  with r a show ?thesis by blast
qed

section \<open>The shared iteration budget\<close>

definition idx_sum :: "'t system \<Rightarrow> nat" where
  "idx_sum y = sum_list (map iteration_index (vu_tasks y))"

definition in_flight :: "vu \<Rightarrow> bool" where
  "in_flight v \<longleftrightarrow> (case pc v of PArrival \<Rightarrow> True | PWait \<Rightarrow> True | PCas _ \<Rightarrow> True | PRun \<Rightarrow> True | _ \<Rightarrow> False)"

lemma sum_map_update:
  "i < length xs \<Longrightarrow> sum_list (map f (xs[i := v])) + f (xs ! i) = sum_list (map f xs) + (f v :: nat)"
proof (induction xs arbitrary: i)
  case (Cons x xs)
  then show ?case by (cases i) auto
qed simp

lemma idx_sum_put:
  "i < length (vu_tasks y) \<Longrightarrow>
     idx_sum (put_vu y i r) + iteration_index (vu_tasks y ! i) = idx_sum y + iteration_index (snd r)"
  by (simp add: idx_sum_def put_vu_def sum_map_update)

lemma idx_sum_spawn [simp]: "idx_sum (spawn_vu y) = idx_sum y"
  by (simp add: idx_sum_def spawn_vu_def alloc_vu_id_def new_vu_def)

lemma idx_sum_op [simp]: "idx_sum (y\<lparr>shared_state := s\<rparr>) = idx_sum y"
  by (simp add: idx_sum_def)

lemma idx_le_sum: "i < length (vu_tasks y) \<Longrightarrow> iteration_index (vu_tasks y ! i) \<le> idx_sum y"
  unfolding idx_sum_def by (intro member_le_sum_list) simp_all

text \<open>
  Completed and in-flight iterations are covered by claims, and claims by the budget. The
  difference is claims lost to a panic or a stop between the claim and the end.
\<close>

definition budget_inv :: "nat \<Rightarrow> 't system \<Rightarrow> bool" where
  "budget_inv B y \<longleftrightarrow> claimed_iterations (shared_state y) \<le> B
     \<and> total_iterations (shared_state y) = idx_sum y
     \<and> idx_sum y + cnt in_flight y \<le> claimed_iterations (shared_state y)"

lemma budget_vu_step:
  assumes "vu_step sh ab s v = (s', v')" and "shared_budget sh" "rs_total_iterations sh < u64_max"
    and "claimed_iterations s \<le> rs_total_iterations sh"
    and "pc v = PRun \<Longrightarrow> iteration_index v < u64_max \<and> total_iterations s < u64_max"
  shows "claimed_iterations s' \<le> rs_total_iterations sh"
    "total_iterations s' + iteration_index v = total_iterations s + iteration_index v'"
    "iteration_index v' + of_bool (in_flight v') + claimed_iterations s
       \<le> claimed_iterations s' + iteration_index v + of_bool (in_flight v)"
  using assms by (cases "pc v"; auto simp: vu_step_def sched_ops in_flight_def Let_def wrap_u64_id split: if_splits)+

lemma budget_put:
  assumes inv: "budget_inv B y" and i: "i < length (vu_tasks y)"
    and r: "claimed_iterations (fst r) \<le> B"
      "total_iterations (fst r) + iteration_index (vu_tasks y ! i) = total_iterations (shared_state y) + iteration_index (snd r)"
      "iteration_index (snd r) + of_bool (in_flight (snd r)) + claimed_iterations (shared_state y)
         \<le> claimed_iterations (fst r) + iteration_index (vu_tasks y ! i) + of_bool (in_flight (vu_tasks y ! i))"
  shows "budget_inv B (put_vu y i r)"
  using inv r cnt_put [OF i, of in_flight r] idx_sum_put [OF i, of r] by (simp add: budget_inv_def)

lemma budget_step:
  assumes inv: "budget_inv (rs_total_iterations sh) y" and sh: "shared_budget sh" "rs_total_iterations sh < u64_max"
    and i: "i < length (vu_tasks y)"
  shows "budget_inv (rs_total_iterations sh) (put_vu y i (vu_step sh ab (shared_state y) (vu_tasks y ! i)))"
proof -
  let ?v = "vu_tasks y ! i" and ?s = "shared_state y"
  obtain s' v' where r: "vu_step sh ab ?s ?v = (s', v')" by fastforce
  have "claimed_iterations ?s \<le> rs_total_iterations sh" using inv by (simp add: budget_inv_def)
  moreover have "iteration_index ?v < u64_max \<and> total_iterations ?s < u64_max" if "pc ?v = PRun"
  proof -
    have "in_flight ?v" using that by (simp add: in_flight_def)
    then have "0 < cnt in_flight y" using cnt_pos [OF i] by blast
    with inv sh(2) idx_le_sum [OF i] show ?thesis by (simp add: budget_inv_def)
  qed
  ultimately show ?thesis
    unfolding r by (intro budget_put [OF inv i]) (use budget_vu_step [OF r sh] in auto)
qed

lemma budget_event:
  assumes inv: "budget_inv (rs_total_iterations sh) y" and sh: "shared_budget sh" "rs_total_iterations sh < u64_max"
    and e: "exec_event sh e y = Some y'"
  shows "budget_inv (rs_total_iterations sh) y'"
proof (cases e)
  case (EVu i ab)
  with e budget_step [OF inv sh] show ?thesis by (auto split: if_splits)
next
  case (EUnwind i)
  with e obtain r where i: "i < length (vu_tasks y)" and r: "vu_unwind (shared_state y) (vu_tasks y ! i) = Some r"
    and y': "y' = put_vu y i r" by (auto split: if_splits)
  from cnt_put [OF i, of in_flight r] idx_sum_put [OF i, of r] r inv show ?thesis
    unfolding y' by (auto simp: budget_inv_def vu_unwind_def in_flight_def mark_busy_def split: if_splits)
next
  case (EInitFail i)
  with e obtain r where i: "i < length (vu_tasks y)" and r: "vu_init_fail (shared_state y) (vu_tasks y ! i) = Some r"
    and y': "y' = put_vu y i r" by (auto split: if_splits)
  from cnt_put [OF i, of in_flight r] idx_sum_put [OF i, of r] r inv show ?thesis
    unfolding y' by (auto simp: budget_inv_def vu_init_fail_def in_flight_def lease_acquire_def split: if_splits)
next
  case ESpawn
  with e inv show ?thesis by (auto simp: budget_inv_def cnt_spawn in_flight_def new_vu_def)
next
  case (EOp p)
  with e inv show ?thesis by (auto simp: budget_inv_def)
qed

lemma budget_init: "budget_inv B (init_system cfg now)"
  by (simp add: budget_inv_def init_system_def new_sched_def idx_sum_def cnt_def)

text \<open>C5. The shared iteration budget is never overshot. In every interleaving of any number of
  VUs (spawned at any time), with any driver operations, stops, aborts, panics and failed
  initialisations, the iterations completed plus those in flight never exceed the budget, and
  the global counter is exactly the sum of what the VUs completed.\<close>

theorem shared_budget_never_exceeded:
  assumes "reach ok sh (init_system cfg now) y"
    and "\<not> is_per_vu_iterations sh" and "rs_total_iterations sh < u64_max"
  shows "total_iterations (shared_state y) + cnt in_flight y \<le> rs_total_iterations sh
    \<and> total_iterations (shared_state y) = idx_sum y"
proof -
  have sh: "shared_budget sh" using assms by (simp add: shared_budget_def)
  have "budget_inv (rs_total_iterations sh) y"
    by (rule reach_invariant [where P = "budget_inv (rs_total_iterations sh)", OF assms(1) budget_init])
      (rule budget_event [OF _ sh assms(3)])
  then show ?thesis by (simp add: budget_inv_def)
qed

text \<open>A concrete run: two VUs race for a budget of one; the loser finds the budget spent.\<close>

definition one_shared :: run_shared where
  "one_shared = \<lparr>rs_total_iterations = 1, is_per_vu_iterations = False\<rparr>"

definition race_events :: "event list" where
  "race_events = [ESpawn, ESpawn] @ concat (replicate 7 [EVu 0 False, EVu 1 False]) @ [EVu 0 False, EVu 0 False]"

lemma race_run:
  "map_option (\<lambda>y. (total_iterations (shared_state y), map pc (vu_tasks y)))
     (run_events one_shared race_events (init_system (SharedIterations 1 None 2 None ()) 0)) = Some (1, [PPace, PExit])"
  by code_simp

theorem shared_budget_never_exceeded_witness:
  "\<exists>y. reach (\<lambda>_. True) one_shared (init_system (SharedIterations 1 None 2 None ()) 0) y
     \<and> total_iterations (shared_state y) + cnt in_flight y \<le> 1 \<and> total_iterations (shared_state y) = 1"
proof -
  obtain y where y: "run_events one_shared race_events (init_system (SharedIterations 1 None 2 None ()) 0) = Some y"
    and t: "total_iterations (shared_state y) = 1" using race_run by auto
  have r: "reach (\<lambda>_. True) one_shared (init_system (SharedIterations 1 None 2 None ()) 0) y"
    by (rule run_events_reach [OF y reach_refl]) simp
  from shared_budget_never_exceeded [OF r] r t show ?thesis by (auto simp: one_shared_def u64_max_def)
qed

section \<open>A shared budget is used up, and the run ends\<close>

text \<open>Undisturbed runs: only VU steps without abort, and spawns.\<close>

fun plain_event :: "event \<Rightarrow> bool" where
  "plain_event (EVu i ab) = (\<not> ab)"
| "plain_event ESpawn = True"
| "plain_event _ = False"

definition ended :: "vu \<Rightarrow> bool" where
  "ended v \<longleftrightarrow> pc v = PExit \<or> pc v = PLease \<or> pc v = PGone"

definition calm :: "'t sched \<Rightarrow> bool" where
  "calm s \<longleftrightarrow> \<not> stopping s \<and> ramp_down_target s = u32_max \<and> \<not> control_paused s \<and> \<not> is_arrival_rate s"

definition plain_inv :: "nat \<Rightarrow> 't system \<Rightarrow> bool" where
  "plain_inv B y \<longleftrightarrow> calm (shared_state y)
     \<and> claimed_iterations (shared_state y) = idx_sum y + cnt in_flight y
     \<and> (\<forall>v \<in> set (vu_tasks y). pc v \<noteq> PClaimSlot \<and> pc v \<noteq> PClaimed \<and> \<not> waiting v
          \<and> (ended v \<longrightarrow> B \<le> claimed_iterations (shared_state y)))"

lemma plain_vu_step:
  assumes "vu_step sh False s v = (s', v')" and "shared_budget sh" "rs_total_iterations sh < u64_max"
    and "claimed_iterations s \<le> rs_total_iterations sh" and "calm s" and "pc v \<noteq> PClaimSlot" "pc v \<noteq> PClaimed" "\<not> waiting v"
    and "ended v \<longrightarrow> rs_total_iterations sh \<le> claimed_iterations s"
    and "pc v = PRun \<Longrightarrow> iteration_index v < u64_max"
  shows "calm s'" "pc v' \<noteq> PClaimSlot" "pc v' \<noteq> PClaimed" "\<not> waiting v'" "claimed_iterations s \<le> claimed_iterations s'"
    "iteration_index v' + of_bool (in_flight v') + claimed_iterations s
       = claimed_iterations s' + iteration_index v + of_bool (in_flight v)"
    "ended v' \<longrightarrow> rs_total_iterations sh \<le> claimed_iterations s'"
  using assms
  by (cases "pc v"; auto simp: vu_step_def sched_ops in_flight_def waiting_def ended_def calm_def stopping_def
      claim_wanted_def shared_budget_def per_vu_done_def is_arrival_rate_def Let_def wrap_u64_id split: if_splits)+

lemma plain_step:
  assumes inv: "plain_inv (rs_total_iterations sh) y" "budget_inv (rs_total_iterations sh) y"
    and sh: "shared_budget sh" "rs_total_iterations sh < u64_max" and i: "i < length (vu_tasks y)"
  shows "plain_inv (rs_total_iterations sh) (put_vu y i (vu_step sh False (shared_state y) (vu_tasks y ! i)))"
proof -
  let ?v = "vu_tasks y ! i" and ?s = "shared_state y"
  obtain s' v' where r: "vu_step sh False ?s ?v = (s', v')" by fastforce
  have "?v \<in> set (vu_tasks y)" using i by simp
  then have v: "pc ?v \<noteq> PClaimSlot" "pc ?v \<noteq> PClaimed" "\<not> waiting ?v" "ended ?v \<longrightarrow> rs_total_iterations sh \<le> claimed_iterations ?s"
    using inv(1) unfolding plain_inv_def by blast+
  have le: "claimed_iterations ?s \<le> rs_total_iterations sh" using inv(2) by (simp add: budget_inv_def)
  have calm: "calm ?s" using inv(1) by (simp add: plain_inv_def)
  have "iteration_index ?v < u64_max"
    using idx_le_sum [OF i] inv(2) sh(2) by (simp add: budget_inv_def)
  note st = plain_vu_step [OF r sh le calm v this]
  have "v2 \<in> set ((vu_tasks y)[i := v']) \<Longrightarrow> v2 = v' \<or> v2 \<in> set (vu_tasks y)" for v2
    using set_update_subset_insert by fastforce
  with st inv(1) have "\<forall>v \<in> set (vu_tasks (put_vu y i (s', v'))). pc v \<noteq> PClaimSlot \<and> pc v \<noteq> PClaimed \<and> \<not> waiting v
      \<and> (ended v \<longrightarrow> rs_total_iterations sh \<le> claimed_iterations s')"
    unfolding plain_inv_def put_vu_def by (fastforce intro: le_trans)
  with st(1,6) inv(1) cnt_put [OF i, of in_flight "(s', v')"] idx_sum_put [OF i, of "(s', v')"]
  show ?thesis unfolding r by (simp add: plain_inv_def)
qed

lemma plain_event_inv:
  assumes inv: "plain_inv (rs_total_iterations sh) y" "budget_inv (rs_total_iterations sh) y"
    and sh: "shared_budget sh" "rs_total_iterations sh < u64_max"
    and e: "plain_event e" "exec_event sh e y = Some y'"
  shows "plain_inv (rs_total_iterations sh) y'"
proof (cases e)
  case (EVu i ab)
  with e plain_step [OF inv sh] show ?thesis by (auto split: if_splits)
next
  case ESpawn
  with e inv show ?thesis
    by (auto simp: plain_inv_def cnt_spawn in_flight_def new_vu_def ended_def waiting_def spawn_vu_def alloc_vu_id_def
        idx_sum_def cnt_def)
qed (use e in auto)

lemma plain_reach:
  assumes "reach plain_event sh (init_system (SharedIterations B md n gs tt) now) y"
    and sh: "shared_budget sh" "rs_total_iterations sh < u64_max"
  shows "plain_inv (rs_total_iterations sh) y \<and> budget_inv (rs_total_iterations sh) y"
  using assms(1)
proof (induction rule: reach.induct)
  case reach_refl
  show ?case
    using budget_init by (auto simp: plain_inv_def calm_def stopping_def is_arrival_rate_def init_system_def
        new_sched_def idx_sum_def cnt_def)
next
  case (reach_step y e y')
  with plain_event_inv [OF _ _ sh] budget_event [OF _ sh] show ?case by blast
qed

text \<open>C6. A shared-iterations run that is left alone does all its work: when every VU is gone,
  exactly the budget of iterations has been completed, however the VUs were interleaved and
  however many there were.\<close>

theorem shared_iterations_exact:
  assumes "reach plain_event sh (init_system (SharedIterations B md n gs tt) now) y"
    and "rs_total_iterations sh = B" "B < u64_max" "\<not> is_per_vu_iterations sh"
    and "vu_tasks y \<noteq> []" and "\<forall>v \<in> set (vu_tasks y). pc v = PGone"
  shows "total_iterations (shared_state y) = B"
proof -
  have inv: "plain_inv B y" "budget_inv B y"
    using plain_reach [OF assms(1)] assms by (auto simp: shared_budget_def)
  have "cnt in_flight y = 0" using assms(6) by (auto simp: cnt_def in_flight_def filter_empty_conv)
  moreover obtain v where "v \<in> set (vu_tasks y)" using assms(5) by (cases "vu_tasks y") auto
  then have "B \<le> claimed_iterations (shared_state y)"
    using inv(1) assms(6) by (auto simp: plain_inv_def ended_def)
  ultimately show ?thesis using inv by (simp add: plain_inv_def budget_inv_def)
qed

fun pc_rank :: "vu_pc \<Rightarrow> nat" where
  "pc_rank PStart = 10" | "pc_rank PTop = 9" | "pc_rank PReadActive = 8" | "pc_rank (PClaim a) = 7"
| "pc_rank PClaimSlot = 7" | "pc_rank PClaimed = 3" | "pc_rank PGate = 6" | "pc_rank PGate2 = 5"
| "pc_rank PShared = 4" | "pc_rank PArrival = 12" | "pc_rank PWait = 0" | "pc_rank (PCas a) = 0"
| "pc_rank PRun = 11" | "pc_rank PPace = 10" | "pc_rank PExit = 2" | "pc_rank PLease = 1" | "pc_rank PGone = 0"

definition work_left :: "nat \<Rightarrow> 't system \<Rightarrow> nat" where
  "work_left B y = 9 * (B - claimed_iterations (shared_state y)) + sum_list (map (pc_rank \<circ> pc) (vu_tasks y))"

text \<open>A schedule: which VU moves next; each must still be alive.\<close>

fun run_schedule :: "run_shared \<Rightarrow> nat list \<Rightarrow> 't system \<Rightarrow> 't system option" where
  "run_schedule sh [] y = Some y"
| "run_schedule sh (i # is) y =
     (if i < length (vu_tasks y) \<and> pc (vu_tasks y ! i) \<noteq> PGone
      then run_schedule sh is (put_vu y i (vu_step sh False (shared_state y) (vu_tasks y ! i))) else None)"

lemma work_step:
  assumes "vu_step sh False s v = (s', v')" and "shared_budget sh" "rs_total_iterations sh < u64_max"
    and "claimed_iterations s \<le> rs_total_iterations sh" and "calm s" and "pc v \<noteq> PClaimSlot" "pc v \<noteq> PClaimed" "\<not> waiting v"
    and "pc v \<noteq> PGone"
  shows "9 * (rs_total_iterations sh - claimed_iterations s') + pc_rank (pc v')
    < 9 * (rs_total_iterations sh - claimed_iterations s) + pc_rank (pc v)"
  using assms
  by (cases "pc v"; auto simp: vu_step_def sched_ops waiting_def calm_def stopping_def
      claim_wanted_def shared_budget_def per_vu_done_def is_arrival_rate_def Let_def wrap_u64_id split: if_splits)

lemma schedule_bound:
  assumes "run_schedule sh is y = Some y'" and "plain_inv (rs_total_iterations sh) y" "budget_inv (rs_total_iterations sh) y"
    and sh: "shared_budget sh" "rs_total_iterations sh < u64_max"
  shows "length is + work_left (rs_total_iterations sh) y' \<le> work_left (rs_total_iterations sh) y"
  using assms(1-3)
proof (induction "is" arbitrary: y)
  case (Cons i "is")
  let ?B = "rs_total_iterations sh" and ?v = "vu_tasks y ! i" and ?s = "shared_state y"
  let ?y = "put_vu y i (vu_step sh False ?s ?v)"
  obtain s' v' where r: "vu_step sh False ?s ?v = (s', v')" by fastforce
  have i: "i < length (vu_tasks y)" "pc ?v \<noteq> PGone" and rest: "run_schedule sh is ?y = Some y'"
    using Cons.prems(1) by (auto split: if_splits)
  note inv = plain_step [OF Cons.prems(2,3) sh i(1)] budget_step [OF Cons.prems(3) sh i(1), of False]
  have v: "pc ?v \<noteq> PClaimSlot" "pc ?v \<noteq> PClaimed" "\<not> waiting ?v" "calm ?s" "claimed_iterations ?s \<le> ?B"
    using Cons.prems(2,3) nth_mem [OF i(1)] unfolding plain_inv_def budget_inv_def by blast+
  have "work_left ?B ?y < work_left ?B y"
    using work_step [OF r sh v(5,4,1,2,3) i(2)] sum_map_update [OF i(1), of "pc_rank \<circ> pc" v']
    unfolding r by (simp add: work_left_def put_vu_def)
  with Cons.IH [OF rest inv] show ?case by simp
qed simp

text \<open>C7. A shared-iterations run that is left alone ends: from any reachable state, no schedule
  of the VUs can be longer than \<open>9 * budget + 12 * vus\<close> steps before all of them are gone.\<close>

theorem shared_iterations_terminate:
  assumes "reach plain_event sh (init_system (SharedIterations B md n gs tt) now) y"
    and "rs_total_iterations sh = B" "B < u64_max" "\<not> is_per_vu_iterations sh"
    and "run_schedule sh is y = Some y'"
  shows "length is \<le> 9 * B + 12 * length (vu_tasks y)"
proof -
  have sh: "shared_budget sh" "rs_total_iterations sh < u64_max" using assms by (auto simp: shared_budget_def)
  have "pc_rank p \<le> 12" for p by (cases p) auto
  then have "sum_list (map (pc_rank \<circ> pc) vs) \<le> 12 * length vs" for vs
    by (induction vs) (auto simp: add_mono algebra_simps)
  then have "work_left B y \<le> 9 * B + 12 * length (vu_tasks y)" 
    unfolding work_left_def by (intro add_mono) simp_all
  with schedule_bound [OF assms(5)] plain_reach [OF assms(1) sh] sh assms(2) show ?thesis by fastforce
qed

text \<open>The race above played to its end.\<close>

definition race_end :: "event list" where
  "race_end = race_events @ [EVu 1 False, EVu 1 False] @ replicate 9 (EVu 0 False)"

lemma race_end_run:
  "map_option (\<lambda>y. (total_iterations (shared_state y), map pc (vu_tasks y), length (vu_tasks y)))
     (run_events one_shared race_end (init_system (SharedIterations 1 None 2 None ()) 0)) = Some (1, [PGone, PGone], 2)"
  by code_simp

lemma plain_race_end: "\<forall>e \<in> set race_end. plain_event e"
  by code_simp

theorem shared_iterations_exact_witness:
  "\<exists>y. reach plain_event one_shared (init_system (SharedIterations 1 None 2 None ()) 0) y
     \<and> (\<forall>v \<in> set (vu_tasks y). pc v = PGone) \<and> total_iterations (shared_state y) = 1"
proof -
  obtain y where y: "run_events one_shared race_end (init_system (SharedIterations 1 None 2 None ()) 0) = Some y"
    and pcs: "map pc (vu_tasks y) = [PGone, PGone]" using race_end_run by auto
  have r: "reach plain_event one_shared (init_system (SharedIterations 1 None 2 None ()) 0) y"
    by (rule run_events_reach [OF y reach_refl plain_race_end])
  have gone: "\<forall>v \<in> set (vu_tasks y). pc v = PGone"
  proof
    fix v assume "v \<in> set (vu_tasks y)"
    then have "pc v \<in> set (map pc (vu_tasks y))" by simp
    then show "pc v = PGone" unfolding pcs by simp
  qed
  have "vu_tasks y \<noteq> []" using pcs by auto
  from shared_iterations_exact [OF r _ _ _ this gone] r gone show ?thesis
    by (auto simp: one_shared_def u64_max_def)
qed

theorem shared_iterations_terminate_witness:
  "\<exists>y y' :: unit system. reach plain_event one_shared (init_system (SharedIterations 1 None 2 None ()) 0) y
     \<and> run_schedule one_shared [0, 1, 0] y = Some y' \<and> length [0, 1, 0 :: nat] \<le> 9 * 1 + 12 * length (vu_tasks y)"
proof -
  let ?y0 = "init_system (SharedIterations 1 None 2 None ()) 0"
  have "map_option (\<lambda>y. run_schedule one_shared [0, 1, 0] y \<noteq> None) (run_events one_shared [ESpawn, ESpawn] ?y0) = Some True"
    by code_simp
  then obtain y y' where y: "run_events one_shared [ESpawn, ESpawn] ?y0 = Some y"
    and s: "run_schedule one_shared [0, 1, 0] y = Some y'" by auto
  have r: "reach plain_event one_shared ?y0 y"
    by (rule run_events_reach [OF y reach_refl]) simp
  have "length [0, 1, 0 :: nat] \<le> 9 * 1 + 12 * length (vu_tasks y)"
    by (rule shared_iterations_terminate [OF r _ _ _ s]) (simp_all add: one_shared_def u64_max_def)
  with r s show ?thesis by blast
qed

section \<open>Per-VU iterations\<close>

definition vu_progress :: "nat \<Rightarrow> vu \<Rightarrow> bool" where
  "vu_progress N v \<longleftrightarrow>
     (if ended v then iteration_index v = N
      else if pc v = PPace then 0 < iteration_index v \<and> iteration_index v \<le> N
      else iteration_index v < N \<and> pc v \<noteq> PClaimSlot \<and> pc v \<noteq> PClaimed \<and> \<not> waiting v)"

definition per_vu_inv :: "nat \<Rightarrow> 't system \<Rightarrow> bool" where
  "per_vu_inv N y \<longleftrightarrow> calm (shared_state y) \<and> (\<forall>v \<in> set (vu_tasks y). vu_progress N v)"

lemma per_vu_vu_step:
  assumes "vu_step sh False s v = (s', v')" and "is_per_vu_iterations sh" "rs_total_iterations sh < u64_max"
    and "calm s" and "vu_progress (max 1 (rs_total_iterations sh)) v"
  shows "calm s'" "vu_progress (max 1 (rs_total_iterations sh)) v'"
  using assms
  by (cases "pc v"; auto simp: vu_step_def sched_ops waiting_def ended_def calm_def stopping_def vu_progress_def
      claim_wanted_def shared_budget_def per_vu_done_def is_arrival_rate_def Let_def wrap_u64_id u64_max_def
      split: if_splits)+

lemma per_vu_event:
  assumes inv: "per_vu_inv (max 1 (rs_total_iterations sh)) y" and sh: "is_per_vu_iterations sh" "rs_total_iterations sh < u64_max"
    and e: "plain_event e" "exec_event sh e y = Some y'"
  shows "per_vu_inv (max 1 (rs_total_iterations sh)) y'"
proof (cases e)
  case (EVu i ab)
  let ?v = "vu_tasks y ! i"
  obtain s' v' where r: "vu_step sh False (shared_state y) ?v = (s', v')" by fastforce
  from EVu e r have i: "i < length (vu_tasks y)" and y': "y' = put_vu y i (s', v')" by (auto split: if_splits)
  from inv i have "calm (shared_state y)" "vu_progress (max 1 (rs_total_iterations sh)) ?v"
    by (auto simp: per_vu_inv_def)
  note st = per_vu_vu_step [OF r sh this]
  have "v2 \<in> set ((vu_tasks y)[i := v']) \<Longrightarrow> v2 = v' \<or> v2 \<in> set (vu_tasks y)" for v2
    using set_update_subset_insert by fastforce
  with st inv show ?thesis unfolding y' by (auto simp: per_vu_inv_def put_vu_def)
next
  case ESpawn
  have "vu_progress (max 1 (rs_total_iterations sh)) (new_vu k)" for k
    by (simp add: new_vu_def vu_progress_def ended_def waiting_def)
  with ESpawn e inv show ?thesis by (auto simp: per_vu_inv_def spawn_vu_def alloc_vu_id_def)
qed (use e in auto)

lemma per_vu_reach:
  assumes "reach plain_event sh (init_system (PerVUIterations n N md gs tt) now) y"
    and sh: "is_per_vu_iterations sh" "rs_total_iterations sh < u64_max"
  shows "per_vu_inv (max 1 (rs_total_iterations sh)) y"
proof (rule reach_invariant [where P = "per_vu_inv (max 1 (rs_total_iterations sh))", OF assms(1)])
  show "per_vu_inv (max 1 (rs_total_iterations sh)) (init_system (PerVUIterations n N md gs tt) now)"
    by (simp add: per_vu_inv_def calm_def stopping_def is_arrival_rate_def init_system_def new_sched_def)
qed (rule per_vu_event [OF _ sh])


definition two_each :: run_shared where
  "two_each = \<lparr>rs_total_iterations = 2, is_per_vu_iterations = True\<rparr>"


text \<open>A per-VU budget of zero is not honoured: the budget is only tested after an iteration,
  so a VU with zero iterations to run performs one. Segment scaling produces such budgets: the
  first of two half segments of a one-iteration profile gets zero iterations.\<close>

theorem per_vu_zero_runs_one:
  "pi_iterations (apply_segment (hd two_halves) (PerVUIterations 2 1 None None ())) = 0
   \<and> map_option (\<lambda>y. (total_iterations (shared_state y), map pc (vu_tasks y)))
       (run_events \<lparr>rs_total_iterations = 0, is_per_vu_iterations = True\<rparr> (ESpawn # replicate 12 (EVu 0 False))
         (init_system (apply_segment (hd two_halves) (PerVUIterations 2 1 None None ())) 0)) = Some (1, [PGone])"
  by code_simp

end
