(* ===== verification/Ramp_Down.thy ===== *)
theory Ramp_Down
  imports Vu_Loop
begin

text \<open>
  Ramping a pool of VUs up and down (\<^verbatim>\<open>run_ramping\<close> of
  \<^verbatim>\<open>crates/tropel-scheduler/src/scheduler.rs\<close>): the table of absolute offsets at which steps fire,
  and the protocol by which surplus VUs leave during a ramp-down, in every interleaving of the
  driver with the VUs.
\<close>

section \<open>The table of offsets\<close>

text \<open>The nanosecond product is a \<^verbatim>\<open>u128\<close>; the quotient is cast to \<^verbatim>\<open>u64\<close>.\<close>

definition step_offset :: "nat \<Rightarrow> nat \<Rightarrow> nat \<Rightarrow> nat" where
  "step_offset stage_nanos delta step = wrap_u64 (stage_nanos * step div delta)"

definition step_offsets :: "nat \<Rightarrow> nat \<Rightarrow> nat list" where
  "step_offsets stage_nanos delta = map (step_offset stage_nanos delta) [1..<delta + 1]"

text \<open>The steps of a ramp are spread over the whole stage: for a stage of \<open>d\<close> nanoseconds
  (below the 584 years that fit \<^verbatim>\<open>u64\<close>) the offsets never decrease, each is less than one
  nanosecond below its exact place \<open>d * step / delta\<close>, and the last one is exactly the end of
  the stage.\<close>

theorem ramp_offsets_even:
  assumes "0 < delta" and "d \<le> u64_max"
  shows "sorted (step_offsets d delta) \<and> last (step_offsets d delta) = d
    \<and> (\<forall>k < delta. of_nat (step_offsets d delta ! k) \<le> (of_nat (d * (k + 1)) / of_nat delta :: rat)
         \<and> (of_nat (d * (k + 1)) / of_nat delta :: rat) < of_nat (step_offsets d delta ! k) + 1)"
proof -
  have off: "step_offset d delta k = d * k div delta" if "k \<le> delta" for k
  proof -
    have "d * k div delta \<le> d * delta div delta" using that by (intro div_le_mono) simp
    with assms show ?thesis by (simp add: step_offset_def wrap_u64_id)
  qed
  have "sorted (step_offsets d delta)"
    unfolding sorted_iff_nth_mono by (auto simp: step_offsets_def off simp del: upt_Suc intro!: div_le_mono)
  moreover have "last (step_offsets d delta) = d" using assms by (simp add: step_offsets_def off)
  moreover have "of_nat (step_offsets d delta ! k) \<le> (of_nat (d * (k + 1)) / of_nat delta :: rat)
      \<and> (of_nat (d * (k + 1)) / of_nat delta :: rat) < of_nat (step_offsets d delta ! k) + 1" if "k < delta" for k
  proof -
    let ?n = "d * (k + 1)"
    have "?n div delta * delta \<le> ?n" "?n < (?n div delta + 1) * delta"
      using assms by (simp_all add: div_times_less_eq_dividend dividend_less_div_times)
    then have "(of_nat (?n div delta) * of_nat delta :: rat) \<le> of_nat ?n"
      "(of_nat ?n :: rat) < (of_nat (?n div delta) + 1) * of_nat delta"
      by (metis of_nat_le_iff of_nat_mult, metis of_nat_1 of_nat_add of_nat_less_iff of_nat_mult)
    with that assms show ?thesis
      by (simp add: step_offsets_def off pos_le_divide_eq pos_divide_less_eq del: upt_Suc of_nat_mult of_nat_add)
  qed
  ultimately show ?thesis by blast
qed

theorem ramp_offsets_even_witness:
  "step_offsets 10 3 = [3, 6, 10] \<and> last (step_offsets 10 3) = 10"
proof -
  have "step_offsets 10 3 = [3, 6, 10]" by code_simp
  with ramp_offsets_even [of 3 10] show ?thesis by (simp add: u64_max_def)
qed

section \<open>Claims against armed slots\<close>

definition claimed_vu :: "vu \<Rightarrow> bool" where
  "claimed_vu v \<longleftrightarrow> pc v = PClaimed \<or> guard_claimed v"

text \<open>Only a claim sets the flag, and then the VU is on its way out.\<close>

definition vu_claim_ok :: "vu \<Rightarrow> bool" where
  "vu_claim_ok v \<longleftrightarrow> (guard_claimed v \<longrightarrow> ended v)"

definition arms_in :: "event list \<Rightarrow> nat" where
  "arms_in es = length (filter (\<lambda>e. case e of EOp (OpArm t) \<Rightarrow> True | _ \<Rightarrow> False) es)"

fun no_rearm :: "event \<Rightarrow> bool" where
  "no_rearm (EOp (OpSetRampDown t c)) = False"
| "no_rearm (EOp OpClear) = False"
| "no_rearm _ = True"

definition claim_inv :: "'t system \<Rightarrow> bool" where
  "claim_inv y \<longleftrightarrow> (\<forall>v \<in> set (vu_tasks y). vu_claim_ok v)"

lemma claim_vu_step:
  assumes "vu_step sh ab s v = (s', v')" and "vu_claim_ok v"
  shows "vu_claim_ok v'"
    "of_bool (claimed_vu v') + ramp_down_remaining s' = of_bool (claimed_vu v) + ramp_down_remaining s"
  using assms
  by (cases "pc v"; auto simp: vu_step_def sched_ops vu_claim_ok_def claimed_vu_def ended_def Let_def split: if_splits)+

lemma claim_unwind:
  assumes "vu_unwind s v = Some r \<or> vu_init_fail s v = Some r" and "vu_claim_ok v"
  shows "vu_claim_ok (snd r)"
    "of_bool (claimed_vu (snd r)) + ramp_down_remaining (fst r) = of_bool (claimed_vu v) + ramp_down_remaining s"
  using assms
  by (auto simp: vu_unwind_def vu_init_fail_def sched_ops vu_claim_ok_def claimed_vu_def ended_def split: if_splits)

lemma claim_inv_put:
  assumes "claim_inv y" and "vu_claim_ok (snd r)"
  shows "claim_inv (put_vu y i r)"
proof -
  have "v2 \<in> set ((vu_tasks y)[i := snd r]) \<Longrightarrow> v2 = snd r \<or> v2 \<in> set (vu_tasks y)" for v2
    using set_update_subset_insert by fastforce
  with assms show ?thesis by (auto simp: claim_inv_def put_vu_def)
qed

lemma claim_put:
  assumes i: "i < length (vu_tasks y)"
    and "of_bool (claimed_vu (snd r)) + ramp_down_remaining (fst r)
       = of_bool (claimed_vu (vu_tasks y ! i)) + ramp_down_remaining (shared_state y)"
  shows "cnt claimed_vu (put_vu y i r) + ramp_down_remaining (shared_state (put_vu y i r))
       = cnt claimed_vu y + ramp_down_remaining (shared_state y)"
  using cnt_put [OF i, of claimed_vu r] assms(2) by simp

text \<open>What an event does to the VU tasks: one task moves, or one is added, or none changes.\<close>

lemma event_vu_cases:
  assumes "exec_event sh e y = Some y'"
  obtains (move) i r where "i < length (vu_tasks y)" "y' = put_vu y i r" "arms_in [e] = 0"
      "(\<exists>ab. vu_step sh ab (shared_state y) (vu_tasks y ! i) = (fst r, snd r))
       \<or> vu_unwind (shared_state y) (vu_tasks y ! i) = Some r \<or> vu_init_fail (shared_state y) (vu_tasks y ! i) = Some r"
    | (spawn) "e = ESpawn" "y' = spawn_vu y"
    | (driver) p where "e = EOp p" "y' = y\<lparr>shared_state := do_op p (shared_state y)\<rparr>"
proof (cases e)
  case (EVu i ab)
  with assms show ?thesis by (intro move [of i "vu_step sh ab (shared_state y) (vu_tasks y ! i)"])
      (auto simp: arms_in_def split: if_splits)
qed (use assms that in \<open>auto simp: arms_in_def split: if_splits\<close>)

lemma claim_move:
  assumes "claim_inv y" and "i < length (vu_tasks y)"
    and "(\<exists>ab. vu_step sh ab (shared_state y) (vu_tasks y ! i) = (fst r, snd r))
       \<or> vu_unwind (shared_state y) (vu_tasks y ! i) = Some r \<or> vu_init_fail (shared_state y) (vu_tasks y ! i) = Some r"
  shows "vu_claim_ok (snd r)" "of_bool (claimed_vu (snd r)) + ramp_down_remaining (fst r)
       = of_bool (claimed_vu (vu_tasks y ! i)) + ramp_down_remaining (shared_state y)"
proof -
  have ok: "vu_claim_ok (vu_tasks y ! i)" using assms(1,2) by (simp add: claim_inv_def)
  from assms(3) show "vu_claim_ok (snd r)" "of_bool (claimed_vu (snd r)) + ramp_down_remaining (fst r)
       = of_bool (claimed_vu (vu_tasks y ! i)) + ramp_down_remaining (shared_state y)"
    using claim_vu_step [OF _ ok] claim_unwind [OF _ ok] by metis+
qed

lemma claim_inv_event:
  assumes "claim_inv y" and "exec_event sh e y = Some y'"
  shows "claim_inv y'"
  using assms(2)
proof (cases rule: event_vu_cases)
  case (move i r)
  then show ?thesis using claim_inv_put [OF assms(1) claim_move(1) [OF assms(1) move(1,4)]] by simp
next
  case spawn
  with assms show ?thesis
    by (auto simp: claim_inv_def spawn_vu_def alloc_vu_id_def new_vu_def vu_claim_ok_def)
next
  case (driver p)
  with assms show ?thesis by (simp add: claim_inv_def)
qed

lemma claim_event:
  assumes "claim_inv y" and "exec_event sh e y = Some y'" and "no_rearm e"
    and "ramp_down_remaining (shared_state y) < u32_max"
  shows "cnt claimed_vu y' + ramp_down_remaining (shared_state y')
       = cnt claimed_vu y + ramp_down_remaining (shared_state y) + arms_in [e]"
  using assms(2)
proof (cases rule: event_vu_cases)
  case (move i r)
  then show ?thesis using claim_put [OF move(1) claim_move(2) [OF assms(1) move(1,4)]] by simp
next
  case spawn
  then show ?thesis by (simp add: cnt_spawn new_vu_def claimed_vu_def arms_in_def)
next
  case (driver p)
  with assms(3,4) show ?thesis
    by (cases p) (auto simp: arms_in_def sched_ops take_dropped_iterations_def Let_def wrap_u32_id)
qed

lemma arms_in_Cons: "arms_in (e # es) = arms_in [e] + arms_in es"
  by (simp add: arms_in_def)

lemma claim_run:
  assumes "run_events sh es y = Some y'" and "claim_inv y" and "\<forall>e \<in> set es. no_rearm e"
    and "cnt claimed_vu y + ramp_down_remaining (shared_state y) + arms_in es < u32_max"
  shows "cnt claimed_vu y' + ramp_down_remaining (shared_state y')
       = cnt claimed_vu y + ramp_down_remaining (shared_state y) + arms_in es"
  using assms
proof (induction es arbitrary: y)
  case Nil
  then show ?case by (simp add: arms_in_def)
next
  case (Cons e es)
  then obtain y1 where y1: "exec_event sh e y = Some y1" and rest: "run_events sh es y1 = Some y'"
    by (auto split: option.splits)
  have step: "cnt claimed_vu y1 + ramp_down_remaining (shared_state y1)
       = cnt claimed_vu y + ramp_down_remaining (shared_state y) + arms_in [e]"
    using Cons.prems by (intro claim_event [OF _ y1]) auto
  with Cons.IH [OF rest claim_inv_event [OF Cons.prems(2) y1]] Cons.prems(3,4) show ?case
    by (simp add: arms_in_Cons [of e es])
qed

text \<open>The arming steps of a ramp-down stage from \<open>current\<close> to \<open>target\<close> VUs.\<close>

definition ramp_down_arms :: "nat \<Rightarrow> nat \<Rightarrow> driver_op list" where
  "ramp_down_arms current target = map (\<lambda>step. OpArm (current - step)) [1..<current - target + 1]"

fun driver_ops :: "event list \<Rightarrow> driver_op list" where
  "driver_ops [] = []"
| "driver_ops (EOp p # es) = p # driver_ops es"
| "driver_ops (e # es) = driver_ops es"

lemma driver_ops_arms:
  "driver_ops es = map OpArm ts \<Longrightarrow> arms_in es = length ts \<and> (\<forall>e \<in> set es. no_rearm e)"
proof (induction es arbitrary: ts rule: driver_ops.induct)
  case (2 p es)
  then obtain t ts' where "ts = t # ts'" "p = OpArm t" "driver_ops es = map OpArm ts'" by (cases ts) auto
  with 2 show ?case by (simp add: arms_in_def)
qed (auto simp: arms_in_def)


definition unbounded :: run_shared where
  "unbounded = \<lparr>rs_total_iterations = u64_max, is_per_vu_iterations = False\<rparr>"

definition ramp_3_to_1 :: "unit execution_config" where
  "ramp_3_to_1 = RampingVus [\<lparr>stage_duration = ''10s'', stage_target = 1\<rparr>] 3 None None ()"

definition three_running :: "event list" where
  "three_running = replicate 3 ESpawn @ [EVu 0 False, EVu 1 False, EVu 2 False]"

text \<open>The two arming steps of the stage, each claimed by one VU that has not yet dropped its lease.\<close>

definition two_leaving :: "event list" where
  "two_leaving = [EOp (OpArm 2)] @ replicate 5 (EVu 0 False) @ [EOp (OpArm 1)] @ replicate 5 (EVu 1 False)"

lemma two_leaving_run:
  "map_option (\<lambda>y. (ramp_down_remaining (shared_state y), cnt claimed_vu y))
     (run_events unbounded three_running (init_system ramp_3_to_1 0)) = Some (0, 0)"
  "map_option (\<lambda>y. (active_vus (shared_state y), cnt claimed_vu y))
     (run_events unbounded (three_running @ two_leaving) (init_system ramp_3_to_1 0)) = Some (3, 2)"
  by code_simp+

lemma run_events_append:
  "run_events sh (es @ fs) y = (case run_events sh es y of None \<Rightarrow> None | Some y' \<Rightarrow> run_events sh fs y')"
  by (induction es arbitrary: y) (auto split: option.splits)


text \<open>The final re-arm can empty the pool below its target. It counts the leases still held,
  and a VU that has claimed its exit holds its lease until its task is torn down. Ramping from
  3 to 1: two VUs have claimed the two slots and are leaving when the driver re-arms with the
  active count 3; the third VU then claims one of the new slots, and no VU is left.\<close>

theorem ramp_down_rearm_undershoots:
  "map_option (\<lambda>y. (cnt claimed_vu y, cnt (\<lambda>v. \<not> claimed_vu v) y))
     (case run_events unbounded (three_running @ two_leaving) (init_system ramp_3_to_1 0) of
        None \<Rightarrow> None
      | Some y \<Rightarrow> run_events unbounded
          (EOp (OpSetRampDown 1 (active_vus (shared_state y))) # replicate 5 (EVu 2 False)) y)
   = Some (3, 0)"
  by code_simp

end
