(* ===== verification/Arrival_Exec.thy ===== *)
theory Arrival_Exec
  imports Vu_Loop
begin

text \<open>
  The arrival-rate executors (\<^verbatim>\<open>run_arrival_rate\<close>, \<^verbatim>\<open>run_ramping_arrival_rate\<close> and
  \<^verbatim>\<open>grow_arrival_pool\<close> of \<^verbatim>\<open>crates/tropel-scheduler/src/scheduler.rs\<close>): the token bucket, as driver steps
  interleaved with the VUs that draw from it, the growth of the pool, and the integral of a
  ramped rate.
\<close>

section \<open>Growth of the pool\<close>

definition max_spawn_per_tick :: nat where "max_spawn_per_tick = 32"

definition grow_by :: "nat \<Rightarrow> nat \<Rightarrow> 't sched \<Rightarrow> nat" where
  "grow_by current_vus max_vus s =
     (let queued = arrival_tokens s; idle = idle_vus s in
      if queued = 0 \<or> queued \<le> idle \<or> current_vus \<ge> max_vus then 0
      else (let needed = wrap_u32 (queued - idle); grow_cap = min (max_vus - current_vus) needed
            in min grow_cap max_spawn_per_tick))"

definition grow_arrival_pool :: "nat \<Rightarrow> nat \<Rightarrow> 't system \<Rightarrow> 't system \<times> nat" where
  "grow_arrival_pool current_vus max_vus y =
     (let n = grow_by current_vus max_vus (shared_state y) in ((spawn_vu ^^ n) y, current_vus + n))"

text \<open>The pool grows exactly under pressure and never past its maximum: while it is below
  the maximum and more tokens are queued than VUs are idle, it grows by the smallest of the
  shortfall, the room left and 32; otherwise it does not grow.\<close>

theorem grow_by_pressure:
  assumes "arrival_tokens s \<le> u32_max"
  shows "grow_by current max_vus s =
      (if current < max_vus then min (min (max_vus - current) (arrival_tokens s - idle_vus s)) 32 else 0)
    \<and> current + grow_by current max_vus s \<le> max current max_vus"
proof -
  have "wrap_u32 (arrival_tokens s - idle_vus s) = arrival_tokens s - idle_vus s"
    using assms by (intro wrap_u32_id) simp
  then show ?thesis by (auto simp: grow_by_def Let_def max_spawn_per_tick_def)
qed

theorem grow_by_pressure_witness:
  "grow_by 10 100 ((new_sched (ConstantVus 1 ''1s'' None ()) 0)\<lparr>arrival_tokens := 50, idle_vus := 1\<rparr>) = 32"
  using grow_by_pressure [of "(new_sched (ConstantVus 1 ''1s'' None ()) 0)\<lparr>arrival_tokens := 50, idle_vus := 1\<rparr>" 10 100]
  by (simp add: u32_max_def new_sched_def)

section \<open>The token bucket\<close>

datatype arr_pc = APoll | ALoad nat | AAdd nat nat | ADrop nat nat | AGrow nat | AReap nat

record 't arrival =
  arr_sys :: "'t system"
  arr_stripe :: arrival_stripe
  last_target :: nat
  current_vus :: nat
  arr_pc :: arr_pc
  reported_drops :: nat
  lost_starts :: nat

definition bucket_op :: "driver_op \<Rightarrow> 't arrival \<Rightarrow> 't arrival" where
  "bucket_op p a = a\<lparr>arr_sys := (arr_sys a)\<lparr>shared_state := do_op p (shared_state (arr_sys a))\<rparr>\<rparr>"

text \<open>
  One access of the driver loop. The argument \<open>n\<close> is the global arrival count the poll
  computed from the clock; \<open>dead\<close> is the number of VUs the reaper found dead and replaced.
\<close>

definition driver_step :: "nat \<Rightarrow> nat \<Rightarrow> nat \<Rightarrow> 't arrival \<Rightarrow> 't arrival option" where
  "driver_step max_vus n dead a =
     (case arr_pc a of
        APoll \<Rightarrow>
          (if stop_requested (shared_state (arr_sys a)) then None
           else (case due_by (arr_stripe a) n of
                   Some (Inr (st, target)) \<Rightarrow>
                     Some (a\<lparr>arr_stripe := st, arr_pc := (if target > last_target a then ALoad target else AGrow target)\<rparr>)
                 | _ \<Rightarrow> None))
      | ALoad target \<Rightarrow> Some (a\<lparr>arr_pc := AAdd target (arrival_tokens (shared_state (arr_sys a)))\<rparr>)
      | AAdd target current \<Rightarrow>
          (let to_add = target - last_target a; capacity = max_vus - current; actual_add = min to_add capacity;
               a' = (if actual_add > 0 then bucket_op (OpAddTokens actual_add) a else a)
           in Some (a'\<lparr>arr_pc := ADrop target capacity\<rparr>))
      | ADrop target capacity \<Rightarrow>
          (let overflow = (target - last_target a) - capacity;
               a' = (if overflow > 0 then bucket_op (OpDrop overflow) a else a)
           in Some (a'\<lparr>arr_pc := AGrow target\<rparr>))
      | AGrow target \<Rightarrow>
          (let (y, c) = grow_arrival_pool (current_vus a) max_vus (arr_sys a)
           in Some (a\<lparr>arr_sys := y, current_vus := c, arr_pc := AReap target\<rparr>))
      | AReap target \<Rightarrow>
          Some (a\<lparr>arr_sys := (spawn_vu ^^ dead) (arr_sys a), last_target := target, arr_pc := APoll\<rparr>))"

definition arrival_start :: "'t sched \<Rightarrow> nat \<Rightarrow> 't arrival" where
  "arrival_start s pre_alloc =
     \<lparr>arr_sys = (spawn_vu ^^ (max pre_alloc 1)) \<lparr>shared_state = s, vu_tasks = [], next_vu_id = 0\<rparr>,
      arr_stripe = sched_stripe s, last_target = 0, current_vus = max pre_alloc 1, arr_pc = APoll,
      reported_drops = 0, lost_starts = 0\<rparr>"

text \<open>
  Everything that happens around the driver: VU steps, panics, failed initialisations, stop
  and pause requests, and the sampler that takes the dropped count. The last two fields of the
  record are bookkeeping for the statement below: drops already taken by the sampler, and
  iterations that had their token and panicked.
\<close>

datatype arr_event =
  DriverStep nat nat | VuStep nat bool | VuPanic nat | VuFail nat | Stop | ForceStop | Pause bool | SampleDrops

definition arr_put :: "'t arrival \<Rightarrow> 't system option \<Rightarrow> 't arrival option" where
  "arr_put a r = map_option (\<lambda>y. a\<lparr>arr_sys := y\<rparr>) r"

fun arr_event_step :: "run_shared \<Rightarrow> nat \<Rightarrow> arr_event \<Rightarrow> 't arrival \<Rightarrow> 't arrival option" where
  "arr_event_step sh mx (DriverStep n dead) a = driver_step mx n dead a"
| "arr_event_step sh mx (VuStep i ab) a = arr_put a (exec_event sh (EVu i ab) (arr_sys a))"
| "arr_event_step sh mx (VuPanic i) a =
     (case exec_event sh (EUnwind i) (arr_sys a) of None \<Rightarrow> None
      | Some y \<Rightarrow> Some (a\<lparr>arr_sys := y, lost_starts := lost_starts a + of_bool (pc (vu_tasks (arr_sys a) ! i) = PRun)\<rparr>))"
| "arr_event_step sh mx (VuFail i) a = arr_put a (exec_event sh (EInitFail i) (arr_sys a))"
| "arr_event_step sh mx Stop a = Some (bucket_op OpStop a)"
| "arr_event_step sh mx ForceStop a = Some (bucket_op OpForceStop a)"
| "arr_event_step sh mx (Pause b) a = Some (bucket_op (OpPause b) a)"
| "arr_event_step sh mx SampleDrops a =
     (let (s, d) = take_dropped_iterations (shared_state (arr_sys a))
      in Some (a\<lparr>arr_sys := (arr_sys a)\<lparr>shared_state := s\<rparr>, reported_drops := reported_drops a + d\<rparr>))"

inductive arr_reach :: "run_shared \<Rightarrow> nat \<Rightarrow> nat \<Rightarrow> 't arrival \<Rightarrow> 't arrival \<Rightarrow> bool"
  for sh mx cap a0 where
  arr_refl: "arr_reach sh mx cap a0 a0"
| arr_step: "arr_reach sh mx cap a0 a \<Longrightarrow> (\<And>n dead. e = DriverStep n dead \<Longrightarrow> n \<le> cap) \<Longrightarrow>
    arr_event_step sh mx e a = Some a' \<Longrightarrow> arr_reach sh mx cap a0 a'"

section \<open>Conservation of arrivals\<close>

definition running :: "vu \<Rightarrow> bool" where
  "running v \<longleftrightarrow> pc v = PRun"

definition cas_ok :: "vu \<Rightarrow> bool" where
  "cas_ok v \<longleftrightarrow> (case pc v of PCas c \<Rightarrow> 0 < c | PArrival \<Rightarrow> True | _ \<Rightarrow> True)"

definition sys_tokens :: "'t system \<Rightarrow> nat" where
  "sys_tokens y = arrival_tokens (shared_state y) + arrival_dropped (shared_state y) + idx_sum y + cnt running y"

text \<open>Where every arrival that fell due is: queued, dropped, running, done or lost to a panic.\<close>

definition accounted :: "'t arrival \<Rightarrow> nat" where
  "accounted a = sys_tokens (arr_sys a) + reported_drops a + lost_starts a"

definition booked :: "nat \<Rightarrow> 't arrival \<Rightarrow> nat" where
  "booked mx a =
     (case arr_pc a of ADrop target capacity \<Rightarrow> last_target a + min (target - last_target a) capacity
      | AGrow target \<Rightarrow> target | AReap target \<Rightarrow> target | _ \<Rightarrow> last_target a)"

definition due_now :: "'t arrival \<Rightarrow> nat" where
  "due_now a = (case arr_pc a of APoll \<Rightarrow> last_target a | ALoad t \<Rightarrow> t | AAdd t c \<Rightarrow> t | ADrop t c \<Rightarrow> t
     | AGrow t \<Rightarrow> t | AReap t \<Rightarrow> t)"

definition arr_inv :: "nat \<Rightarrow> nat \<Rightarrow> 't arrival \<Rightarrow> bool" where
  "arr_inv mx cap a \<longleftrightarrow>
     stripe_valid cap (arr_stripe a) \<and> as_released (arr_stripe a) = due_now a \<and> last_target a \<le> due_now a
     \<and> accounted a = booked mx a \<and> is_arrival_rate (shared_state (arr_sys a))
     \<and> arrival_tokens (shared_state (arr_sys a)) \<le> mx
     \<and> (\<forall>t c. arr_pc a = AAdd t c \<longrightarrow> arrival_tokens (shared_state (arr_sys a)) \<le> c \<and> c \<le> mx)
     \<and> (\<forall>v \<in> set (vu_tasks (arr_sys a)). cas_ok v)"

lemma arrival_vu_step:
  assumes "vu_step sh ab s v = (s', v')" and "is_arrival_rate s" and "cas_ok v"
    and "pc v = PRun \<Longrightarrow> iteration_index v < u64_max"
  shows "arrival_tokens s' + iteration_index v' + of_bool (running v')
      = arrival_tokens s + iteration_index v + of_bool (running v)"
    "arrival_dropped s' = arrival_dropped s" "arrival_tokens s' \<le> arrival_tokens s" "cas_ok v'" "is_arrival_rate s'"
  using assms
  by (cases "pc v"; auto simp: vu_step_def sched_ops running_def cas_ok_def is_arrival_rate_def Let_def wrap_u64_id
      split: if_splits)+

lemma arrival_unwind:
  assumes "vu_unwind s v = Some r \<or> vu_init_fail s v = Some r" and "is_arrival_rate s"
  shows "arrival_tokens (fst r) = arrival_tokens s" "arrival_dropped (fst r) = arrival_dropped s"
    "iteration_index (snd r) = iteration_index v" "\<not> running (snd r)" "cas_ok (snd r)" "is_arrival_rate (fst r)"
    "vu_init_fail s v = Some r \<Longrightarrow> \<not> running v"
  using assms
  by (auto simp: vu_unwind_def vu_init_fail_def sched_ops running_def cas_ok_def is_arrival_rate_def split: if_splits)

lemma all_put:
  assumes "\<forall>v \<in> set (vu_tasks y). P v" and "P (snd r)"
  shows "\<forall>v \<in> set (vu_tasks (put_vu y i r)). P v"
proof -
  have "v2 \<in> set ((vu_tasks y)[i := snd r]) \<Longrightarrow> v2 = snd r \<or> v2 \<in> set (vu_tasks y)" for v2
    using set_update_subset_insert by fastforce
  with assms show ?thesis by (auto simp: put_vu_def)
qed

lemma pc_frame [simp]:
  "due_now (a\<lparr>arr_sys := y\<rparr>) = due_now a" "booked mx (a\<lparr>arr_sys := y\<rparr>) = booked mx a"
  "due_now (a\<lparr>lost_starts := k\<rparr>) = due_now a" "booked mx (a\<lparr>lost_starts := k\<rparr>) = booked mx a"
  "due_now (a\<lparr>reported_drops := k\<rparr>) = due_now a" "booked mx (a\<lparr>reported_drops := k\<rparr>) = booked mx a"
  "due_now (a\<lparr>current_vus := k\<rparr>) = due_now a" "booked mx (a\<lparr>current_vus := k\<rparr>) = booked mx a"
  by (cases "arr_pc a"; simp add: due_now_def booked_def)+

lemma booked_le_due: "last_target a \<le> due_now a \<Longrightarrow> booked mx a \<le> due_now a"
  by (cases "arr_pc a") (auto simp: due_now_def booked_def)

lemma arr_inv_bounds:
  assumes "arr_inv mx cap a"
  shows "accounted a \<le> cap" "int cap < i64_max"
proof -
  have "stripe_valid cap (arr_stripe a)" using assms by (simp add: arr_inv_def)
  then show "int cap < i64_max" using cycle_ok_pos by (fastforce simp: stripe_valid_def)
  show "accounted a \<le> cap"
    using assms booked_le_due [of a mx] stripe.released_le [of cap "arr_stripe a"] by (simp add: arr_inv_def)
qed

text \<open>A change of the system that moves no arrival out of the books keeps the invariant.\<close>

lemma arr_inv_sys:
  assumes inv: "arr_inv mx cap a"
    and "sys_tokens y + k = sys_tokens (arr_sys a)" and "is_arrival_rate (shared_state y)"
    and "arrival_tokens (shared_state y) \<le> arrival_tokens (shared_state (arr_sys a))"
    and "\<forall>v \<in> set (vu_tasks y). cas_ok v"
  shows "arr_inv mx cap (a\<lparr>arr_sys := y, lost_starts := lost_starts a + k\<rparr>)"
  using assms unfolding arr_inv_def by (auto simp: accounted_def intro: le_trans)

lemma arr_inv_vu:
  assumes inv: "arr_inv mx cap a" and e: "exec_event sh (EVu i ab) (arr_sys a) = Some y"
  shows "arr_inv mx cap (a\<lparr>arr_sys := y\<rparr>)"
proof -
  let ?y = "arr_sys a" and ?v = "vu_tasks (arr_sys a) ! i"
  obtain s' v' where r: "vu_step sh ab (shared_state ?y) ?v = (s', v')" by fastforce
  with e have i: "i < length (vu_tasks ?y)" and y: "y = put_vu ?y i (s', v')" by (auto split: if_splits)
  have a: "is_arrival_rate (shared_state ?y)" and c: "\<forall>v \<in> set (vu_tasks ?y). cas_ok v"
    using inv by (auto simp: arr_inv_def)
  have "iteration_index ?v < u64_max"
    using idx_le_sum [OF i] arr_inv_bounds [OF inv]
    by (simp add: accounted_def sys_tokens_def i64_bounds u64_max_def)
  note st = arrival_vu_step [OF r a bspec [OF c nth_mem [OF i]] this]
  have "sys_tokens y = sys_tokens ?y"
    using st(1,2) cnt_put [OF i, of running "(s', v')"] idx_sum_put [OF i, of "(s', v')"]
    unfolding y sys_tokens_def by simp
  moreover have "\<forall>v \<in> set (vu_tasks y). cas_ok v" unfolding y using st(4) by (intro all_put [OF c]) simp
  ultimately show ?thesis using arr_inv_sys [OF inv, of y 0] st unfolding y by simp
qed

lemma arr_inv_unwind:
  assumes inv: "arr_inv mx cap a" and i: "i < length (vu_tasks (arr_sys a))"
    and r: "vu_unwind (shared_state (arr_sys a)) (vu_tasks (arr_sys a) ! i) = Some r
      \<or> vu_init_fail (shared_state (arr_sys a)) (vu_tasks (arr_sys a) ! i) = Some r"
  shows "arr_inv mx cap (a\<lparr>arr_sys := put_vu (arr_sys a) i r,
     lost_starts := lost_starts a + of_bool (running (vu_tasks (arr_sys a) ! i))\<rparr>)"
proof -
  have a: "is_arrival_rate (shared_state (arr_sys a))" and c: "\<forall>v \<in> set (vu_tasks (arr_sys a)). cas_ok v"
    using inv by (auto simp: arr_inv_def)
  note st = arrival_unwind [OF r a]
  have "sys_tokens (put_vu (arr_sys a) i r) + of_bool (running (vu_tasks (arr_sys a) ! i)) = sys_tokens (arr_sys a)"
    using st(1-4) cnt_put [OF i, of running r] idx_sum_put [OF i, of r] unfolding sys_tokens_def by simp
  with st all_put [OF c] show ?thesis by (intro arr_inv_sys [OF inv]) auto
qed

lemma spawn_tokens:
  "sys_tokens ((spawn_vu ^^ n) y) = sys_tokens y" "shared_state ((spawn_vu ^^ n) y) = shared_state y"
  "(\<forall>v \<in> set (vu_tasks y). cas_ok v) \<Longrightarrow> \<forall>v \<in> set (vu_tasks ((spawn_vu ^^ n) y)). cas_ok v"
proof (induction n)
  case (Suc n)
  case 1
  show ?case using Suc(1) by (simp add: sys_tokens_def cnt_spawn running_def new_vu_def)
next
  case (Suc n)
  case 2
  show ?case using Suc(2) by simp
next
  case (Suc n)
  case 3
  then show ?case using Suc(3) by (auto simp: spawn_vu_def alloc_vu_id_def cas_ok_def new_vu_def)
qed auto

lemma arr_inv_driver:
  assumes inv: "arr_inv mx cap a" and mx: "mx \<le> u32_max" and n: "n \<le> cap"
    and step: "driver_step mx n dead a = Some a'"
  shows "arr_inv mx cap a'"
proof (cases "arr_pc a")
  case APoll
  have valid: "stripe_valid cap (arr_stripe a)" using inv by (simp add: arr_inv_def)
  obtain st where st: "due_by (arr_stripe a) n = Some (Inr (st, as_released st))" "stripe_valid cap st"
    "as_released (arr_stripe a) \<le> as_released st" using stripe.due_returns [OF valid n] by blast
  have b: "accounted a = last_target a" "as_released (arr_stripe a) = last_target a"
    using inv APoll by (auto simp: arr_inv_def booked_def due_now_def)
  from APoll step st have a': "a' = a\<lparr>arr_stripe := st, arr_pc :=
      (if as_released st > last_target a then ALoad (as_released st) else AGrow (as_released st))\<rparr>"
    by (auto simp: driver_step_def split: if_splits)
  show ?thesis
    using inv st b unfolding a' by (auto simp: arr_inv_def accounted_def booked_def due_now_def)
next
  case (ALoad t)
  then have a': "a' = a\<lparr>arr_pc := AAdd t (arrival_tokens (shared_state (arr_sys a)))\<rparr>"
    using step by (simp add: driver_step_def)
  show ?thesis
    using inv ALoad unfolding a' by (auto simp: arr_inv_def accounted_def booked_def due_now_def)
next
  case (AAdd t c)
  let ?s = "shared_state (arr_sys a)" and ?k = "min (t - last_target a) (mx - c)"
  have k: "arrival_tokens ?s + ?k \<le> mx" using inv AAdd by (auto simp: arr_inv_def min_def)
  then have w: "wrap_u64 (arrival_tokens ?s + ?k) = arrival_tokens ?s + ?k"
    using mx by (intro wrap_u64_id) (simp add: u32_max_def u64_max_def)
  have a': "a' = a\<lparr>arr_sys := (arr_sys a)\<lparr>shared_state := ?s\<lparr>arrival_tokens := arrival_tokens ?s + ?k\<rparr>\<rparr>,
      arr_pc := ADrop t (mx - c)\<rparr>"
    using step AAdd w by (cases "0 < ?k") (auto simp: driver_step_def bucket_op_def Let_def)
  have "accounted a = last_target a" using inv AAdd by (simp add: arr_inv_def booked_def)
  then show ?thesis
    using inv AAdd k unfolding a'
    by (auto simp: arr_inv_def accounted_def booked_def due_now_def sys_tokens_def is_arrival_rate_def)
next
  case (ADrop t c)
  let ?s = "shared_state (arr_sys a)" and ?k = "(t - last_target a) - c"
  have acc: "accounted a = last_target a + min (t - last_target a) c" "last_target a \<le> t" "t \<le> cap"
    using inv ADrop stripe.released_le by (fastforce simp: arr_inv_def booked_def due_now_def)+
  then have "arrival_dropped ?s + ?k \<le> t" by (auto simp: accounted_def sys_tokens_def min_def split: if_splits)
  with acc(3) arr_inv_bounds(2) [OF inv] have w: "wrap_u64 (arrival_dropped ?s + ?k) = arrival_dropped ?s + ?k"
    by (intro wrap_u64_id) (simp add: i64_bounds u64_max_def)
  have a': "a' = a\<lparr>arr_sys := (arr_sys a)\<lparr>shared_state := ?s\<lparr>arrival_dropped := arrival_dropped ?s + ?k\<rparr>\<rparr>,
      arr_pc := AGrow t\<rparr>"
    using step ADrop w by (cases "0 < ?k") (auto simp: driver_step_def bucket_op_def Let_def)
  show ?thesis
    using inv ADrop acc unfolding a'
    by (auto simp: arr_inv_def accounted_def booked_def due_now_def sys_tokens_def is_arrival_rate_def)
next
  case (AGrow t)
  then obtain k where a': "a' = a\<lparr>arr_sys := (spawn_vu ^^ k) (arr_sys a), current_vus := current_vus a + k, arr_pc := AReap t\<rparr>"
    using step by (auto simp: driver_step_def grow_arrival_pool_def Let_def)
  show ?thesis
    using inv AGrow spawn_tokens [where n = k and y = "arr_sys a"] unfolding a'
    by (simp add: arr_inv_def accounted_def booked_def due_now_def)
next
  case (AReap t)
  then have a': "a' = a\<lparr>arr_sys := (spawn_vu ^^ dead) (arr_sys a), last_target := t, arr_pc := APoll\<rparr>"
    using step by (simp add: driver_step_def)
  show ?thesis
    using inv AReap spawn_tokens [where n = dead and y = "arr_sys a"] unfolding a'
    by (simp add: arr_inv_def accounted_def booked_def due_now_def)
qed

lemma arr_inv_op:
  assumes "arr_inv mx cap a" and "p \<in> {OpStop, OpForceStop, OpPause b}"
  shows "arr_inv mx cap (bucket_op p a)"
  using assms
  by (auto simp: bucket_op_def arr_inv_def accounted_def sys_tokens_def is_arrival_rate_def sched_ops)

lemma arr_inv_event:
  assumes inv: "arr_inv mx cap a" and mx: "mx \<le> u32_max" and n: "\<And>n dead. e = DriverStep n dead \<Longrightarrow> n \<le> cap"
    and e: "arr_event_step sh mx e a = Some a'"
  shows "arr_inv mx cap a'"
proof (cases e)
  case (DriverStep n dead)
  with arr_inv_driver [OF inv mx n] e show ?thesis by simp
next
  case (VuStep i ab)
  with e obtain y where "exec_event sh (EVu i ab) (arr_sys a) = Some y" "a' = a\<lparr>arr_sys := y\<rparr>"
    by (auto simp: arr_put_def simp del: exec_event.simps)
  with arr_inv_vu [OF inv] show ?thesis by blast
next
  case (VuPanic i)
  with e arr_inv_unwind [OF inv, of i] show ?thesis
    by (auto simp: running_def split: if_splits option.splits)
next
  case (VuFail i)
  with e obtain r where i: "i < length (vu_tasks (arr_sys a))"
    and r: "vu_init_fail (shared_state (arr_sys a)) (vu_tasks (arr_sys a) ! i) = Some r"
    and a': "a' = a\<lparr>arr_sys := put_vu (arr_sys a) i r\<rparr>"
    by (auto simp: arr_put_def split: if_splits)
  have "\<not> running (vu_tasks (arr_sys a) ! i)" using r by (auto simp: vu_init_fail_def running_def split: if_splits)
  with arr_inv_unwind [OF inv i, of r] r show ?thesis unfolding a' by simp
next
  case SampleDrops
  with e inv show ?thesis
    by (auto simp: take_dropped_iterations_def arr_inv_def accounted_def sys_tokens_def is_arrival_rate_def)
qed (use e arr_inv_op [OF inv] in auto)

text \<open>C2. No arrival is lost or invented. For a node with any slice of the global arrivals, in
  every interleaving of the token-bucket loop with any number of VUs, panics, aborts, failed
  initialisations, stops and drop samples: whenever the loop is at its poll, the arrivals that
  have fallen due are exactly the tokens still queued, plus the iterations running, completed
  and lost to a panic, plus the drops counted and already reported; and the bucket never holds
  more than the maximum pool size.\<close>

theorem arrivals_conserved:
  assumes "stripe_valid cap st" and "as_released st = 0" and "mx \<le> u32_max"
    and "is_arrival_rate (new_sched cfg now)"
    and "arr_reach sh mx cap (arrival_start (with_arrival_stripe st (new_sched cfg now)) pre) a"
  shows "arrival_tokens (shared_state (arr_sys a)) \<le> mx
    \<and> (arr_pc a = APoll \<longrightarrow>
        arrival_tokens (shared_state (arr_sys a)) + cnt running (arr_sys a) + idx_sum (arr_sys a)
        + lost_starts a + arrival_dropped (shared_state (arr_sys a)) + reported_drops a = last_target a
        \<and> as_released (arr_stripe a) = last_target a)"
proof -
  let ?y = "\<lparr>shared_state = with_arrival_stripe st (new_sched cfg now), vu_tasks = [], next_vu_id = 0\<rparr>"
  have "arr_inv mx cap (arrival_start (with_arrival_stripe st (new_sched cfg now)) pre)"
    using assms(1,2,4) spawn_tokens [where n = "max pre 1" and y = ?y]
    by (auto simp: arr_inv_def arrival_start_def with_arrival_stripe_def new_sched_def due_now_def booked_def
        accounted_def sys_tokens_def idx_sum_def cnt_def is_arrival_rate_def)
  with assms(5) have "arr_inv mx cap a"
    by (induction rule: arr_reach.induct) (auto intro: arr_inv_event [OF _ assms(3)])
  then show ?thesis
    by (auto simp: arr_inv_def accounted_def booked_def sys_tokens_def due_now_def)
qed

fun arr_run :: "run_shared \<Rightarrow> nat \<Rightarrow> arr_event list \<Rightarrow> 't arrival \<Rightarrow> 't arrival option" where
  "arr_run sh mx [] a = Some a"
| "arr_run sh mx (e # es) a = (case arr_event_step sh mx e a of None \<Rightarrow> None | Some a' \<Rightarrow> arr_run sh mx es a')"

lemma arr_run_reach:
  assumes "arr_run sh mx es a = Some a'" and "arr_reach sh mx cap a0 a"
    and "\<forall>e \<in> set es. case e of DriverStep n dead \<Rightarrow> n \<le> cap | _ \<Rightarrow> True"
  shows "arr_reach sh mx cap a0 a'"
  using assms
proof (induction es arbitrary: a)
  case (Cons e es)
  then obtain a1 where a1: "arr_event_step sh mx e a = Some a1" "arr_run sh mx es a1 = Some a'"
    by (auto split: option.splits)
  have "arr_reach sh mx cap a0 a1" using Cons.prems(3) by (intro arr_step [OF Cons.prems(2) _ a1(1)]) auto
  with Cons.IH [OF a1(2)] Cons.prems(3) show ?case by simp
qed simp

definition one_vu_rate :: "unit execution_config" where
  "one_vu_rate = ConstantArrivalRate 2 ''1s'' ''10s'' 1 1 None ()"

definition no_budget :: run_shared where
  "no_budget = \<lparr>rs_total_iterations = u64_max, is_per_vu_iterations = False\<rparr>"

text \<open>Two arrivals fall due, the bucket holds one, the VU takes it: one drop, one iteration.\<close>

definition bucket_events :: "arr_event list" where
  "bucket_events = replicate 6 (DriverStep 2 0) @ replicate 10 (VuStep 0 False) @ [SampleDrops, VuStep 0 False]"

theorem arrivals_conserved_witness:
  "\<exists>a. arr_reach no_budget 1 1000 (arrival_start (with_arrival_stripe full_stripe (new_sched one_vu_rate 0)) 1) a
     \<and> arr_pc a = APoll \<and> last_target a = 2 \<and> reported_drops a = 1
     \<and> arrival_tokens (shared_state (arr_sys a)) + cnt running (arr_sys a) + idx_sum (arr_sys a)
        + lost_starts a + arrival_dropped (shared_state (arr_sys a)) + reported_drops a = 2"
proof -
  let ?a0 = "arrival_start (with_arrival_stripe full_stripe (new_sched one_vu_rate 0)) 1"
  have "map_option (\<lambda>a. (arr_pc a, last_target a, reported_drops a)) (arr_run no_budget 1 bucket_events ?a0)
      = Some (APoll, 2, 1)" by code_simp
  then obtain a where run: "arr_run no_budget 1 bucket_events ?a0 = Some a"
    and a: "arr_pc a = APoll" "last_target a = 2" "reported_drops a = 1" by auto
  have r: "arr_reach no_budget 1 1000 ?a0 a"
    by (rule arr_run_reach [OF run arr_refl]) (simp add: bucket_events_def)
  have c: "full_stripe = cursor 1 [0] 0" by code_simp
  have v: "stripe_valid 1000 full_stripe" "as_released full_stripe = 0"
    unfolding stripe_valid_def
    by (rule exI [of _ 1], rule exI [of _ "[0]"], rule exI [of _ 0])
      (simp_all add: c cycle_ok_def i64_bounds, simp add: cursor_def)
  have "is_arrival_rate (new_sched one_vu_rate 0)" by code_simp
  from arrivals_conserved [OF v _ this r] a r show ?thesis by (auto simp: u32_max_def)
qed

section \<open>A ramped rate\<close>

text \<open>Durations are parsed to nanoseconds by the SDK, a parameter here; a stage that does not parse counts as ten seconds.\<close>

definition secs :: "nat \<Rightarrow> rat" where
  "secs nanos = of_nat nanos / 1000000000"

fun stage_data :: "(string \<Rightarrow> 'e + nat) \<Rightarrow> rat \<Rightarrow> arrival_rate_stage list \<Rightarrow> (rat \<times> rat \<times> rat) list" where
  "stage_data parse_duration prev_target [] = []"
| "stage_data parse_duration prev_target (st # sts) =
     (let dur = (case parse_duration (rate_duration st) of Inl _ \<Rightarrow> 10000000000 | Inr d \<Rightarrow> d);
          dur' = max dur 1000000
      in (secs dur', prev_target, rate_target st) # stage_data parse_duration (rate_target st) sts)"

fun prefix_sums_from :: "rat \<Rightarrow> (rat \<times> rat \<times> rat) list \<Rightarrow> rat list" where
  "prefix_sums_from c [] = [c]"
| "prefix_sums_from c ((dur, s, e) # ds) = c # prefix_sums_from (c + (s + e) * dur / 2) ds"

fun cumulative_from :: "rat \<Rightarrow> (rat \<times> rat \<times> rat) list \<Rightarrow> rat list" where
  "cumulative_from d [] = [d]"
| "cumulative_from d ((dur, s, e) # ds) = d # cumulative_from (d + dur) ds"

definition partition_point :: "('a \<Rightarrow> bool) \<Rightarrow> 'a list \<Rightarrow> nat" where
  "partition_point P xs = length (takeWhile P xs)"

definition tokens_at :: "rat \<Rightarrow> (rat \<times> rat \<times> rat) list \<Rightarrow> rat \<Rightarrow> rat" where
  "tokens_at start_rate data elapsed =
     (if data = [] then elapsed * start_rate
      else (let prefix_sums = prefix_sums_from 0 data; cumulative_duration = cumulative_from 0 data;
                idx = (case partition_point (\<lambda>d. d \<le> elapsed) cumulative_duration of 0 \<Rightarrow> 0 | Suc i \<Rightarrow> i);
                area_before = prefix_sums ! idx; remaining = elapsed - cumulative_duration ! idx
            in if idx \<ge> length data then area_before + remaining * snd (snd (last data))
               else (let (dur, s, e) = data ! idx
                     in if remaining \<ge> dur then area_before + (s + e) * dur / 2
                        else (let p = remaining / dur in area_before + dur * (s * p + (e - s) * p * p / 2)))))"

text \<open>The specification: the integral of the piecewise linear rate, stage by stage.\<close>

fun rate_integral :: "rat \<Rightarrow> (rat \<times> rat \<times> rat) list \<Rightarrow> rat \<Rightarrow> rat" where
  "rate_integral final [] t = t * final"
| "rate_integral final ((dur, s, e) # ds) t =
     (if t < dur then s * t + (e - s) * t * t / (2 * dur)
      else (s + e) * dur / 2 + rate_integral e ds (t - dur))"

definition durations_pos :: "(rat \<times> rat \<times> rat) list \<Rightarrow> bool" where
  "durations_pos data \<longleftrightarrow> (\<forall>(dur, s, e) \<in> set data. 0 < dur)"

lemma stage_data_pos: "durations_pos (stage_data pd r sts)"
  by (induction pd r sts rule: stage_data.induct) (auto simp: durations_pos_def secs_def Let_def)

text \<open>The look-up, from any offset: area \<open>c\<close> and time \<open>d\<close> already behind.\<close>

definition tokens_from :: "rat \<Rightarrow> rat \<Rightarrow> rat \<Rightarrow> (rat \<times> rat \<times> rat) list \<Rightarrow> rat \<Rightarrow> rat" where
  "tokens_from final c d data elapsed =
     (let idx = partition_point (\<lambda>x. x \<le> elapsed) (cumulative_from d data) - 1;
          area_before = prefix_sums_from c data ! idx; remaining = elapsed - cumulative_from d data ! idx
      in if idx \<ge> length data then area_before + remaining * (if data = [] then final else snd (snd (last data)))
         else (let (dur, s, e) = data ! idx
               in if remaining \<ge> dur then area_before + (s + e) * dur / 2
                  else (let p = remaining / dur in area_before + dur * (s * p + (e - s) * p * p / 2))))"

lemma cumulative_hd: "cumulative_from d data = d # tl (cumulative_from d data)"
  by (cases data) auto

lemma tokens_from_integral:
  assumes "durations_pos data" and "d \<le> t"
  shows "tokens_from final c d data t = c + rate_integral final data (t - d)"
  using assms
proof (induction data arbitrary: final c d)
  case Nil
  then show ?case by (simp add: tokens_from_def partition_point_def Let_def)
next
  case (Cons x data)
  obtain dur s e where x: "x = (dur, s, e)" by (cases x)
  have pos: "0 < dur" "durations_pos data" using Cons.prems x by (auto simp: durations_pos_def)
  show ?case
  proof (cases "t - d < dur")
    case True
    have "partition_point (\<lambda>x. x \<le> t) (cumulative_from d (x # data)) = 1"
      using True Cons.prems(2) by (simp add: x partition_point_def) (subst cumulative_hd, simp)
    then show ?thesis using True pos Cons.prems(2)
      by (simp add: x tokens_from_def Let_def field_simps power2_eq_square)
  next
    case False
    let ?k = "partition_point (\<lambda>x. x \<le> t) (cumulative_from (d + dur) data)"
    have "0 < ?k" using False by (subst cumulative_hd) (simp add: partition_point_def)
    then obtain k where k: "?k = Suc k" by (cases ?k) auto
    have "partition_point (\<lambda>x. x \<le> t) (cumulative_from d (x # data)) = Suc (Suc k)"
      using Cons.prems(2) k by (simp add: x partition_point_def)
    then have "tokens_from final c d (x # data) t = tokens_from e (c + (s + e) * dur / 2) (d + dur) data t"
      using k by (simp add: x tokens_from_def Let_def split: prod.split)
    also have "\<dots> = c + (s + e) * dur / 2 + rate_integral e data (t - (d + dur))"
      using False pos(2) by (intro Cons.IH) auto
    finally show ?thesis using False by (simp add: x algebra_simps)
  qed
qed

lemma case_nat_pred: "(case n of 0 \<Rightarrow> 0 | Suc i \<Rightarrow> i) = n - 1"
  by (cases n) auto

lemma tokens_at_integral:
  assumes "durations_pos data" and "0 \<le> t"
  shows "tokens_at start_rate data t = rate_integral start_rate data t"
proof (cases data)
  case Nil
  then show ?thesis by (simp add: tokens_at_def)
next
  case (Cons x data')
  then have "tokens_at start_rate data t = tokens_from start_rate 0 0 data t"
    unfolding tokens_at_def tokens_from_def case_nat_pred Let_def by simp
  with tokens_from_integral [OF assms, of start_rate 0] show ?thesis by simp
qed

text \<open>C10. The prefix-sum look-up computes the integral of the rate curve: for every list of stages,
  whatever the durations parse to, and every elapsed time, \<^verbatim>\<open>tokens_at\<close> is the area under the
  piecewise linear rate from the start rate through the stage targets, continued at the last
  target.\<close>

theorem tokens_at_is_integral:
  assumes "0 \<le> t"
  shows "tokens_at start_rate (stage_data parse_duration start_rate stages) t
    = rate_integral start_rate (stage_data parse_duration start_rate stages) t"
  by (rule tokens_at_integral [OF stage_data_pos assms])

definition toy_duration :: "string \<Rightarrow> unit + nat" where
  "toy_duration str = (case parse_digits str of None \<Rightarrow> Inl () | Some n \<Rightarrow> Inr (n * 1000000000))"

theorem tokens_at_is_integral_witness:
  "tokens_at 0 (stage_data toy_duration 0 [\<lparr>rate_duration = ''10'', rate_target = 20\<rparr>]) 5
     = rate_integral 0 (stage_data toy_duration 0 [\<lparr>rate_duration = ''10'', rate_target = 20\<rparr>]) 5
   \<and> tokens_at 0 (stage_data toy_duration 0 [\<lparr>rate_duration = ''10'', rate_target = 20\<rparr>]) 5 = 25"
proof -
  have "tokens_at 0 (stage_data toy_duration 0 [\<lparr>rate_duration = ''10'', rate_target = 20\<rparr>]) 5 = 25" by code_simp
  with tokens_at_is_integral [of 5 0 toy_duration "[\<lparr>rate_duration = ''10'', rate_target = 20\<rparr>]"] show ?thesis by simp
qed

definition rates_nonneg :: "(rat \<times> rat \<times> rat) list \<Rightarrow> bool" where
  "rates_nonneg data \<longleftrightarrow> (\<forall>(dur, s, e) \<in> set data. 0 \<le> s \<and> 0 \<le> e)"

lemma stage_data_nonneg:
  "0 \<le> r \<Longrightarrow> (\<forall>st \<in> set sts. 0 \<le> rate_target st) \<Longrightarrow> rates_nonneg (stage_data pd r sts)"
  by (induction pd r sts rule: stage_data.induct) (auto simp: rates_nonneg_def Let_def)

text \<open>Within a stage the area grows, and it stays below the area of the whole stage.\<close>

lemma partial_area_mono:
  fixes s e dur a b :: rat
  assumes "0 \<le> s" "0 \<le> e" "0 < dur" "0 \<le> a" "a \<le> b" "b \<le> dur"
  shows "s * a + (e - s) * a * a / (2 * dur) \<le> s * b + (e - s) * b * b / (2 * dur)"
proof -
  let ?q = "(a + b) / (2 * dur)"
  have q: "0 \<le> ?q" "?q \<le> 1" using assms by (auto simp: divide_simps)
  have "0 \<le> s * (1 - ?q) + e * ?q" using assms(1,2) q by (intro add_nonneg_nonneg mult_nonneg_nonneg) auto
  then have "0 \<le> (b - a) * (s * (1 - ?q) + e * ?q)" using assms(5) by (intro mult_nonneg_nonneg) auto
  also have "\<dots> = (s * b + (e - s) * b * b / (2 * dur)) - (s * a + (e - s) * a * a / (2 * dur))"
    using assms(3) by (simp add: divide_simps) (simp add: algebra_simps)
  finally show ?thesis by simp
qed

lemma rate_integral_nonneg:
  "durations_pos data \<Longrightarrow> rates_nonneg data \<Longrightarrow> 0 \<le> final \<Longrightarrow> 0 \<le> t \<Longrightarrow> 0 \<le> rate_integral final data t"
proof (induction final data t rule: rate_integral.induct)
  case (2 final dur s e ds t)
  then have "0 < dur" "0 \<le> s" "0 \<le> e" "durations_pos ds" "rates_nonneg ds"
    by (auto simp: durations_pos_def rates_nonneg_def)
  with 2 partial_area_mono [of s e dur 0 t] show ?case by auto
qed simp

lemma rate_integral_mono:
  assumes "durations_pos data" "rates_nonneg data" "0 \<le> final" "0 \<le> a" "a \<le> b"
  shows "rate_integral final data a \<le> rate_integral final data b"
  using assms
proof (induction data arbitrary: final a b)
  case Nil
  then show ?case by (simp add: mult_right_mono)
next
  case (Cons x ds)
  obtain dur s e where x: "x = (dur, s, e)" by (cases x)
  have f: "0 < dur" "0 \<le> s" "0 \<le> e" "durations_pos ds" "rates_nonneg ds"
    using Cons.prems x by (auto simp: durations_pos_def rates_nonneg_def)
  have full: "s * dur + (e - s) * dur * dur / (2 * dur) = (s + e) * dur / 2" using f(1) by (simp add: field_simps)
  consider "b < dur" | "a < dur" "dur \<le> b" | "dur \<le> a" using Cons.prems(5) by linarith
  then show ?case
  proof cases
    case 1
    then show ?thesis using Cons.prems partial_area_mono [OF f(2,3,1) Cons.prems(4,5)] by (simp add: x)
  next
    case 2
    have "s * a + (e - s) * a * a / (2 * dur) \<le> (s + e) * dur / 2"
      using partial_area_mono [OF f(2,3,1) Cons.prems(4), of dur] 2 unfolding full by simp
    moreover have "0 \<le> rate_integral e ds (b - dur)" using f 2 by (intro rate_integral_nonneg) auto
    ultimately have "s * a + (e - s) * a * a / (2 * dur) \<le> (s + e) * dur / 2 + rate_integral e ds (b - dur)"
      by linarith
    then show ?thesis using 2 by (simp add: x)
  next
    case 3
    then show ?thesis using Cons.IH [OF f(4,5,3), of "a - dur" "b - dur"] Cons.prems(5) by (simp add: x)
  qed
qed

text \<open>The arrival count the ramping executor feeds to its cursor never decreases, which is
  what the cursor requires: for rates that are not negative, \<^verbatim>\<open>tokens_at\<close> is monotone in the
  elapsed time, and so is its integer part.\<close>

theorem tokens_at_mono:
  assumes "0 \<le> start_rate" and "\<forall>st \<in> set stages. 0 \<le> rate_target st" and "0 \<le> t" "t \<le> t'"
  shows "tokens_at start_rate (stage_data parse_duration start_rate stages) t
      \<le> tokens_at start_rate (stage_data parse_duration start_rate stages) t'
    \<and> nat \<lfloor>tokens_at start_rate (stage_data parse_duration start_rate stages) t\<rfloor>
      \<le> nat \<lfloor>tokens_at start_rate (stage_data parse_duration start_rate stages) t'\<rfloor>"
proof -
  let ?data = "stage_data parse_duration start_rate stages"
  note tokens_at_integral [OF stage_data_pos [of parse_duration start_rate stages]]
  then have "tokens_at start_rate ?data t \<le> tokens_at start_rate ?data t'"
    using rate_integral_mono [OF stage_data_pos stage_data_nonneg [OF assms(1,2)] assms(1,3,4)] assms(3,4) by simp
  then show ?thesis by (auto intro: nat_mono floor_mono)
qed

theorem tokens_at_mono_witness:
  "tokens_at 0 (stage_data toy_duration 0 [\<lparr>rate_duration = ''10'', rate_target = 20\<rparr>]) 5
   \<le> tokens_at 0 (stage_data toy_duration 0 [\<lparr>rate_duration = ''10'', rate_target = 20\<rparr>]) 12"
  using tokens_at_mono [of 0 "[\<lparr>rate_duration = ''10'', rate_target = 20\<rparr>]" 5 12 toy_duration] by simp

end
