(* ===== verification/Dispatch.thy ===== *)
theory Dispatch
  imports Arrival_Exec
begin

text \<open>
  Validation and dispatch of a load profile (\<^verbatim>\<open>validate_execution_config\<close> and the \<^verbatim>\<open>match\<close> of \<^verbatim>\<open>run\<close>,
  \<^verbatim>\<open>crates/tropel-scheduler/src/scheduler.rs\<close>). Parsing of durations is the SDK's, a parameter \<open>pd\<close>.
\<close>

section \<open>Validation and dispatch\<close>

datatype 'e exec_error =
  SdkError 'e | DurationTooShort string | StartVusTooLarge | TargetTooLarge nat | BadTimeUnit string

definition lift_sdk :: "'e + 'a \<Rightarrow> 'e exec_error + 'a" where
  "lift_sdk r = (case r of Inl e \<Rightarrow> Inl (SdkError e) | Inr x \<Rightarrow> Inr x)"

definition thirty_seconds :: nat where "thirty_seconds = 30000000000"
definition ten_minutes :: nat where "ten_minutes = 600000000000"
definition max_concurrent_vus :: nat where "max_concurrent_vus = 100000000"

definition graceful_stop_duration :: "(string \<Rightarrow> 'e + nat) \<Rightarrow> string option \<Rightarrow> nat" where
  "graceful_stop_duration pd s =
     (case s of
        Some str \<Rightarrow> if trim str \<noteq> [] then (case pd str of Inl _ \<Rightarrow> thirty_seconds | Inr d \<Rightarrow> d) else thirty_seconds
      | None \<Rightarrow> thirty_seconds)"

definition time_unit_seconds :: "(string \<Rightarrow> 'e + nat) \<Rightarrow> string \<Rightarrow> 'e exec_error + rat" where
  "time_unit_seconds pd tu =
     bindE (lift_sdk (pd tu)) (\<lambda>d. let s = secs d in if s \<le> 0 then Inl (BadTimeUnit tu) else Inr s)"

definition rate_per_second :: "(string \<Rightarrow> 'e + nat) \<Rightarrow> rat \<Rightarrow> string \<Rightarrow> 'e exec_error + rat" where
  "rate_per_second pd rate tu = bindE (time_unit_seconds pd tu) (\<lambda>s. Inr (rate / s))"

definition floor_run_duration :: "(string \<Rightarrow> 'e + nat) \<Rightarrow> string \<Rightarrow> 'e exec_error + unit" where
  "floor_run_duration pd d =
     bindE (lift_sdk (pd d)) (\<lambda>parsed.
     bindE (lift_sdk (pd ''1s'')) (\<lambda>floor.
       if parsed < floor then Inl (DurationTooShort d) else Inr ()))"

fun validate_stages :: "(string \<Rightarrow> 'e + nat) \<Rightarrow> nat \<Rightarrow> stage list \<Rightarrow> 'e exec_error + unit" where
  "validate_stages pd i [] = Inr ()"
| "validate_stages pd i (st # sts) =
     bindE (lift_sdk (pd (stage_duration st))) (\<lambda>_.
       if stage_target st > max_concurrent_vus then Inl (TargetTooLarge (i + 1))
       else validate_stages pd (i + 1) sts)"

fun validate_rate_stages :: "(string \<Rightarrow> 'e + nat) \<Rightarrow> arrival_rate_stage list \<Rightarrow> 'e exec_error + unit" where
  "validate_rate_stages pd [] = Inr ()"
| "validate_rate_stages pd (st # sts) =
     bindE (lift_sdk (pd (rate_duration st))) (\<lambda>_. validate_rate_stages pd sts)"

definition opt_floor :: "(string \<Rightarrow> 'e + nat) \<Rightarrow> string option \<Rightarrow> 'e exec_error + unit" where
  "opt_floor pd d = (case d of Some s \<Rightarrow> floor_run_duration pd s | None \<Rightarrow> Inr ())"

fun validate_execution_config :: "(string \<Rightarrow> 'e + nat) \<Rightarrow> 't execution_config \<Rightarrow> 'e exec_error + unit" where
  "validate_execution_config pd (ConstantVus vus duration gs tt) = floor_run_duration pd duration"
| "validate_execution_config pd (ConstantArrivalRate rate tu duration pre mx gs tt) =
     bindE (floor_run_duration pd duration) (\<lambda>_. bindE (time_unit_seconds pd tu) (\<lambda>_. Inr ()))"
| "validate_execution_config pd (RampingVus stages start_vus grd gs tt) =
     (if start_vus > max_concurrent_vus then Inl StartVusTooLarge else validate_stages pd 0 stages)"
| "validate_execution_config pd (RampingArrivalRate start stages tu pre mx gs tt) =
     bindE (validate_rate_stages pd stages) (\<lambda>_. bindE (time_unit_seconds pd tu) (\<lambda>_. Inr ()))"
| "validate_execution_config pd (SharedIterations iters md vus gs tt) = opt_floor pd md"
| "validate_execution_config pd (PerVUIterations vus iters md gs tt) = opt_floor pd md"
| "validate_execution_config pd (ExternallyControlled vus mx duration gs tt) = opt_floor pd duration"

text \<open>The call that \<^verbatim>\<open>run\<close> makes, with its arguments.\<close>

datatype run_call =
    RunConstant nat nat nat
  | RunRamping nat "stage list" nat nat
  | RunShared nat "nat option" nat
  | RunArrival rat nat nat nat nat
  | RunPerVu nat nat "nat option" nat
  | RunRampingArrival rat "arrival_rate_stage list" nat nat nat
  | RunExternal nat nat "nat option" nat

definition max_duration_of :: "(string \<Rightarrow> 'e + nat) \<Rightarrow> string option \<Rightarrow> 'e exec_error + nat option" where
  "max_duration_of pd md =
     (case md of Some d \<Rightarrow> bindE (lift_sdk (pd d)) (\<lambda>x. Inr (Some x)) | None \<Rightarrow> Inr (Some ten_minutes))"

fun run_match :: "(string \<Rightarrow> 'e + nat) \<Rightarrow> 't execution_config \<Rightarrow> 'e exec_error + run_call" where
  "run_match pd (ConstantVus vus duration gs tt) =
     bindE (lift_sdk (pd duration)) (\<lambda>d. Inr (RunConstant vus d (graceful_stop_duration pd gs)))"
| "run_match pd (RampingVus stages start_vus grd gs tt) =
     Inr (RunRamping start_vus stages (graceful_stop_duration pd grd) (graceful_stop_duration pd gs))"
| "run_match pd (SharedIterations iters md vus gs tt) =
     bindE (max_duration_of pd md) (\<lambda>m. Inr (RunShared iters m (graceful_stop_duration pd gs)))"
| "run_match pd (ConstantArrivalRate rate tu duration pre mx gs tt) =
     bindE (lift_sdk (pd duration)) (\<lambda>d.
     bindE (rate_per_second pd rate tu) (\<lambda>r. Inr (RunArrival r pre mx d (graceful_stop_duration pd gs))))"
| "run_match pd (PerVUIterations vus iters md gs tt) =
     bindE (max_duration_of pd md) (\<lambda>m. Inr (RunPerVu vus iters m (graceful_stop_duration pd gs)))"
| "run_match pd (RampingArrivalRate start stages tu pre mx gs tt) =
     bindE (time_unit_seconds pd tu) (\<lambda>scale.
       Inr (RunRampingArrival (start / scale)
         (map (\<lambda>s. \<lparr>rate_duration = rate_duration s, rate_target = rate_target s / scale\<rparr>) stages)
         pre mx (graceful_stop_duration pd gs)))"
| "run_match pd (ExternallyControlled vus mx duration gs tt) =
     bindE (case duration of Some d \<Rightarrow> bindE (lift_sdk (pd d)) (\<lambda>x. Inr (Some x)) | None \<Rightarrow> Inr None) (\<lambda>d.
       Inr (RunExternal vus mx d (graceful_stop_duration pd gs)))"

definition run_dispatch :: "(string \<Rightarrow> 'e + nat) \<Rightarrow> 't execution_config \<Rightarrow> 'e exec_error + run_call" where
  "run_dispatch pd cfg = bindE (validate_execution_config pd cfg) (\<lambda>_. run_match pd cfg)"

lemma lift_sdk_Inr [simp]: "lift_sdk r = Inr x \<longleftrightarrow> r = Inr x"
  by (auto simp: lift_sdk_def split: sum.splits)

lemma floor_run_duration_Inr: "floor_run_duration pd d = Inr u \<Longrightarrow> \<exists>x y. pd d = Inr x \<and> pd ''1s'' = Inr y \<and> y \<le> x"
  by (auto simp: floor_run_duration_def not_less split: if_splits)

text \<open>C19. A load profile that passes validation is dispatched: after the central check no branch of
  \<^verbatim>\<open>run\<close> can fail any more, whatever the SDK's duration parser does, so an error is always
  raised before the first VU is started. The run length handed to a duration-based executor is
  at least the parsed \<^verbatim>\<open>1s\<close>.\<close>

theorem validated_config_runs:
  assumes "validate_execution_config pd cfg = Inr ()"
  shows "\<exists>call. run_match pd cfg = Inr call \<and> run_dispatch pd cfg = Inr call
    \<and> (\<forall>vus d g. call = RunConstant vus d g \<longrightarrow> (\<exists>one. pd ''1s'' = Inr one \<and> one \<le> d))
    \<and> (\<forall>r pre mx d g. call = RunArrival r pre mx d g \<longrightarrow> (\<exists>one. pd ''1s'' = Inr one \<and> one \<le> d))"
  using assms
  by (cases cfg) (auto simp: run_dispatch_def max_duration_of_def opt_floor_def rate_per_second_def
      split: option.splits dest!: floor_run_duration_Inr)

definition toy_seconds :: "string \<Rightarrow> unit + nat" where
  "toy_seconds str = (case strip_suffix ''s'' str of None \<Rightarrow> Inl ()
     | Some n \<Rightarrow> (case parse_digits n of None \<Rightarrow> Inl () | Some k \<Rightarrow> Inr (k * 1000000000)))"

theorem validated_config_runs_witness:
  "validate_execution_config toy_seconds (ConstantArrivalRate 100 ''60s'' ''30s'' 1 10 None ()) = Inr ()
   \<and> (\<exists>call. run_dispatch toy_seconds (ConstantArrivalRate 100 ''60s'' ''30s'' 1 10 None ()) = Inr call)
   \<and> run_dispatch toy_seconds (ConstantArrivalRate 100 ''60s'' ''30s'' 1 10 None ())
       = Inr (RunArrival (100 / 60) 1 10 30000000000 30000000000)"
proof -
  have v: "validate_execution_config toy_seconds (ConstantArrivalRate 100 ''60s'' ''30s'' 1 10 None ()) = Inr ()"
    and r: "run_dispatch toy_seconds (ConstantArrivalRate 100 ''60s'' ''30s'' 1 10 None ())
       = Inr (RunArrival (100 / 60) 1 10 30000000000 30000000000)"
    by code_simp+
  from validated_config_runs [OF v] v r show ?thesis by blast
qed

end
