(* ===== verification/Executors.thy ===== *)
theory Executors
  imports Ramp_Down Dispatch
begin

text \<open>
  The driver loops of the VU-pool executors with their task handles
  (\<^verbatim>\<open>run_constant\<close>, \<^verbatim>\<open>run_ramping\<close>, \<^verbatim>\<open>run_shared_iterations\<close>, \<^verbatim>\<open>run_per_vu_iterations\<close>, the drains and
  the bounded join of \<^verbatim>\<open>crates/tropel-scheduler/src/scheduler.rs\<close>).

  A loop reads the clock and the shared state, acts, and sleeps. What the rest of the process
  does while it sleeps is a parameter \<open>env\<close>, one call per timer poll, and the readings of the
  monotonic clock are a parameter \<open>clock\<close> (nanoseconds at the \<open>k\<close>-th poll). The loops are
  partial functions; that they return is proved.
\<close>

section \<open>Handles and polling\<close>

record handle =
  h_id :: nat
  h_finished :: bool
  h_aborted :: bool

record 't world =
  w_sched :: "'t sched"
  w_handles :: "handle list"
  w_next_id :: nat
  w_polls :: nat

type_synonym 't environment = "nat \<Rightarrow> 't world \<Rightarrow> 't world"

definition elapse :: "'t environment \<Rightarrow> 't world \<Rightarrow> 't world" where
  "elapse env w = (env (w_polls w) w)\<lparr>w_polls := Suc (w_polls w)\<rparr>"

definition now :: "(nat \<Rightarrow> nat) \<Rightarrow> 't world \<Rightarrow> nat" where
  "now clock w = clock (w_polls w)"

definition on_sched :: "('t sched \<Rightarrow> 't sched) \<Rightarrow> 't world \<Rightarrow> 't world" where
  "on_sched f w = w\<lparr>w_sched := f (w_sched w)\<rparr>"

definition spawn_task :: "'t world \<Rightarrow> 't world" where
  "spawn_task w = w\<lparr>w_next_id := wrap_u32 (w_next_id w + 1),
     w_handles := w_handles w @ [\<lparr>h_id = w_next_id w, h_finished = False, h_aborted = False\<rparr>]\<rparr>"

definition spawn_tasks :: "nat \<Rightarrow> 't world \<Rightarrow> 't world" where
  "spawn_tasks n w = (spawn_task ^^ n) w"

definition reap_interval :: nat where "reap_interval = 100000000"

definition reap_and_respawn :: "(nat \<Rightarrow> nat) \<Rightarrow> 't world \<Rightarrow> 't world" where
  "reap_and_respawn clock w =
     (if stopping (w_sched w) then w
      else if ramp_down_target (w_sched w) \<noteq> u32_max then w
      else if now clock w - last_reap (w_sched w) < reap_interval then w
      else (let w1 = on_sched (do_op (OpReapStamp (now clock w))) w;
                dead = length (filter h_finished (w_handles w1));
                w2 = w1\<lparr>w_handles := filter (\<lambda>h. \<not> h_finished h) (w_handles w1)\<rparr>
            in if dead = 0 then w2 else spawn_tasks dead w2))"

definition ms :: "nat \<Rightarrow> nat" where "ms n = n * 1000000"

text \<open>
  Timers: \<^verbatim>\<open>sleep_until\<close> returns at once for a time already past, and \<open>select_timeout\<close> is a
  \<^verbatim>\<open>select!\<close> or \<^verbatim>\<open>timeout\<close> of a condition against a deadline (the condition is looked at first).
\<close>

partial_function (option) sleep_until ::
  "'t environment \<Rightarrow> (nat \<Rightarrow> nat) \<Rightarrow> nat \<Rightarrow> 't world \<Rightarrow> 't world option" where
  "sleep_until env clock t w =
     (if t \<le> now clock w then Some w else sleep_until env clock t (elapse env w))"

definition sleep_for :: "'t environment \<Rightarrow> (nat \<Rightarrow> nat) \<Rightarrow> nat \<Rightarrow> 't world \<Rightarrow> 't world option" where
  "sleep_for env clock d w = sleep_until env clock (now clock w + d) w"

partial_function (option) select_timeout ::
  "'t environment \<Rightarrow> (nat \<Rightarrow> nat) \<Rightarrow> nat \<Rightarrow> ('t world \<Rightarrow> bool) \<Rightarrow> 't world \<Rightarrow> ('t world \<times> bool) option" where
  "select_timeout env clock deadline cond w =
     (if cond w then Some (w, True)
      else if now clock w \<ge> deadline then Some (w, False)
      else select_timeout env clock deadline cond (elapse env w))"

partial_function (option) hold_loop ::
  "'t environment \<Rightarrow> (nat \<Rightarrow> nat) \<Rightarrow> nat \<Rightarrow> nat \<Rightarrow> 't world \<Rightarrow> 't world option" where
  "hold_loop env clock next_tick deadline w =
     (if now clock w \<ge> deadline \<or> stop_requested (w_sched w) then Some w
      else Option.bind (sleep_until env clock (min (next_tick + ms 100) deadline) (reap_and_respawn clock w))
             (hold_loop env clock (next_tick + ms 100) deadline))"

partial_function (option) drain_loop ::
  "'t environment \<Rightarrow> (nat \<Rightarrow> nat) \<Rightarrow> nat \<Rightarrow> 't world \<Rightarrow> 't world option" where
  "drain_loop env clock deadline w =
     (if active_vus (w_sched w) = 0 then Some w
      else if now clock w \<ge> deadline then Some (on_sched request_force_stop w)
      else Option.bind (sleep_for env clock (ms 10) w) (drain_loop env clock deadline))"

definition wait_for_drain :: "'t environment \<Rightarrow> (nat \<Rightarrow> nat) \<Rightarrow> nat \<Rightarrow> 't world \<Rightarrow> 't world option" where
  "wait_for_drain env clock grace w =
     (if grace = 0 then Some (on_sched request_force_stop w)
      else drain_loop env clock (now clock w + grace) w)"

partial_function (option) drain_while_loop ::
  "'t environment \<Rightarrow> (nat \<Rightarrow> nat) \<Rightarrow> nat \<Rightarrow> ('t sched \<Rightarrow> bool) \<Rightarrow> 't world \<Rightarrow> ('t world \<times> bool) option" where
  "drain_while_loop env clock deadline cond w =
     (if cond (w_sched w) then Some (w, True)
      else if now clock w \<ge> deadline then Some (w, False)
      else Option.bind (sleep_for env clock (ms 10) w) (drain_while_loop env clock deadline cond))"

definition wait_for_drain_while ::
  "'t environment \<Rightarrow> (nat \<Rightarrow> nat) \<Rightarrow> nat \<Rightarrow> ('t sched \<Rightarrow> bool) \<Rightarrow> 't world \<Rightarrow> ('t world \<times> bool) option" where
  "wait_for_drain_while env clock grace cond w =
     (if grace = 0 then Some (w, False) else drain_while_loop env clock (now clock w + grace) cond w)"

definition all_finished :: "'t world \<Rightarrow> bool" where
  "all_finished w \<longleftrightarrow> (\<forall>h \<in> set (w_handles w). h_finished h)"

definition abort_pending :: "'t world \<Rightarrow> 't world" where
  "abort_pending w = w\<lparr>w_handles := map (\<lambda>h. if h_finished h then h else h\<lparr>h_aborted := True\<rparr>) (w_handles w)\<rparr>"

definition handle_join_bound :: nat where "handle_join_bound = 30000000000"

definition await_handles_bounded ::
  "'t environment \<Rightarrow> (nat \<Rightarrow> nat) \<Rightarrow> nat \<Rightarrow> 't world \<Rightarrow> 't world option" where
  "await_handles_bounded env clock bound w =
     (if all_finished w then Some w
      else map_option (\<lambda>(w', joined). if joined then w' else abort_pending w')
             (select_timeout env clock (now clock w + bound) all_finished w))"

text \<open>The end of every pool executor: soft stop, drain within the grace period, bounded join.\<close>

definition shut_down :: "'t environment \<Rightarrow> (nat \<Rightarrow> nat) \<Rightarrow> nat \<Rightarrow> 't world \<Rightarrow> 't world option" where
  "shut_down env clock grace w =
     Option.bind (wait_for_drain env clock grace (on_sched request_stop w))
       (await_handles_bounded env clock handle_join_bound)"

definition run_constant ::
  "'t environment \<Rightarrow> (nat \<Rightarrow> nat) \<Rightarrow> nat \<Rightarrow> nat \<Rightarrow> nat \<Rightarrow> 't world \<Rightarrow> 't world option" where
  "run_constant env clock vus duration grace w =
     (let w1 = spawn_tasks vus w in
      Option.bind (hold_loop env clock (now clock w1) (now clock w1 + duration) w1) (shut_down env clock grace))"

section \<open>The loops return\<close>

text \<open>
  The clock is monotonic and passes every deadline; the environment only ends tasks, and leaves
  a requested stop in place.
\<close>

definition clock_advances :: "(nat \<Rightarrow> nat) \<Rightarrow> bool" where
  "clock_advances clock \<longleftrightarrow> mono clock \<and> (\<forall>t. \<exists>j. t \<le> clock j)"

definition env_ok :: "'t environment \<Rightarrow> bool" where
  "env_ok env \<longleftrightarrow> (\<forall>k w. map h_id (w_handles (env k w)) = map h_id (w_handles w)
     \<and> w_next_id (env k w) = w_next_id w \<and> (stop_requested (w_sched w) \<longrightarrow> stop_requested (w_sched (env k w))))"

text \<open>What a sleeping driver can rely on: time passes, no handle is lost, a stop stays requested.\<close>

definition kept :: "'t world \<Rightarrow> 't world \<Rightarrow> bool" where
  "kept w w' \<longleftrightarrow> w_polls w \<le> w_polls w' \<and> length (w_handles w') = length (w_handles w)
     \<and> (stop_requested (w_sched w) \<longrightarrow> stop_requested (w_sched w'))"

lemma kept_refl [simp]: "kept w w"
  by (simp add: kept_def)

lemma kept_force_stop [simp]: "kept w (on_sched request_force_stop w)"
  by (simp add: kept_def on_sched_def request_force_stop_def)

lemma kept_trans: "kept w w1 \<Longrightarrow> kept w1 w2 \<Longrightarrow> kept w w2"
  by (auto simp: kept_def)

lemma poll_induct:
  assumes "clock_advances clock"
    and stop: "\<And>w. deadline \<le> now clock w \<Longrightarrow> P w"
    and step: "\<And>w. (\<And>w'. w_polls w < w_polls w' \<Longrightarrow> P w') \<Longrightarrow> P w"
  shows "P w"
proof -
  obtain j where j: "deadline \<le> clock j" using assms(1) unfolding clock_advances_def by blast
  show ?thesis
  proof (induction "j - w_polls w" arbitrary: w rule: less_induct)
    case less
    show ?case
    proof (cases "j \<le> w_polls w")
      case True
      then have "clock j \<le> clock (w_polls w)" using assms(1) by (simp add: clock_advances_def monoD)
      then show ?thesis using stop j by (simp add: now_def)
    next
      case False
      show ?thesis by (rule step, rule less.hyps) (use False in auto)
    qed
  qed
qed

lemma on_sched_simps [simp]:
  "w_sched (on_sched f w) = f (w_sched w)" "w_handles (on_sched f w) = w_handles w"
  "w_polls (on_sched f w) = w_polls w" "w_next_id (on_sched f w) = w_next_id w"
  by (simp_all add: on_sched_def)

lemma spawn_tasks_simps [simp]:
  "w_sched (spawn_tasks n w) = w_sched w" "w_polls (spawn_tasks n w) = w_polls w"
  "length (w_handles (spawn_tasks n w)) = length (w_handles w) + n"
  by (induction n) (simp_all add: spawn_tasks_def spawn_task_def)

lemma reap_simps [simp]:
  "w_polls (reap_and_respawn clock w) = w_polls w"
  "length (w_handles (reap_and_respawn clock w)) = length (w_handles w)"
  "stop_requested (w_sched (reap_and_respawn clock w)) = stop_requested (w_sched w)"
  "ramp_down_target (w_sched (reap_and_respawn clock w)) = ramp_down_target (w_sched w)"
  using sum_length_filter_compl [of h_finished "w_handles w"]
  by (auto simp: reap_and_respawn_def Let_def on_sched_def)

lemma reap_kept [simp]: "kept w (reap_and_respawn clock w)"
  by (simp add: kept_def)

lemma elapse_polls [simp]: "w_polls (elapse env w) = Suc (w_polls w)"
  by (simp add: elapse_def)

lemma elapse_kept:
  assumes "env_ok env"
  shows "kept w (elapse env w)"
proof -
  have "map h_id (w_handles (env (w_polls w) w)) = map h_id (w_handles w)" using assms by (simp add: env_ok_def)
  from arg_cong [OF this, of length] show ?thesis using assms by (simp add: kept_def elapse_def env_ok_def)
qed

lemma sleep_until_returns:
  fixes env :: "'t environment"
  assumes "clock_advances clock" and "env_ok env"
  shows "\<exists>w'. sleep_until env clock t w = Some w' \<and> kept w w' \<and> t \<le> now clock w'" (is "?P w")
proof (rule poll_induct [OF assms(1), where deadline = t and P = ?P])
  fix w :: "'t world" assume "t \<le> now clock w"
  then show "?P w" by (subst sleep_until.simps) auto
next
  fix w :: "'t world"
  assume IH: "\<And>w'. w_polls w < w_polls w' \<Longrightarrow> ?P w'"
  from IH [of "elapse env w"] show "?P w"
    by (subst sleep_until.simps) (auto intro: kept_trans [OF elapse_kept [OF assms(2)]])
qed

lemma sleep_for_returns:
  assumes "clock_advances clock" and "env_ok env" and "0 < d"
  shows "\<exists>w'. sleep_for env clock d w = Some w' \<and> kept w w' \<and> w_polls w < w_polls w'"
proof -
  obtain w' where w': "sleep_until env clock (now clock w + d) w = Some w'" "kept w w'" "now clock w + d \<le> now clock w'"
    using sleep_until_returns [OF assms(1,2)] by blast
  have "w_polls w \<noteq> w_polls w'" using w'(3) assms(3) by (auto simp: now_def)
  with w' show ?thesis by (simp add: sleep_for_def kept_def)
qed

lemma select_timeout_returns:
  fixes env :: "'t environment"
  assumes "clock_advances clock" and "env_ok env"
  shows "\<exists>w' b. select_timeout env clock deadline cond w = Some (w', b) \<and> kept w w'
    \<and> b = cond w' \<and> (\<not> b \<longrightarrow> deadline \<le> now clock w')" (is "?P w")
proof (rule poll_induct [OF assms(1), where deadline = deadline and P = ?P])
  fix w :: "'t world" assume "deadline \<le> now clock w"
  then show "?P w" by (subst select_timeout.simps) auto
next
  fix w :: "'t world"
  assume IH: "\<And>w'. w_polls w < w_polls w' \<Longrightarrow> ?P w'"
  from IH [of "elapse env w"] show "?P w"
    by (subst select_timeout.simps) (auto intro: kept_trans [OF elapse_kept [OF assms(2)]])
qed

lemma hold_loop_returns:
  assumes "clock_advances clock" and "env_ok env"
  shows "\<exists>w'. hold_loop env clock next_tick deadline w = Some w' \<and> kept w w'
    \<and> (deadline \<le> now clock w' \<or> stop_requested (w_sched w'))"
proof (induction "deadline - next_tick" arbitrary: w next_tick rule: less_induct)
  case less
  let ?t = "next_tick + ms 100"
  show ?case
  proof (cases "deadline \<le> now clock w \<or> stop_requested (w_sched w)")
    case True
    then show ?thesis by (subst hold_loop.simps) auto
  next
    case False
    obtain w1 where w1: "sleep_until env clock (min ?t deadline) (reap_and_respawn clock w) = Some w1"
      "kept (reap_and_respawn clock w) w1" "min ?t deadline \<le> now clock w1"
      using sleep_until_returns [OF assms] by blast
    then have k: "kept w w1" using kept_trans reap_kept by blast
    have "\<exists>w'. hold_loop env clock ?t deadline w1 = Some w' \<and> kept w1 w'
      \<and> (deadline \<le> now clock w' \<or> stop_requested (w_sched w'))"
    proof (cases "deadline \<le> now clock w1")
      case True
      then show ?thesis by (subst hold_loop.simps) auto
    next
      case False
      with w1(3) have "next_tick < deadline" by (simp add: min_def split: if_splits)
      then have "deadline - ?t < deadline - next_tick" by (simp add: ms_def)
      then show ?thesis by (rule less.hyps)
    qed
    with False w1(1) show ?thesis by (subst hold_loop.simps) (auto intro: kept_trans [OF k])
  qed
qed

lemma drain_loop_returns:
  fixes env :: "'t environment"
  assumes "clock_advances clock" and "env_ok env"
  shows "\<exists>w'. drain_loop env clock deadline w = Some w' \<and> kept w w'
    \<and> (active_vus (w_sched w') = 0 \<or> force_stop_requested (w_sched w'))" (is "?P w")
proof (rule poll_induct [OF assms(1), where deadline = deadline and P = ?P])
  fix w :: "'t world" assume "deadline \<le> now clock w"
  then show "?P w" by (subst drain_loop.simps) (auto simp: request_force_stop_def)
next
  fix w :: "'t world"
  assume IH: "\<And>w'. w_polls w < w_polls w' \<Longrightarrow> ?P w'"
  obtain w1 where w1: "sleep_for env clock (ms 10) w = Some w1" "kept w w1" "w_polls w < w_polls w1"
    using sleep_for_returns [OF assms, of "ms 10"] by (auto simp: ms_def)
  from IH [OF w1(3)] w1(1) show "?P w"
    by (subst drain_loop.simps) (auto intro: kept_trans [OF w1(2)] simp: request_force_stop_def)
qed

lemma drain_while_returns:
  fixes env :: "'t environment"
  assumes "clock_advances clock" and "env_ok env"
  shows "\<exists>w' b. drain_while_loop env clock deadline cond w = Some (w', b) \<and> kept w w' \<and> (b \<longrightarrow> cond (w_sched w'))"
    (is "?P w")
proof (rule poll_induct [OF assms(1), where deadline = deadline and P = ?P])
  fix w :: "'t world" assume "deadline \<le> now clock w"
  then show "?P w" by (subst drain_while_loop.simps) auto
next
  fix w :: "'t world"
  assume IH: "\<And>w'. w_polls w < w_polls w' \<Longrightarrow> ?P w'"
  obtain w1 where w1: "sleep_for env clock (ms 10) w = Some w1" "kept w w1" "w_polls w < w_polls w1"
    using sleep_for_returns [OF assms, of "ms 10"] by (auto simp: ms_def)
  from IH [OF w1(3)] w1(1) show "?P w"
    by (subst drain_while_loop.simps) (auto intro: kept_trans [OF w1(2)])
qed

lemma await_handles_returns:
  assumes "clock_advances clock" and "env_ok env"
  shows "\<exists>w'. await_handles_bounded env clock bound w = Some w' \<and> kept w w'
    \<and> (\<forall>h \<in> set (w_handles w'). h_finished h \<or> h_aborted h)"
proof -
  obtain w1 b where w1: "select_timeout env clock (now clock w + bound) all_finished w = Some (w1, b)" "kept w w1"
    "b = all_finished w1" using select_timeout_returns [OF assms] by blast
  have "kept w (abort_pending w1)" using w1(2) by (simp add: kept_def abort_pending_def)
  with w1 show ?thesis
    by (cases b) (auto simp: await_handles_bounded_def all_finished_def abort_pending_def)
qed

lemma shut_down_returns:
  assumes "clock_advances clock" and "env_ok env"
  shows "\<exists>w'. shut_down env clock grace w = Some w' \<and> length (w_handles w') = length (w_handles w)
    \<and> stop_requested (w_sched w') \<and> (\<forall>h \<in> set (w_handles w'). h_finished h \<or> h_aborted h)"
proof -
  let ?w = "on_sched request_stop w"
  have "\<exists>w'. wait_for_drain env clock grace ?w = Some w' \<and> kept ?w w'"
    using drain_loop_returns [OF assms, of "now clock ?w + grace" ?w]
    by (auto simp: wait_for_drain_def request_stop_def request_force_stop_def kept_def)
  then obtain w1 where "wait_for_drain env clock grace ?w = Some w1" "kept ?w w1" by blast
  with await_handles_returns [OF assms, of handle_join_bound w1] show ?thesis
    by (auto simp: shut_down_def kept_def request_stop_def)
qed

text \<open>C13. A constant-VUs run always ends, and ends clean. Whatever the VUs do meanwhile (including
  never stopping), with a clock that passes every deadline the executor returns; then the stop
  flag is set, there are exactly as many task handles as VUs were asked for, dead ones having
  been replaced one for one, and every task has finished or been aborted.\<close>

theorem run_constant_completes:
  assumes "clock_advances clock" and "env_ok env" and "w_handles w = []"
  shows "\<exists>w'. run_constant env clock vus duration grace w = Some w' \<and> stop_requested (w_sched w')
    \<and> length (w_handles w') = vus \<and> (\<forall>h \<in> set (w_handles w'). h_finished h \<or> h_aborted h)"
proof -
  let ?w = "spawn_tasks vus w"
  obtain w1 where w1: "hold_loop env clock (now clock ?w) (now clock ?w + duration) ?w = Some w1"
    "length (w_handles w1) = length (w_handles ?w)" using hold_loop_returns [OF assms(1,2)] unfolding kept_def by blast
  obtain w2 where "shut_down env clock grace w1 = Some w2" "length (w_handles w2) = length (w_handles w1)"
    "stop_requested (w_sched w2)" "\<forall>h \<in> set (w_handles w2). h_finished h \<or> h_aborted h"
    using shut_down_returns [OF assms(1,2)] by blast
  with w1 assms(3) show ?thesis by (simp add: run_constant_def Let_def)
qed

text \<open>The drain is bounded and decisive: \<^verbatim>\<open>wait_for_drain\<close> returns, and then either every VU has
  given up its lease or the force-stop flag has been raised.\<close>

theorem wait_for_drain_decides:
  assumes "clock_advances clock" and "env_ok env"
  shows "\<exists>w'. wait_for_drain env clock grace w = Some w'
    \<and> (active_vus (w_sched w') = 0 \<or> force_stop_requested (w_sched w'))"
  using drain_loop_returns [OF assms, of "now clock w + grace" w]
  by (auto simp: wait_for_drain_def request_force_stop_def)

text \<open>A stubborn environment: nothing ever stops, the clock ticks 50 milliseconds a poll.\<close>

definition stubborn_world :: "unit world" where
  "stubborn_world = \<lparr>w_sched = (new_sched (ConstantVus 2 ''1s'' None ()) 0)\<lparr>active_vus := 2, stop_requested := True\<rparr>,
     w_handles = [], w_next_id = 0, w_polls = 0\<rparr>"

lemma toy_clock: "clock_advances (\<lambda>k. k * 50000000)"
  unfolding clock_advances_def
proof (intro conjI allI)
  show "mono (\<lambda>k::nat. k * 50000000)" by (rule monoI) simp
  show "\<exists>j. t \<le> j * 50000000" for t :: nat by (rule exI [of _ t]) simp
qed

lemma toy_env: "env_ok (\<lambda>_ w. w)"
  by (simp add: env_ok_def)

theorem run_constant_completes_witness:
  "\<exists>w'. run_constant (\<lambda>_ w. w) (\<lambda>k. k * 50000000) 3 1000000000 0 stubborn_world = Some w'
     \<and> length (w_handles w') = 3 \<and> (\<forall>h \<in> set (w_handles w'). h_finished h \<or> h_aborted h)"
  using run_constant_completes [OF toy_clock toy_env, of stubborn_world 3 1000000000 0]
  by (auto simp: stubborn_world_def)

theorem wait_for_drain_decides_witness:
  "\<exists>w'. wait_for_drain (\<lambda>_ w. w) (\<lambda>k. k * 50000000) 1000000000 stubborn_world = Some w'
     \<and> (active_vus (w_sched w') = 0 \<or> force_stop_requested (w_sched w'))"
  by (rule wait_for_drain_decides [OF toy_clock toy_env])


section \<open>Ramping VUs\<close>

text \<open>
  A ramp-up sleeps to the absolute offset of each step, replaces the dead and starts one more;
  a ramp-down arms one slot at each offset.
\<close>

fun ramp_up_loop ::
  "'t environment \<Rightarrow> (nat \<Rightarrow> nat) \<Rightarrow> nat \<Rightarrow> nat \<Rightarrow> nat \<Rightarrow> nat list \<Rightarrow> 't world \<Rightarrow> 't world option" where
  "ramp_up_loop env clock start nanos delta [] w = Some w"
| "ramp_up_loop env clock start nanos delta (step # steps) w =
     Option.bind (sleep_until env clock (start + step_offset nanos delta step) w)
       (\<lambda>w'. ramp_up_loop env clock start nanos delta steps (spawn_task (reap_and_respawn clock w')))"

fun ramp_down_loop ::
  "'t environment \<Rightarrow> (nat \<Rightarrow> nat) \<Rightarrow> nat \<Rightarrow> nat \<Rightarrow> nat \<Rightarrow> nat \<Rightarrow> nat list \<Rightarrow> 't world \<Rightarrow> 't world option" where
  "ramp_down_loop env clock start nanos current target [] w = Some w"
| "ramp_down_loop env clock start nanos current target (step # steps) w =
     (let new_target = current - step in
      if new_target < target then Some w
      else Option.bind (sleep_until env clock (start + step_offset nanos (current - target) step) w)
             (\<lambda>w'. ramp_down_loop env clock start nanos current target steps
                     (on_sched (arm_ramp_down_step new_target) w')))"

definition drop_finished :: "'t world \<Rightarrow> 't world" where
  "drop_finished w = w\<lparr>w_handles := filter (\<lambda>h. \<not> h_finished h) (w_handles w)\<rparr>"

definition ramp_down_stage ::
  "'t environment \<Rightarrow> (nat \<Rightarrow> nat) \<Rightarrow> nat \<Rightarrow> nat \<Rightarrow> nat \<Rightarrow> nat \<Rightarrow> 't world \<Rightarrow> ('t world \<times> nat) option" where
  "ramp_down_stage env clock grace_rd nanos current target w =
     Option.bind (ramp_down_loop env clock (now clock w) nanos current target [1..<current - target + 1] w) (\<lambda>w1.
     let real = active_vus (w_sched w1);
         w2 = on_sched (set_ramp_down_target target real) w1
     in map_option (\<lambda>(w3, drained).
          if drained then (drop_finished (on_sched clear_ramp_down w3), target)
          else (drop_finished w3, active_vus (w_sched w3)))
        (wait_for_drain_while env clock grace_rd (\<lambda>s. active_vus s \<le> target) w2))"

definition ramp_stage ::
  "(string \<Rightarrow> 'e + nat) \<Rightarrow> 't environment \<Rightarrow> (nat \<Rightarrow> nat) \<Rightarrow> nat \<Rightarrow> stage \<Rightarrow> 't world \<times> nat \<Rightarrow> ('t world \<times> nat) option" where
  "ramp_stage pd env clock grace_rd st wc =
     (let (w, current) = wc; target = stage_target st;
          d = (case pd (stage_duration st) of Inl _ \<Rightarrow> 10000000000 | Inr x \<Rightarrow> x)
      in if target > current then
           (let w1 = on_sched clear_ramp_down w; delta = target - current in
            map_option (\<lambda>w'. (w', target)) (ramp_up_loop env clock (now clock w1) d delta [1..<delta + 1] w1))
         else if target < current then ramp_down_stage env clock grace_rd d current target w
         else map_option (\<lambda>w'. (w', current)) (hold_loop env clock (now clock w) (now clock w + d) w))"

fun ramp_stages ::
  "(string \<Rightarrow> 'e + nat) \<Rightarrow> 't environment \<Rightarrow> (nat \<Rightarrow> nat) \<Rightarrow> nat \<Rightarrow> stage list \<Rightarrow> 't world \<times> nat \<Rightarrow> ('t world \<times> nat) option" where
  "ramp_stages pd env clock grace_rd [] wc = Some wc"
| "ramp_stages pd env clock grace_rd (st # sts) wc =
     Option.bind (ramp_stage pd env clock grace_rd st wc) (ramp_stages pd env clock grace_rd sts)"

definition run_ramping ::
  "(string \<Rightarrow> 'e + nat) \<Rightarrow> 't environment \<Rightarrow> (nat \<Rightarrow> nat) \<Rightarrow> nat \<Rightarrow> stage list \<Rightarrow> nat \<Rightarrow> nat \<Rightarrow> 't world \<Rightarrow> 't world option" where
  "run_ramping pd env clock start_vus stages grace_rd grace w =
     Option.bind (ramp_stages pd env clock grace_rd stages (spawn_tasks start_vus w, start_vus))
       (\<lambda>(w', current). shut_down env clock grace w')"

lemma spawn_task_simps [simp]:
  "w_sched (spawn_task w) = w_sched w" "length (w_handles (spawn_task w)) = Suc (length (w_handles w))"
  by (simp_all add: spawn_task_def)

lemma ramp_up_returns:
  assumes "clock_advances clock" and "env_ok env"
  shows "\<exists>w'. ramp_up_loop env clock start nanos delta steps w = Some w'
    \<and> length (w_handles w') = length (w_handles w) + length steps
    \<and> (stop_requested (w_sched w) \<longrightarrow> stop_requested (w_sched w'))"
proof (induction steps arbitrary: w)
  case (Cons k steps)
  obtain w1 where w1: "sleep_until env clock (start + step_offset nanos delta k) w = Some w1" "kept w w1"
    using sleep_until_returns [OF assms] by blast
  then show ?case using Cons.IH [of "spawn_task (reap_and_respawn clock w1)"] by (auto simp: kept_def)
qed simp

text \<open>The slots that a ramp-down arms are those of the step table, all of them, in order.\<close>

fun arm_at :: "'t environment \<Rightarrow> (nat \<Rightarrow> nat) \<Rightarrow> (nat \<times> driver_op) list \<Rightarrow> 't world \<Rightarrow> 't world option" where
  "arm_at env clock [] w = Some w"
| "arm_at env clock ((t, p) # tps) w =
     Option.bind (sleep_until env clock t w) (\<lambda>w'. arm_at env clock tps (on_sched (do_op p) w'))"

lemma ramp_down_loop_arms:
  "ramp_down_loop env clock start nanos current target [1..<current - target + 1] w
     = arm_at env clock (zip (map ((+) start) (step_offsets nanos (current - target))) (ramp_down_arms current target)) w"
proof -
  have op: "do_op (OpArm t) = arm_ramp_down_step t" for t by (rule ext) simp
  have "\<forall>k \<in> set steps. 1 \<le> k \<and> k \<le> current - target \<Longrightarrow>
      ramp_down_loop env clock start nanos current target steps w
        = arm_at env clock (map (\<lambda>k. (start + step_offset nanos (current - target) k, OpArm (current - k))) steps) w" for steps
  proof (induction steps arbitrary: w)
    case (Cons k steps)
    then have "\<not> current - k < target" by auto
    with Cons show ?case by (simp add: op Let_def)
  qed simp
  then show ?thesis by (simp add: step_offsets_def ramp_down_arms_def zip_map_map zip_same_conv_map comp_def del: upt_Suc)
qed

lemma arm_at_returns:
  assumes "clock_advances clock" and "env_ok env"
  shows "\<exists>w'. arm_at env clock tps w = Some w'"
proof (induction tps arbitrary: w)
  case (Cons tp tps)
  obtain t p where tp: "tp = (t, p)" by (cases tp)
  obtain w1 where "sleep_until env clock t w = Some w1" using sleep_until_returns [OF assms] by blast
  then show ?case using Cons.IH tp by simp
qed simp

lemma ramp_stage_returns:
  assumes "clock_advances clock" and "env_ok env"
  shows "\<exists>wc'. ramp_stage pd env clock grace_rd st wc = Some wc'"
proof -
  obtain w current where wc: "wc = (w, current)" by (cases wc)
  have "\<exists>r. ramp_down_stage env clock grace_rd nanos current target w = Some r" for nanos target
  proof -
    obtain w1 where w1: "ramp_down_loop env clock (now clock w) nanos current target [1..<current - target + 1] w = Some w1"
      unfolding ramp_down_loop_arms using arm_at_returns [OF assms] by blast
    let ?cond = "\<lambda>s. active_vus s \<le> target" and ?w = "on_sched (set_ramp_down_target target (active_vus (w_sched w1))) w1"
    have "\<exists>a b. wait_for_drain_while env clock grace_rd ?cond ?w = Some (a, b)"
      using drain_while_returns [OF assms, of "now clock ?w + grace_rd" ?cond ?w]
      by (auto simp: wait_for_drain_while_def)
    with w1 show ?thesis by (elim exE) (simp add: ramp_down_stage_def Let_def split_def del: upt_Suc)
  qed
  moreover have "\<exists>w'. hold_loop env clock t d w = Some w'" for t d using hold_loop_returns [OF assms] by blast
  moreover have "\<exists>w'. ramp_up_loop env clock start nanos delta steps w = Some w'" for start nanos delta steps w
    using ramp_up_returns [OF assms] by blast
  ultimately show ?thesis by (simp add: ramp_stage_def wc Let_def del: upt_Suc)
qed

text \<open>C14. A ramping-VUs run always ends: for any list of stages, durations, grace periods and VU
  behaviour the executor returns, with the stop flag set and every task finished or aborted.\<close>

theorem run_ramping_completes:
  assumes "clock_advances clock" and "env_ok env"
  shows "\<exists>w'. run_ramping pd env clock start_vus stages grace_rd grace w = Some w'
    \<and> stop_requested (w_sched w') \<and> (\<forall>h \<in> set (w_handles w'). h_finished h \<or> h_aborted h)"
proof -
  have "\<exists>wc'. ramp_stages pd env clock grace_rd stages wc = Some wc'" for wc
  proof (induction stages arbitrary: wc)
    case (Cons st sts)
    obtain wc1 where "ramp_stage pd env clock grace_rd st wc = Some wc1" using ramp_stage_returns [OF assms] by blast
    with Cons.IH [of wc1] show ?case by simp
  qed simp
  then obtain w1 c where "ramp_stages pd env clock grace_rd stages (spawn_tasks start_vus w, start_vus) = Some (w1, c)"
    by (metis surj_pair)
  with shut_down_returns [OF assms, of grace w1] show ?thesis by (auto simp: run_ramping_def)
qed

theorem run_ramping_completes_witness:
  "\<exists>w'. run_ramping toy_seconds (\<lambda>_ w. w) (\<lambda>k. k * 50000000) 1
          [\<lparr>stage_duration = ''1s'', stage_target = 3\<rparr>, \<lparr>stage_duration = ''1s'', stage_target = 0\<rparr>] 0 0 stubborn_world = Some w'
     \<and> stop_requested (w_sched w') \<and> (\<forall>h \<in> set (w_handles w'). h_finished h \<or> h_aborted h)"
  by (rule run_ramping_completes [OF toy_clock toy_env])

text \<open>A ramp-up does not notice a stop. Only the hold loops look at the stop flag: with the flag
  already raised, a ramp-up stage still starts every one of its VUs.\<close>

theorem ramp_up_ignores_stop:
  assumes "clock_advances clock" and "env_ok env" and "stop_requested (w_sched w)" and "current < stage_target st"
  shows "\<exists>w'. ramp_stage pd env clock grace_rd st (w, current) = Some (w', stage_target st)
    \<and> stop_requested (w_sched w') \<and> length (w_handles w') = length (w_handles w) + (stage_target st - current)"
proof -
  let ?w = "on_sched clear_ramp_down w"
  have "stop_requested (w_sched ?w)" using assms(3) by (simp add: clear_ramp_down_def)
  then show ?thesis
    using assms(4) ramp_up_returns [OF assms(1,2), of "now clock ?w" _ "stage_target st - current" "[1..<stage_target st - current + 1]" ?w]
    by (auto simp: ramp_stage_def Let_def simp del: upt_Suc)
qed

theorem ramp_up_ignores_stop_witness:
  "\<exists>w'. ramp_stage toy_seconds (\<lambda>_ w. w) (\<lambda>k. k * 50000000) 0 \<lparr>stage_duration = ''1s'', stage_target = 5\<rparr> (stubborn_world, 2)
      = Some (w', 5) \<and> stop_requested (w_sched w') \<and> length (w_handles w') = 3"
  using ramp_up_ignores_stop [OF toy_clock toy_env, of stubborn_world 2 "\<lparr>stage_duration = ''1s'', stage_target = 5\<rparr>"]
  by (simp add: stubborn_world_def)

section \<open>Iteration-bounded executors\<close>

partial_function (option) join_loop :: "'t environment \<Rightarrow> 't world \<Rightarrow> 't world option" where
  "join_loop env w = (if all_finished w then Some w else join_loop env (elapse env w))"

text \<open>The join of all handles raced against the cap, as both iteration executors have it.\<close>

definition run_iterations ::
  "'t environment \<Rightarrow> (nat \<Rightarrow> nat) \<Rightarrow> nat \<Rightarrow> nat option \<Rightarrow> nat \<Rightarrow> 't world \<Rightarrow> 't world option" where
  "run_iterations env clock vus max_duration grace w =
     (let w1 = spawn_tasks vus w in
      case max_duration of
        None \<Rightarrow> join_loop env w1
      | Some d \<Rightarrow>
          Option.bind (select_timeout env clock (now clock w1 + d) all_finished w1)
            (\<lambda>(w2, joined). if joined then Some w2 else shut_down env clock grace w2))"

definition run_shared_iterations ::
  "'t environment \<Rightarrow> (nat \<Rightarrow> nat) \<Rightarrow> nat option \<Rightarrow> nat \<Rightarrow> 't world \<Rightarrow> 't world option" where
  "run_shared_iterations env clock max_duration grace w =
     run_iterations env clock
       (case config (w_sched w) of SharedIterations _ _ vus _ _ \<Rightarrow> vus | _ \<Rightarrow> 1) max_duration grace w"

definition run_per_vu_iterations ::
  "'t environment \<Rightarrow> (nat \<Rightarrow> nat) \<Rightarrow> nat \<Rightarrow> nat option \<Rightarrow> nat \<Rightarrow> 't world \<Rightarrow> 't world option" where
  "run_per_vu_iterations env clock vus max_duration grace w = run_iterations env clock vus max_duration grace w"

text \<open>A capped iteration run always ends with nothing left running: either every task finished
  within the cap, or the cap passed, the stop was requested and every straggler aborted.\<close>

theorem run_iterations_completes:
  assumes "clock_advances clock" and "env_ok env"
  shows "\<exists>w'. run_iterations env clock vus (Some d) grace w = Some w'
    \<and> (\<forall>h \<in> set (w_handles w'). h_finished h \<or> h_aborted h) \<and> (all_finished w' \<or> stop_requested (w_sched w'))"
proof -
  let ?w = "spawn_tasks vus w"
  obtain w1 b where "select_timeout env clock (now clock ?w + d) all_finished ?w = Some (w1, b)" "b = all_finished w1"
    using select_timeout_returns [OF assms] by blast
  with shut_down_returns [OF assms, of grace w1] show ?thesis
    by (auto simp: run_iterations_def Let_def all_finished_def)
qed

end
