(* ===== verification/Control.thy ===== *)
theory Control
  imports Executors
begin

text \<open>
  The externally controlled executor (\<^verbatim>\<open>run_externally_controlled\<close> of
  \<^verbatim>\<open>crates/tropel-scheduler/src/scheduler.rs\<close>): the control state that the API writes, the loop that
  reconciles the pool with it, and what the reconciliation guarantees.
\<close>

section \<open>Reconciliation\<close>

datatype decision = Grow nat | Shrink nat nat | ResetStale | Keep

definition reconcile_decide :: "'t sched \<Rightarrow> decision" where
  "reconcile_decide s =
     (let target = min (control_target_vus s) (control_max_vus s); spawned = control_spawned s in
      if target > spawned then Grow (target - spawned)
      else if target < spawned then
        (if ramp_down_remaining s = 0 then Shrink target spawned
         else if active_vus s \<le> target then ResetStale else Keep)
      else Keep)"

definition reconcile :: "'t world \<Rightarrow> 't world" where
  "reconcile w =
     (case reconcile_decide (w_sched w) of
        Grow n \<Rightarrow> on_sched (do_op (OpAddSpawned n)) (spawn_tasks n (on_sched clear_ramp_down w))
      | Shrink target spawned \<Rightarrow> on_sched (set_ramp_down_target target spawned) w
      | ResetStale \<Rightarrow> on_sched clear_ramp_down w
      | Keep \<Rightarrow> w)"

definition past_duration :: "(nat \<Rightarrow> nat) \<Rightarrow> nat \<Rightarrow> nat option \<Rightarrow> 't world \<Rightarrow> bool" where
  "past_duration clock started duration w =
     (case duration of None \<Rightarrow> False | Some d \<Rightarrow> now clock w - started \<ge> d)"

text \<open>
  The wait for a control change: \<open>notified k\<close> says whether the edge-triggered notification
  arrives at the \<open>k\<close>-th poll; one that came before the wait began is not seen.
\<close>

definition control_wait ::
  "'t environment \<Rightarrow> (nat \<Rightarrow> nat) \<Rightarrow> (nat \<Rightarrow> bool) \<Rightarrow> 't world \<Rightarrow> 't world option" where
  "control_wait env clock notified w =
     map_option fst (select_timeout env clock (now clock w + ms 100) (\<lambda>w'. notified (w_polls w')) (elapse env w))"

partial_function (option) control_loop ::
  "'t environment \<Rightarrow> (nat \<Rightarrow> nat) \<Rightarrow> (nat \<Rightarrow> bool) \<Rightarrow> nat \<Rightarrow> nat option \<Rightarrow> 't world \<Rightarrow> 't world option" where
  "control_loop env clock notified started duration w =
     (let w1 = drop_finished w in
      if stopping (w_sched w1) then Some w1
      else if past_duration clock started duration w1 then Some w1
      else if control_paused (w_sched w1) then
        Option.bind (control_wait env clock notified w1) (control_loop env clock notified started duration)
      else
        Option.bind (control_wait env clock notified (reconcile w1)) (control_loop env clock notified started duration))"

partial_function (option) register_loop ::
  "'t environment \<Rightarrow> (nat \<Rightarrow> nat) \<Rightarrow> nat \<Rightarrow> nat \<Rightarrow> 't world \<Rightarrow> 't world option" where
  "register_loop env clock reg_deadline initial w =
     (if active_vus (w_sched w) < initial then
        (if now clock w \<ge> reg_deadline then Some w
         else Option.bind (sleep_for env clock (ms 5) w) (register_loop env clock reg_deadline initial))
      else Some w)"

definition run_externally_controlled ::
  "'t environment \<Rightarrow> (nat \<Rightarrow> nat) \<Rightarrow> (nat \<Rightarrow> bool) \<Rightarrow> nat \<Rightarrow> nat \<Rightarrow> nat option \<Rightarrow> nat \<Rightarrow> 't world \<Rightarrow> 't world option" where
  "run_externally_controlled env clock notified vus max_vus duration grace w =
     (let w1 = on_sched (do_op (OpSeedControl vus max_vus)) w;
          initial = control_target_vus (w_sched w1);
          w2 = on_sched (do_op (OpStoreSpawned initial)) (spawn_tasks initial w1)
      in Option.bind (register_loop env clock (now clock w2 + ms 5000) initial w2) (\<lambda>w3.
         Option.bind (control_loop env clock notified (now clock w3) duration w3) (shut_down env clock grace)))"

section \<open>The control state\<close>

definition control_ok :: "nat \<Rightarrow> 't sched \<Rightarrow> bool" where
  "control_ok hard s \<longleftrightarrow> control_hard_max s = hard \<and> control_max_vus s \<le> hard \<and> control_target_vus s \<le> control_max_vus s"

fun seeds :: "driver_op \<Rightarrow> bool" where
  "seeds (OpSeedControl v m) = True" | "seeds _ = False"



section \<open>Shrinking\<close>

text \<open>A VU that is neither stopped nor unwound leaves only through a claim.\<close>

definition leaving_ok :: "vu \<Rightarrow> bool" where
  "leaving_ok v \<longleftrightarrow> (pc v = PExit \<longrightarrow> guard_claimed v)"

definition shrink_inv :: "nat \<Rightarrow> 't system \<Rightarrow> bool" where
  "shrink_inv target y \<longleftrightarrow> \<not> stopping (shared_state y) \<and> (\<forall>v \<in> set (vu_tasks y). leaving_ok v)
     \<and> control_spawned (shared_state y) = target + ramp_down_remaining (shared_state y) + cnt (\<lambda>v. pc v = PClaimed) y"

lemma shrink_vu_step:
  assumes "vu_step sh False s v = (s', v')" and "\<not> stopping s" and "leaving_ok v"
    and "rs_total_iterations sh = u64_max" and "pc v = PClaimed \<Longrightarrow> 0 < control_spawned s"
  shows "\<not> stopping s'" "leaving_ok v'"
    "control_spawned s' + ramp_down_remaining s + of_bool (pc v = PClaimed)
       = control_spawned s + ramp_down_remaining s' + of_bool (pc v' = PClaimed)"
  using assms
  by (cases "pc v"; auto simp: vu_step_def sched_ops stopping_def leaving_ok_def shared_budget_def per_vu_done_def Let_def
      split: if_splits)+

lemma shrink_step:
  assumes inv: "shrink_inv target y" and sh: "rs_total_iterations sh = u64_max"
    and e: "exec_event sh (EVu i False) y = Some y'"
  shows "shrink_inv target y'"
proof -
  let ?v = "vu_tasks y ! i"
  obtain s' v' where r: "vu_step sh False (shared_state y) ?v = (s', v')" by fastforce
  with e have i: "i < length (vu_tasks y)" and y': "y' = put_vu y i (s', v')" by (auto split: if_splits)
  have ns: "\<not> stopping (shared_state y)" and all: "\<forall>v \<in> set (vu_tasks y). leaving_ok v" using inv by (auto simp: shrink_inv_def)
  have ok: "leaving_ok ?v" using all i by simp
  have "0 < control_spawned (shared_state y)" if "pc ?v = PClaimed"
    using inv cnt_pos [OF i, of "\<lambda>v. pc v = PClaimed"] that by (simp add: shrink_inv_def)
  note st = shrink_vu_step [OF r ns ok sh this]
  have "\<forall>v \<in> set (vu_tasks y'). leaving_ok v" unfolding y' using st(2) by (intro all_put [OF all]) simp
  with st(1,3) inv cnt_put [OF i, of "\<lambda>v. pc v = PClaimed" "(s', v')"] show ?thesis
    unfolding y' by (simp add: shrink_inv_def)
qed

lemma shrink_run:
  assumes "run_events sh es y = Some y'" and "shrink_inv target y"
    and "\<forall>e \<in> set es. \<exists>i. e = EVu i False" and "rs_total_iterations sh = u64_max"
  shows "shrink_inv target y'"
  using assms
proof (induction es arbitrary: y)
  case (Cons e es)
  then obtain i y1 where e: "e = EVu i False" and y1: "exec_event sh e y = Some y1" and run: "run_events sh es y1 = Some y'"
    by (fastforce simp del: exec_event.simps split: option.splits)
  have "shrink_inv target y1" using shrink_step [OF Cons.prems(2,4)] y1 unfolding e .
  then show ?case using Cons run by simp
qed simp


text \<open>Three running VUs, two of which the control API no longer wants.\<close>

definition surplus_pool :: "unit system" where
  "surplus_pool = \<lparr>shared_state = (new_sched (ExternallyControlled 3 3 None None ()) 0)
       \<lparr>active_vus := 3, control_max_vus := 3, control_hard_max := 3, control_target_vus := 1, control_spawned := 3\<rparr>,
     vu_tasks = map (\<lambda>i. (new_vu i)\<lparr>pc := PTop\<rparr>) [0..<3], next_vu_id = 3\<rparr>"

definition unlimited :: run_shared where
  "unlimited = \<lparr>rs_total_iterations = u64_max, is_per_vu_iterations = False\<rparr>"


section \<open>The run ends\<close>

lemma control_wait_returns:
  assumes "clock_advances clock" and "env_ok env"
  shows "\<exists>w'. control_wait env clock notified w = Some w' \<and> w_polls w < w_polls w'"
proof -
  obtain w' b where "select_timeout env clock (now clock w + ms 100) (\<lambda>w'. notified (w_polls w')) (elapse env w) = Some (w', b)"
    "kept (elapse env w) w'" using select_timeout_returns [OF assms] by metis
  then show ?thesis by (auto simp: control_wait_def kept_def)
qed

lemma register_loop_returns:
  fixes env :: "'t environment"
  assumes "clock_advances clock" and "env_ok env"
  shows "\<exists>w'. register_loop env clock t initial w = Some w'" (is "?P w")
proof (rule poll_induct [OF assms(1), where deadline = t and P = ?P])
  fix w :: "'t world" assume "t \<le> now clock w"
  then show "?P w" by (subst register_loop.simps) auto
next
  fix w :: "'t world"
  assume IH: "\<And>w'. w_polls w < w_polls w' \<Longrightarrow> ?P w'"
  obtain w1 where w1: "sleep_for env clock (ms 5) w = Some w1" "w_polls w < w_polls w1"
    using sleep_for_returns [OF assms, of "ms 5"] by (auto simp: ms_def)
  from IH [OF w1(2)] w1(1) show "?P w" by (subst register_loop.simps) auto
qed

lemma reconcile_polls [simp]: "w_polls (reconcile w) = w_polls w" "w_polls (drop_finished w) = w_polls w"
  by (simp_all add: reconcile_def drop_finished_def split: decision.splits)

lemma control_loop_returns:
  fixes env :: "'t environment"
  assumes "clock_advances clock" and "env_ok env"
  shows "\<exists>w'. control_loop env clock notified started (Some d) w = Some w'" (is "?P w")
proof (rule poll_induct [OF assms(1), where deadline = "started + d" and P = ?P])
  fix w :: "'t world" assume "started + d \<le> now clock w"
  then have "past_duration clock started (Some d) (drop_finished w)" by (simp add: past_duration_def now_def)
  then show "?P w" by (subst control_loop.simps) (simp add: Let_def)
next
  fix w :: "'t world"
  assume IH: "\<And>w'. w_polls w < w_polls w' \<Longrightarrow> ?P w'"
  have "\<exists>w2. control_wait env clock notified w1 = Some w2 \<and> ?P w2" if "w_polls w1 = w_polls w" for w1
    using control_wait_returns [OF assms, of notified w1] IH that by fastforce
  from this [of "drop_finished w"] this [of "reconcile (drop_finished w)"] show "?P w"
    by (subst control_loop.simps) (auto simp: Let_def)
qed

text \<open>C16. An externally controlled run with a duration always ends, whatever the control API, the
  VUs and the notifications do (a pause held forever included): the executor returns, with
  the stop flag set and every task it still holds finished or aborted.\<close>

theorem run_externally_controlled_completes:
  assumes "clock_advances clock" and "env_ok env"
  shows "\<exists>w'. run_externally_controlled env clock notified vus max_vus (Some d) grace w = Some w'
    \<and> stop_requested (w_sched w') \<and> (\<forall>h \<in> set (w_handles w'). h_finished h \<or> h_aborted h)"
proof -
  let ?w1 = "on_sched (do_op (OpSeedControl vus max_vus)) w"
  let ?n = "control_target_vus (w_sched ?w1)"
  let ?w2 = "on_sched (do_op (OpStoreSpawned ?n)) (spawn_tasks ?n ?w1)"
  obtain w3 where w3: "register_loop env clock (now clock ?w2 + ms 5000) ?n ?w2 = Some w3"
    using register_loop_returns [OF assms] by blast
  obtain w4 where w4: "control_loop env clock notified (now clock w3) (Some d) w3 = Some w4"
    using control_loop_returns [OF assms] by blast
  show ?thesis unfolding run_externally_controlled_def Let_def w3 bind.simps w4
    using shut_down_returns [OF assms, of grace w4] by auto
qed

theorem run_externally_controlled_completes_witness:
  "\<exists>w'. run_externally_controlled (\<lambda>_ w. on_sched (set_paused True) w) (\<lambda>k. k * 50000000) (\<lambda>k. even k) 2 5 (Some 1000000000) 0
      stubborn_world = Some w' \<and> stop_requested (w_sched w') \<and> (\<forall>h \<in> set (w_handles w'). h_finished h \<or> h_aborted h)"
  by (rule run_externally_controlled_completes [OF toy_clock]) (simp add: env_ok_def set_paused_def)

section \<open>A lost exit\<close>

text \<open>
  One VU is started; its driver fails to initialise, so it takes its lease, reports its exit
  (which finds the pool size at zero) and leaves, all before the executor stores the pool size.
\<close>

definition lost_exit :: "event list" where
  "lost_exit = [EOp (OpSeedControl 1 1), ESpawn, EInitFail 0, EVu 0 False, EVu 0 False, EOp (OpStoreSpawned 1)]"

text \<open>An exit can be lost. The pool size is stored after the VUs are started, and \<^verbatim>\<open>vu_exited\<close>
  saturates at zero: when a started VU dies before the store, its exit is forgotten. Then no VU
  holds a lease, yet the recorded pool size equals the target and the reconciliation keeps the
  pool as it is: the run goes on with a VU short.\<close>

theorem control_exit_lost:
  "\<exists>y :: unit system. run_events unlimited lost_exit (init_system (ExternallyControlled 1 1 None None ()) 0) = Some y
     \<and> map pc (vu_tasks y) = [PGone] \<and> active_vus (shared_state y) = 0
     \<and> control_spawned (shared_state y) = 1 \<and> reconcile_decide (shared_state y) = Keep"
proof -
  have "map_option (\<lambda>y. (map pc (vu_tasks y), active_vus (shared_state y), control_spawned (shared_state y), reconcile_decide (shared_state y)))
      (run_events unlimited lost_exit (init_system (ExternallyControlled 1 1 None None ()) 0)) = Some ([PGone], 0, 1, Keep)"
    by code_simp
  then show ?thesis by fastforce
qed

end
