(* ===== verification/Arrival_Run.thy ===== *)
theory Arrival_Run
  imports Executors
begin

text \<open>
  The driver loops of the arrival-rate executors (\<^verbatim>\<open>run_arrival_rate\<close> and
  \<^verbatim>\<open>run_ramping_arrival_rate\<close> of \<^verbatim>\<open>crates/tropel-scheduler/src/scheduler.rs\<close>) with clock, handles and
  shut-down. \<open>Arrival_Exec\<close> has the same loop body access by access, for the interleavings with
  the VUs; here a pass of the loop is one step and the question is whether the executor returns.
  The parameter \<open>arrivals\<close> is the count of global arrivals due at an elapsed time in seconds.
\<close>

section \<open>The loop\<close>

definition as_u64 :: "rat \<Rightarrow> nat" where
  "as_u64 x = min (nat \<lfloor>x\<rfloor>) u64_max"

definition bucket_fill :: "nat \<Rightarrow> nat \<Rightarrow> nat \<Rightarrow> 't sched \<Rightarrow> 't sched" where
  "bucket_fill max_tokens prev target s =
     (if target > prev then
        (let to_add = target - prev; capacity = max_tokens - arrival_tokens s;
             actual_add = min to_add capacity; overflow = to_add - capacity;
             s1 = (if actual_add > 0 then do_op (OpAddTokens actual_add) s else s)
         in if overflow > 0 then do_op (OpDrop overflow) s1 else s1)
      else s)"

record arrival_state =
  al_stripe :: arrival_stripe
  al_last :: nat
  al_current :: nat
  al_next_reap :: nat

definition arrival_pass ::
  "(nat \<Rightarrow> nat) \<Rightarrow> nat \<Rightarrow> nat \<Rightarrow> arrival_state \<Rightarrow> 't world \<Rightarrow> arrival_state \<times> 't world" where
  "arrival_pass clock max_vus target l w =
     (let w1 = on_sched (bucket_fill max_vus (al_last l) target) w;
          n = grow_by (al_current l) max_vus (w_sched w1);
          w2 = spawn_tasks n w1;
          l' = l\<lparr>al_last := target, al_current := al_current l + n\<rparr>
      in if now clock w2 \<ge> al_next_reap l
         then (l'\<lparr>al_next_reap := al_next_reap l + ms 100\<rparr>, reap_and_respawn clock w2)
         else (l', w2))"

partial_function (option) arrival_loop ::
  "'t environment \<Rightarrow> (nat \<Rightarrow> nat) \<Rightarrow> (rat \<Rightarrow> rat) \<Rightarrow> nat \<Rightarrow> nat \<Rightarrow> nat \<Rightarrow> arrival_state \<Rightarrow> 't world
     \<Rightarrow> (seg_error + 't world) option" where
  "arrival_loop env clock arrivals start duration max_vus l w =
     (if now clock w - start < duration \<and> \<not> stop_requested (w_sched w) then
        (case due_by (al_stripe l) (as_u64 (arrivals (secs (now clock w - start)))) of
           None \<Rightarrow> None
         | Some (Inl e) \<Rightarrow> Some (Inl e)
         | Some (Inr (st, target)) \<Rightarrow>
             (case arrival_pass clock max_vus target (l\<lparr>al_stripe := st\<rparr>) w of
                (l', w') \<Rightarrow> Option.bind (sleep_for env clock (ms 1) w')
                              (arrival_loop env clock arrivals start duration max_vus l')))
      else Some (Inr w))"

definition arrival_executor ::
  "'t environment \<Rightarrow> (nat \<Rightarrow> nat) \<Rightarrow> (rat \<Rightarrow> rat) \<Rightarrow> nat \<Rightarrow> nat \<Rightarrow> nat \<Rightarrow> nat \<Rightarrow> 't world
     \<Rightarrow> (seg_error + 't world) option" where
  "arrival_executor env clock arrivals pre_alloc max_vus duration grace w =
     (let w1 = spawn_tasks (max pre_alloc 1) w; start = now clock w1;
          l = \<lparr>al_stripe = sched_stripe (w_sched w1), al_last = 0, al_current = max pre_alloc 1, al_next_reap = start\<rparr>
      in Option.bind (arrival_loop env clock arrivals start duration max_vus l w1)
           (\<lambda>r. case r of Inl e \<Rightarrow> Some (Inl e) | Inr w2 \<Rightarrow> map_option Inr (shut_down env clock grace w2)))"

definition run_arrival_rate ::
  "'t environment \<Rightarrow> (nat \<Rightarrow> nat) \<Rightarrow> rat \<Rightarrow> nat \<Rightarrow> nat \<Rightarrow> nat \<Rightarrow> nat \<Rightarrow> 't world \<Rightarrow> (seg_error + 't world) option" where
  "run_arrival_rate env clock rate pre_alloc max_vus duration grace w =
     arrival_executor env clock (\<lambda>t. t * rate) pre_alloc max_vus duration grace w"

definition total_duration :: "(string \<Rightarrow> 'e + nat) \<Rightarrow> arrival_rate_stage list \<Rightarrow> nat" where
  "total_duration pd stages =
     (\<Sum>st \<leftarrow> stages. case pd (rate_duration st) of Inl _ \<Rightarrow> 0 | Inr d \<Rightarrow> d)"

definition run_ramping_arrival_rate ::
  "(string \<Rightarrow> 'e + nat) \<Rightarrow> 't environment \<Rightarrow> (nat \<Rightarrow> nat) \<Rightarrow> rat \<Rightarrow> arrival_rate_stage list \<Rightarrow> nat \<Rightarrow> nat \<Rightarrow> nat
     \<Rightarrow> 't world \<Rightarrow> (seg_error + 't world) option" where
  "run_ramping_arrival_rate pd env clock start_rate stages pre_alloc max_vus grace w =
     (if total_duration pd stages = 0 then Some (Inr w)
      else arrival_executor env clock (tokens_at start_rate (stage_data pd start_rate stages))
             pre_alloc max_vus (total_duration pd stages) grace w)"

section \<open>One pass\<close>

text \<open>Below the width of the counters, a fill books every arrival: queued up to the cap, dropped beyond it.\<close>

lemma bucket_fill_books:
  assumes "arrival_tokens s \<le> mx" "prev \<le> target" "mx \<le> u64_max" "arrival_dropped s + (target - prev) \<le> u64_max"
  shows "arrival_tokens (bucket_fill mx prev target s) + arrival_dropped (bucket_fill mx prev target s)
      = arrival_tokens s + arrival_dropped s + (target - prev)"
    "arrival_tokens (bucket_fill mx prev target s) \<le> mx"
    "arrival_dropped s < arrival_dropped (bucket_fill mx prev target s)
       \<Longrightarrow> arrival_tokens (bucket_fill mx prev target s) = mx"
proof -
  have w: "wrap_u64 n = n" if "n \<le> u64_max" for n using that by (simp add: wrap_u64_def u64_max_def)
  let ?a = "min (target - prev) (mx - arrival_tokens s)"
  have "wrap_u64 (arrival_tokens s + ?a) = arrival_tokens s + ?a" using assms(1,3) by (intro w) auto
  moreover have "wrap_u64 (arrival_dropped s + (target - prev - (mx - arrival_tokens s)))
      = arrival_dropped s + (target - prev - (mx - arrival_tokens s))" using assms(4) by (intro w) simp
  ultimately show "arrival_tokens (bucket_fill mx prev target s) + arrival_dropped (bucket_fill mx prev target s)
      = arrival_tokens s + arrival_dropped s + (target - prev)"
    "arrival_tokens (bucket_fill mx prev target s) \<le> mx"
    "arrival_dropped s < arrival_dropped (bucket_fill mx prev target s)
       \<Longrightarrow> arrival_tokens (bucket_fill mx prev target s) = mx"
    using assms(1,2) by (auto simp: bucket_fill_def Let_def min_def split: if_splits)
qed

lemma bucket_fill_frame [simp]: "stop_requested (bucket_fill mx l t s) = stop_requested s"
  by (simp add: bucket_fill_def Let_def)

text \<open>A pass keeps the book of the pool: as many handles as VUs counted, never past the maximum.\<close>

lemma arrival_pass_pool:
  assumes "arrival_pass clock mx target l w = (l', w')" and "length (w_handles w) = al_current l"
  shows "length (w_handles w') = al_current l'" "al_current l' \<le> max (al_current l) mx"
    "al_stripe l' = al_stripe l" "w_polls w' = w_polls w"
proof -
  have "al_current l + grow_by (al_current l) mx s \<le> max (al_current l) mx" for s :: "'a sched"
    by (auto simp: grow_by_def Let_def)
  with assms show "length (w_handles w') = al_current l'" "al_current l' \<le> max (al_current l) mx"
    "al_stripe l' = al_stripe l" "w_polls w' = w_polls w"
    by (auto simp: arrival_pass_def Let_def split: if_splits)
qed

section \<open>The executors return\<close>

lemma arrival_loop_returns:
  fixes env :: "'t environment" and l :: arrival_state
  assumes "clock_advances clock" and "env_ok env"
    and cap: "\<And>d. d < duration \<Longrightarrow> as_u64 (arrivals (secs d)) \<le> cap"
  shows "stripe_valid cap (al_stripe l) \<longrightarrow> length (w_handles w) = al_current l \<longrightarrow>
    (\<exists>w'. arrival_loop env clock arrivals start duration mx l w = Some (Inr w')
       \<and> length (w_handles w') \<le> max (al_current l) mx)" (is "?P w l")
proof (rule spec [of "?P w"], rule poll_induct [OF assms(1), where deadline = "start + duration" and P = "\<lambda>w. \<forall>l. ?P w l"])
  fix w :: "'t world" assume "start + duration \<le> now clock w"
  then show "\<forall>l. ?P w l" by (subst arrival_loop.simps) auto
next
  fix w :: "'t world"
  assume IH: "\<And>w'. w_polls w < w_polls w' \<Longrightarrow> \<forall>l. ?P w' l"
  show "\<forall>l. ?P w l"
  proof (intro allI impI)
    fix l :: arrival_state assume l: "stripe_valid cap (al_stripe l)" "length (w_handles w) = al_current l"
    let ?n = "as_u64 (arrivals (secs (now clock w - start)))"
    show "\<exists>w'. arrival_loop env clock arrivals start duration mx l w = Some (Inr w') \<and> length (w_handles w') \<le> max (al_current l) mx"
    proof (cases "now clock w - start < duration \<and> \<not> stop_requested (w_sched w)")
      case False
      then show ?thesis using l(2) by (subst arrival_loop.simps) auto
    next
      case True
      then obtain st where st: "due_by (al_stripe l) ?n = Some (Inr (st, as_released st))" "stripe_valid cap st"
        using stripe.due_returns [OF l(1) cap] by blast
      obtain l' w1 where p: "arrival_pass clock mx (as_released st) (l\<lparr>al_stripe := st\<rparr>) w = (l', w1)" by fastforce
      note pool = arrival_pass_pool [OF p]
      obtain w2 where w2: "sleep_for env clock (ms 1) w1 = Some w2" "kept w1 w2" "w_polls w1 < w_polls w2"
        using sleep_for_returns [OF assms(1,2), of "ms 1"] by (auto simp: ms_def)
      have "?P w2 l'" using IH w2(3) pool(4) l(2) by simp
      then obtain w' where "arrival_loop env clock arrivals start duration mx l' w2 = Some (Inr w')"
        "length (w_handles w') \<le> max (al_current l') mx"
        using pool(1,3) st(2) w2(2) l(2) by (auto simp: kept_def)
      then show ?thesis using True st(1) p w2(1) pool(2) l(2) by (subst arrival_loop.simps) auto
    qed
  qed
qed

text \<open>C15. An arrival-rate run always ends, with its pool inside its bounds. For every node whose
  slice of the global schedule is well formed, whatever the VUs do, the executor returns (its
  walk over the owned arrivals included), with the stop flag set, every task finished or
  aborted, and at most \<^verbatim>\<open>max_vus\<close> VUs ever started and not replaced (the pre-allocated number
  when that is larger).\<close>

theorem run_arrival_rate_completes:
  assumes "clock_advances clock" and "env_ok env" and "stripe_valid cap (sched_stripe (w_sched w))"
    and "0 \<le> rate" and "secs duration * rate \<le> of_nat cap" and "w_handles w = []"
  shows "\<exists>w'. run_arrival_rate env clock rate pre_alloc max_vus duration grace w = Some (Inr w')
    \<and> stop_requested (w_sched w') \<and> (\<forall>h \<in> set (w_handles w'). h_finished h \<or> h_aborted h)
    \<and> length (w_handles w') \<le> max (max pre_alloc 1) max_vus"
proof -
  have cap: "as_u64 (secs d * rate) \<le> cap" if "d < duration" for d
  proof -
    have "secs d * rate \<le> secs duration * rate" using that assms(4) by (intro mult_right_mono) (simp_all add: secs_def)
    with assms(5) have "secs d * rate \<le> of_nat cap" by linarith
    then have "\<lfloor>secs d * rate\<rfloor> \<le> int cap" by (metis floor_mono floor_of_nat)
    then show ?thesis by (simp add: as_u64_def)
  qed
  let ?w = "spawn_tasks (max pre_alloc 1) w"
  let ?l = "\<lparr>al_stripe = sched_stripe (w_sched ?w), al_last = 0, al_current = max pre_alloc 1, al_next_reap = now clock ?w\<rparr>"
  obtain w1 where w1: "arrival_loop env clock (\<lambda>t. t * rate) (now clock ?w) duration max_vus ?l ?w = Some (Inr w1)"
    "length (w_handles w1) \<le> max (max pre_alloc 1) max_vus"
    using arrival_loop_returns [OF assms(1,2), where arrivals = "\<lambda>t. t * rate" and l = ?l and w = ?w and duration = duration and cap = cap, OF cap] assms(3,6) by auto
  with shut_down_returns [OF assms(1,2), of grace w1] show ?thesis
    by (auto simp: run_arrival_rate_def arrival_executor_def Let_def)
qed

theorem run_arrival_rate_completes_witness:
  "\<exists>w'. run_arrival_rate (\<lambda>_ w. w) (\<lambda>k. k * 50000000) 100 1 10 2000000000 0 (stubborn_world\<lparr>w_sched := (w_sched stubborn_world)\<lparr>stop_requested := False\<rparr>\<rparr>)
        = Some (Inr w')
    \<and> stop_requested (w_sched w') \<and> (\<forall>h \<in> set (w_handles w'). h_finished h \<or> h_aborted h) \<and> length (w_handles w') \<le> 10"
proof -
  have "stripe_valid 200 full_stripe"
    using stripe_full_cursor by (simp add: full_stripe_eq stripe_valid_def)
      (intro exI [of _ 1] exI [of _ "[0]"] exI [of _ 0], simp add: cycle_ok_def i64_bounds)
  then show ?thesis
    using run_arrival_rate_completes [OF toy_clock toy_env, of 200 "stubborn_world\<lparr>w_sched := (w_sched stubborn_world)\<lparr>stop_requested := False\<rparr>\<rparr>" 100 2000000000 1 10 0]
    by (simp add: stubborn_world_def new_sched_def secs_def)
qed

end
