(* ===== verification/Floats.thy ===== *)
theory Floats
  imports Prelude
begin

text \<open>
  Floating-point numbers as the sources use them: finite values are exact rationals (rounding
  is not modelled), the two infinities and not-a-number are values of their own. Comparisons
  follow IEEE 754. Parsing is that of \<^verbatim>\<open>str::parse::<f64>\<close>.
\<close>

datatype f64 = Fin rat | Inf | NegInf | NaN

text \<open>The largest finite value, \<open>(2 ^ 53 - 1) * 2 ^ 971\<close>.\<close>

definition f64_max :: rat where "f64_max =
  179769313486231570814527423731704356798070567525844996598917476803157260780028538760589558632766878171540458953514382464234321326889464182768467546703537516986049910576551282076245490090389328944075868508455133942304583236903222948165808559332123348274797826204144723168738177180919299881250404026184124858368"
definition f64_epsilon :: rat where "f64_epsilon = 1 / 2 ^ 52"

fun is_finite :: "f64 \<Rightarrow> bool" where
  "is_finite (Fin x) = True" | "is_finite _ = False"

fun f64_lt :: "f64 \<Rightarrow> f64 \<Rightarrow> bool" where
  "f64_lt (Fin x) (Fin y) = (x < y)"
| "f64_lt NegInf (Fin _) = True"
| "f64_lt NegInf Inf = True"
| "f64_lt (Fin _) Inf = True"
| "f64_lt _ _ = False"

fun f64_le :: "f64 \<Rightarrow> f64 \<Rightarrow> bool" where
  "f64_le (Fin x) (Fin y) = (x \<le> y)"
| "f64_le NegInf NegInf = True"
| "f64_le Inf Inf = True"
| "f64_le x y = f64_lt x y"

fun f64_neg :: "f64 \<Rightarrow> f64" where
  "f64_neg (Fin x) = Fin (- x)" | "f64_neg Inf = NegInf" | "f64_neg NegInf = Inf" | "f64_neg NaN = NaN"

fun f64_add :: "f64 \<Rightarrow> f64 \<Rightarrow> f64" where
  "f64_add (Fin x) (Fin y) = Fin (x + y)"
| "f64_add NaN _ = NaN" | "f64_add _ NaN = NaN"
| "f64_add Inf NegInf = NaN" | "f64_add NegInf Inf = NaN"
| "f64_add Inf _ = Inf" | "f64_add NegInf _ = NegInf"
| "f64_add (Fin _) Inf = Inf" | "f64_add (Fin _) NegInf = NegInf"

definition f64_sub :: "f64 \<Rightarrow> f64 \<Rightarrow> f64" where "f64_sub x y = f64_add x (f64_neg y)"

fun f64_abs :: "f64 \<Rightarrow> f64" where
  "f64_abs (Fin x) = Fin \<bar>x\<bar>" | "f64_abs NegInf = Inf" | "f64_abs x = x"

text \<open>The cast \<^verbatim>\<open>as u64\<close> of a finite value truncates toward zero and saturates.\<close>

definition rat_as_u64 :: "rat \<Rightarrow> nat" where
  "rat_as_u64 x = min (nat \<lfloor>x\<rfloor>) u64_max"

section \<open>Parsing\<close>

definition is_digit :: "char \<Rightarrow> bool" where
  "is_digit c \<longleftrightarrow> digit_val c \<noteq> None"

definition scale10 :: "rat \<Rightarrow> int \<Rightarrow> rat" where
  "scale10 m e = (if 0 \<le> e then m * 10 ^ nat e else m / 10 ^ nat (- e))"

definition parse_exponent :: "string \<Rightarrow> int option" where
  "parse_exponent s =
     (case s of [] \<Rightarrow> Some 0
      | c # cs \<Rightarrow>
          if lower_char c \<noteq> CHR ''e'' then None
          else (case cs of [] \<Rightarrow> None
                | d # ds \<Rightarrow> if d = CHR ''-'' then map_option (\<lambda>n. - int n) (parse_digits ds)
                            else if d = CHR ''+'' then map_option int (parse_digits ds)
                            else map_option int (parse_digits cs)))"

definition parse_decimal :: "string \<Rightarrow> rat option" where
  "parse_decimal s =
     (let ds = takeWhile is_digit s; r = dropWhile is_digit s;
          (fs, e) = (case r of c # cs \<Rightarrow> if c = CHR ''.'' then (takeWhile is_digit cs, dropWhile is_digit cs) else ([], r)
                     | [] \<Rightarrow> ([], r))
      in case parse_digits (ds @ fs) of
           None \<Rightarrow> None
         | Some m \<Rightarrow> map_option (\<lambda>x. scale10 (of_nat m) (x - int (length fs))) (parse_exponent e))"

definition parse_unsigned_f64 :: "string \<Rightarrow> f64 option" where
  "parse_unsigned_f64 s =
     (let l = to_ascii_lowercase s in
      if l = ''inf'' \<or> l = ''infinity'' then Some Inf
      else if l = ''nan'' then Some NaN
      else map_option (\<lambda>x. if x > f64_max then Inf else Fin x) (parse_decimal s))"

definition parse_f64 :: "string \<Rightarrow> f64 option" where
  "parse_f64 s =
     (case s of [] \<Rightarrow> None
      | c # cs \<Rightarrow> if c = CHR ''-'' then map_option f64_neg (parse_unsigned_f64 cs)
                  else if c = CHR ''+'' then parse_unsigned_f64 cs
                  else parse_unsigned_f64 s)"

lemma parse_f64_examples:
  "parse_f64 ''0.99'' = Some (Fin (99 / 100))" "parse_f64 ''-1.5e2'' = Some (Fin (- 150))"
  "parse_f64 ''5.'' = Some (Fin 5)" "parse_f64 ''.5'' = Some (Fin (1 / 2))" "parse_f64 ''.'' = None"
  "parse_f64 ''NaN'' = Some NaN" "parse_f64 ''200}'' = None"
  by code_simp+

lemma f64_max_value: "f64_max = (2 ^ 53 - 1) * 2 ^ 971"
  by (simp add: f64_max_def)

lemma f64_lt_irrefl [simp]: "\<not> f64_lt x x"
  by (cases x) auto

lemma f64_lt_trans: "f64_lt x y \<Longrightarrow> f64_lt y z \<Longrightarrow> f64_lt x z"
  by (cases x; cases y; cases z) auto

end
