(* ===== verification/Histogram.thy ===== *)
theory Histogram
  imports Floats "HOL-Library.Multiset"
begin

text \<open>
  The latency histogram, \<^verbatim>\<open>crates/tropel-metrics/src/histogram.rs\<close>.

  The bucket store itself is the \<^verbatim>\<open>hdrhistogram\<close> crate, a parameter: the record \<open>hdr\<close> has one
  field per operation that the source calls. What the source relies on is the predicate
  \<open>hdr_laws\<close>, stated over the population a store represents: the multiset of its samples, each
  rounded by \<open>quant\<close> to the representative of its bucket.
\<close>

section \<open>The bucket store\<close>

record 'h hdr =
  hdr_auto :: 'h
  hdr_new_bounds :: "nat \<Rightarrow> nat \<Rightarrow> 'h option"
  hdr_record_n :: "nat \<Rightarrow> nat \<Rightarrow> 'h \<Rightarrow> 'h option"
  hdr_add :: "'h \<Rightarrow> 'h \<Rightarrow> 'h option"
  hdr_recorded :: "'h \<Rightarrow> (nat \<times> nat) list"
  hdr_len :: "'h \<Rightarrow> nat"
  hdr_min :: "'h \<Rightarrow> nat"
  hdr_max :: "'h \<Rightarrow> nat"
  hdr_mean :: "'h \<Rightarrow> rat"
  hdr_value_at :: "'h \<Rightarrow> f64 \<Rightarrow> nat"
  hdr_serialize :: "'h \<Rightarrow> string"
  hdr_deserialize :: "string \<Rightarrow> 'h option"

definition expand :: "(nat \<times> nat) list \<Rightarrow> nat multiset" where
  "expand ps = (\<Sum>(v, n) \<leftarrow> ps. replicate_mset n v)"

definition hdr_laws :: "'h hdr \<Rightarrow> (nat \<Rightarrow> nat) \<Rightarrow> ('h \<Rightarrow> nat multiset) \<Rightarrow> ('h \<Rightarrow> bool) \<Rightarrow> bool" where
  "hdr_laws X quant population grows \<longleftrightarrow>
     population (hdr_auto X) = {#} \<and> grows (hdr_auto X)
     \<and> (\<forall>high h. hdr_new_bounds X 1 high = Some h \<longrightarrow> population h = {#})
     \<and> (\<forall>v n h h'. hdr_record_n X v n h = Some h' \<longrightarrow>
           population h' = population h + replicate_mset n (quant v) \<and> (grows h \<longrightarrow> grows h'))
     \<and> (\<forall>v n h. grows h \<longrightarrow> hdr_record_n X v n h \<noteq> None)
     \<and> (\<forall>h h' k. hdr_add X h h' = Some k \<longrightarrow> population k = population h + population h')
     \<and> (\<forall>h. expand (hdr_recorded X h) = population h \<and> (\<forall>(v, n) \<in> set (hdr_recorded X h). quant v = v))
     \<and> (\<forall>h. hdr_len X h = size (population h))
     \<and> (\<forall>h. \<exists>h'. hdr_deserialize X (hdr_serialize X h) = Some h' \<and> population h' = population h)"

section \<open>Operations\<close>

text \<open>
  \<^verbatim>\<open>Histogram::new(3)\<close> is documented to succeed, so \<open>hdr_auto\<close> is total and the fallbacks of
  \<^verbatim>\<open>auto_resizing_histogram\<close> do not arise.
\<close>

definition lh_new :: "'h hdr \<Rightarrow> 'h" where
  "lh_new X = hdr_auto X"

definition with_bounds :: "'h hdr \<Rightarrow> nat \<Rightarrow> nat \<Rightarrow> 'h" where
  "with_bounds X low high =
     (if low < 1 \<or> high < min (low * 2) u64_max then lh_new X
      else (case hdr_new_bounds X low high of Some h \<Rightarrow> h | None \<Rightarrow> lh_new X))"

definition with_max :: "'h hdr \<Rightarrow> nat option \<Rightarrow> 'h" where
  "with_max X max_ms =
     (case max_ms of
        Some high \<Rightarrow> if high \<ge> 2 then with_bounds X 1 (min (high * 1000) u64_max) else lh_new X
      | None \<Rightarrow> lh_new X)"

definition copy_recorded :: "'h hdr \<Rightarrow> 'h \<Rightarrow> 'h \<Rightarrow> 'h" where
  "copy_recorded X src dst =
     fold (\<lambda>(v, n) h. case hdr_record_n X v n h of Some h' \<Rightarrow> h' | None \<Rightarrow> h) (hdr_recorded X src) dst"

definition record_us :: "'h hdr \<Rightarrow> nat \<Rightarrow> 'h \<Rightarrow> 'h" where
  "record_us X us h =
     (case hdr_record_n X us 1 h of
        Some h' \<Rightarrow> h'
      | None \<Rightarrow>
          (let grown = copy_recorded X h (hdr_auto X)
           in case hdr_record_n X us 1 grown of Some g \<Rightarrow> g | None \<Rightarrow> grown))"

definition rat_round :: "rat \<Rightarrow> rat" where
  "rat_round x = of_int (if x < 0 then - \<lfloor>- x + 1 / 2\<rfloor> else \<lfloor>x + 1 / 2\<rfloor>)"

definition ms_to_us :: "rat \<Rightarrow> nat" where
  "ms_to_us v = rat_as_u64 (max (rat_round (max v 0 * 1000)) 1)"

definition record_ms :: "'h hdr \<Rightarrow> rat \<Rightarrow> 'h \<Rightarrow> 'h" where
  "record_ms X v h = record_us X (ms_to_us v) h"

definition record_duration :: "'h hdr \<Rightarrow> nat \<Rightarrow> 'h \<Rightarrow> 'h" where
  "record_duration X nanos h = record_us X (max (nanos div 1000) 1) h"

definition lh_count :: "'h hdr \<Rightarrow> 'h \<Rightarrow> nat" where "lh_count X h = hdr_len X h"
definition lh_min :: "'h hdr \<Rightarrow> 'h \<Rightarrow> rat" where "lh_min X h = of_nat (hdr_min X h) / 1000"
definition lh_max :: "'h hdr \<Rightarrow> 'h \<Rightarrow> rat" where "lh_max X h = of_nat (hdr_max X h) / 1000"
definition lh_mean :: "'h hdr \<Rightarrow> 'h \<Rightarrow> rat" where "lh_mean X h = hdr_mean X h / 1000"

definition lh_percentile :: "'h hdr \<Rightarrow> 'h \<Rightarrow> f64 \<Rightarrow> rat" where
  "lh_percentile X h p = of_nat (hdr_value_at X h p) / 1000"

definition lh_merge :: "'h hdr \<Rightarrow> 'h \<Rightarrow> 'h \<Rightarrow> 'h" where
  "lh_merge X h other =
     (case hdr_add X h other of
        Some h' \<Rightarrow> h'
      | None \<Rightarrow> copy_recorded X other (copy_recorded X h (hdr_auto X)))"

definition to_bytes :: "'h hdr \<Rightarrow> 'h \<Rightarrow> string" where "to_bytes X h = hdr_serialize X h"
definition from_bytes :: "'h hdr \<Rightarrow> string \<Rightarrow> 'h option" where "from_bytes X b = hdr_deserialize X b"

record histogram_stats =
  st_count :: nat
  st_min :: rat
  st_max :: rat
  st_mean :: rat
  st_p50 :: rat
  st_p90 :: rat
  st_p95 :: rat
  st_p99 :: rat

definition lh_stats :: "'h hdr \<Rightarrow> 'h \<Rightarrow> histogram_stats" where
  "lh_stats X h = \<lparr>st_count = lh_count X h, st_min = lh_min X h, st_max = lh_max X h, st_mean = lh_mean X h,
     st_p50 = lh_percentile X h (Fin 50), st_p90 = lh_percentile X h (Fin 90),
     st_p95 = lh_percentile X h (Fin 95), st_p99 = lh_percentile X h (Fin 99)\<rparr>"

definition stats_default :: histogram_stats where
  "stats_default = \<lparr>st_count = 0, st_min = 0, st_max = 0, st_mean = 0, st_p50 = 0, st_p90 = 0, st_p95 = 0, st_p99 = 0\<rparr>"

section \<open>Nothing is lost\<close>

lemma expand_simps [simp]:
  "expand [] = {#}" "expand ((v, n) # ps) = replicate_mset n v + expand ps"
  by (simp_all add: expand_def)

lemma hdr_lawsD:
  assumes "hdr_laws X quant population grows"
  shows "population (hdr_auto X) = {#}" "grows (hdr_auto X)"
    "hdr_new_bounds X 1 high = Some h \<Longrightarrow> population h = {#}"
    "hdr_record_n X v n h = Some h' \<Longrightarrow> population h' = population h + replicate_mset n (quant v)"
    "hdr_record_n X v n h = Some h' \<Longrightarrow> grows h \<Longrightarrow> grows h'"
    "grows h \<Longrightarrow> \<exists>h'. hdr_record_n X v n h = Some h'"
    "hdr_add X h k = Some h' \<Longrightarrow> population h' = population h + population k"
    "expand (hdr_recorded X h) = population h" "(v, n) \<in> set (hdr_recorded X h) \<Longrightarrow> quant v = v"
    "hdr_len X h = size (population h)"
    "\<exists>h'. hdr_deserialize X (hdr_serialize X h) = Some h' \<and> population h' = population h"
  using assms unfolding hdr_laws_def by (blast | fastforce)+

lemma copy_population:
  assumes laws: "hdr_laws X quant population grows" and "grows dst"
  shows "population (copy_recorded X src dst) = population dst + population src" "grows (copy_recorded X src dst)"
proof -
  let ?step = "\<lambda>(v, n) h. case hdr_record_n X v n h of Some h' \<Rightarrow> h' | None \<Rightarrow> h"
  have "population (fold ?step ps dst) = population dst + expand ps \<and> grows (fold ?step ps dst)"
    if "\<forall>(v, n) \<in> set ps. quant v = v" for ps
    using that assms(2)
  proof (induction ps arbitrary: dst)
    case (Cons p ps)
    obtain v n where p: "p = (v, n)" by (cases p)
    obtain h' where h': "hdr_record_n X v n dst = Some h'" using hdr_lawsD(6) [OF laws Cons.prems(2)] by blast
    then have "population h' = population dst + replicate_mset n v" "grows h'"
      using hdr_lawsD(4,5) [OF laws h'] Cons.prems p by auto
    with Cons.IH [of h'] Cons.prems(1) p h' show ?case by (simp add: union_assoc)
  qed simp
  moreover have "\<forall>(v, n) \<in> set (hdr_recorded X src). quant v = v" using hdr_lawsD(9) [OF laws] by blast
  ultimately show "population (copy_recorded X src dst) = population dst + population src"
    "grows (copy_recorded X src dst)" by (simp_all add: copy_recorded_def hdr_lawsD(8) [OF laws])
qed

lemma record_us_population:
  assumes laws: "hdr_laws X quant population grows"
  shows "population (record_us X us h) = add_mset (quant us) (population h)"
proof (cases "hdr_record_n X us 1 h")
  case None
  let ?g = "copy_recorded X h (hdr_auto X)"
  have g: "population ?g = population h" "grows ?g"
    using copy_population [OF laws hdr_lawsD(2) [OF laws], of h] hdr_lawsD(1) [OF laws] by simp_all
  then obtain k where k: "hdr_record_n X us 1 ?g = Some k" using hdr_lawsD(6) [OF laws] by blast
  with None g(1) hdr_lawsD(4) [OF laws k] show ?thesis by (simp add: record_us_def)
qed (use hdr_lawsD(4) [OF laws, of us 1 h] in \<open>simp add: record_us_def\<close>)

lemma merge_population:
  assumes laws: "hdr_laws X quant population grows"
  shows "population (lh_merge X h k) = population h + population k"
proof (cases "hdr_add X h k")
  case None
  note copy = copy_population [OF laws]
  show ?thesis using copy(1) [OF copy(2) [OF hdr_lawsD(2) [OF laws]]] copy(1) [OF hdr_lawsD(2) [OF laws]]
    hdr_lawsD(1) [OF laws] None by (simp add: lh_merge_def)
qed (use hdr_lawsD(7) [OF laws] in \<open>simp add: lh_merge_def\<close>)

lemma with_max_empty:
  assumes laws: "hdr_laws X quant population grows"
  shows "population (with_max X m) = {#}"
  using hdr_lawsD(1,3) [OF laws]
  by (auto simp: with_max_def with_bounds_def lh_new_def split: option.splits)

lemma ms_to_us_pos: "1 \<le> ms_to_us v"
  by (simp add: ms_to_us_def rat_as_u64_def u64_max_def le_nat_iff le_floor_iff max_def)


text \<open>An exact store with an optional ceiling, which satisfies the laws.\<close>

definition exact_store :: "(nat option \<times> nat list) hdr" where
  "exact_store =
     \<lparr>hdr_auto = (None, []),
      hdr_new_bounds = (\<lambda>low high. Some (Some high, [])),
      hdr_record_n = (\<lambda>v n (c, vs). case c of Some m \<Rightarrow> if v \<le> m then Some (c, vs @ replicate n v) else None
                                     | None \<Rightarrow> Some (c, vs @ replicate n v)),
      hdr_add = (\<lambda>(c, vs) (d, ws). if c = None \<or> c = d then Some (c, vs @ ws) else None),
      hdr_recorded = (\<lambda>(c, vs). map (\<lambda>v. (v, 1)) vs),
      hdr_len = (\<lambda>(c, vs). length vs),
      hdr_min = (\<lambda>(c, vs). fold min vs 0),
      hdr_max = (\<lambda>(c, vs). fold max vs 0),
      hdr_mean = (\<lambda>(c, vs). if vs = [] then 0 else of_nat (sum_list vs) / of_nat (length vs)),
      hdr_value_at = (\<lambda>(c, vs) p. case p of Fin q \<Rightarrow> (if vs = [] then 0 else sort vs ! (nat \<lceil>q / 100 * of_nat (length vs)\<rceil> - 1)) | _ \<Rightarrow> 0),
      hdr_serialize = (\<lambda>(c, vs). join '','' (map show_nat vs)),
      hdr_deserialize = (\<lambda>s. if s = [] then Some (None, []) else map_option (Pair None) (those (map parse_digits (split_on CHR '','' s))))\<rparr>"

lemma those_parse_show: "those (map parse_digits (map show_nat vs)) = Some vs"
  by (induction vs) simp_all

lemma exact_store_roundtrip:
  "\<exists>h'. hdr_deserialize exact_store (hdr_serialize exact_store h) = Some h' \<and> mset (snd h') = mset (snd h)"
proof (cases "snd h = []")
  case False
  have "CHR '','' \<notin> set x" if "x \<in> set (map show_nat (snd h))" for x
    using that show_nat_no_char [of "CHR '',''"] by auto
  then have "split_on CHR '','' (join '','' (map show_nat (snd h))) = map show_nat (snd h)"
    using False by (intro join_split_on) auto
  moreover have "join '','' (map show_nat (snd h)) \<noteq> []" using False by (cases "snd h"; cases "tl (snd h)") auto
  ultimately show ?thesis using those_parse_show [of "snd h"] by (cases h) (auto simp: exact_store_def)
qed (cases h; simp add: exact_store_def)

lemma exact_store_laws: "hdr_laws exact_store id (mset \<circ> snd) (\<lambda>h. fst h = None)"
proof -
  have "expand (map (\<lambda>v. (v, 1)) vs) = mset vs" for vs by (induction vs) simp_all
  then show ?thesis using exact_store_roundtrip
    unfolding hdr_laws_def by (auto simp: exact_store_def split: option.splits if_splits)
qed


end
