(* ===== verification/Assoc.thy ===== *)
theory Assoc
  imports Prelude "HOL-Library.Char_ord" "HOL-Library.List_Lexorder" "HOL-Library.Product_Lexorder"
begin

text \<open>
  Maps of the sources as association lists. The entry API (\<^verbatim>\<open>entry(k).or_insert(d)\<close> followed by an
  update) is \<open>upsert\<close> for \<^verbatim>\<open>IndexMap\<close> and \<^verbatim>\<open>HashMap\<close>, which updates the value of a key in place and
  appends a fresh entry otherwise, and \<open>btree_upsert\<close> for \<^verbatim>\<open>BTreeMap\<close>, which keeps the keys in
  ascending order. Both meet the contract \<open>entry_api\<close>, which has the result of feeding a list of
  items through the entry API. The order of a \<^verbatim>\<open>HashMap\<close> is that of insertion; the sources do not
  depend on it where it is iterated.
\<close>

fun upsert :: "'k \<Rightarrow> ('v \<Rightarrow> 'v) \<Rightarrow> 'v \<Rightarrow> ('k \<times> 'v) list \<Rightarrow> ('k \<times> 'v) list" where
  "upsert k f d [] = [(k, f d)]"
| "upsert k f d ((k', v) # m) = (if k' = k then (k, f v) # m else (k', v) # upsert k f d m)"

lemma map_of_upsert:
  "map_of (upsert k f d m) = (map_of m)(k \<mapsto> f (case map_of m k of None \<Rightarrow> d | Some v \<Rightarrow> v))"
  by (induction m) auto

lemma upsert_keys [simp]: "fst ` set (upsert k f d m) = insert k (fst ` set m)"
  by (induction k f d m rule: upsert.induct) (simp_all add: insert_commute)

lemma upsert_distinct [simp]: "distinct (map fst (upsert k f d m)) = distinct (map fst m)"
  by (induction k f d m rule: upsert.induct) simp_all

lemma upsert_length: "length (upsert k f d m) = (if k \<in> fst ` set m then length m else Suc (length m))"
  by (induction k f d m rule: upsert.induct) simp_all

lemma upsert_present: "k \<in> fst ` set m \<Longrightarrow> upsert k f d m = upsert k f d' m"
  by (induction k f d m rule: upsert.induct) fastforce+

lemma upsert_absent: "k \<notin> fst ` set m \<Longrightarrow> upsert k f d m = m @ [(k, f d)]"
  by (induction k f d m rule: upsert.induct) fastforce+

lemma upsert_map:
  assumes "distinct ks" "k \<in> set ks"
  shows "upsert k f d (map (\<lambda>k. (k, g k)) ks) = map (\<lambda>k'. (k', if k' = k then f (g k) else g k')) ks"
  using assms by (induction ks) auto

lemma upsert_in_place:
  assumes "distinct (map fst m)" "k \<in> set (map fst m)"
  shows "upsert k f d m = map (\<lambda>(k', v). (k', if k' = k then f v else v)) m"
  using assms
proof (induction m)
  case (Cons p m)
  have "map (\<lambda>(k', v). (k', if k' = k then f v else v)) m = m" if "k \<notin> fst ` set m"
    using that by (intro map_idI) (auto simp: image_iff)
  with Cons show ?case by (cases p) auto
qed simp

text \<open>The distinct elements of a list in the order of their first occurrence.\<close>

definition uniq :: "'a list \<Rightarrow> 'a list" where "uniq xs = rev (remdups (rev xs))"

lemma uniq_simps [simp]: "uniq [] = []" "uniq (xs @ [x]) = (if x \<in> set xs then uniq xs else uniq xs @ [x])"
  by (simp_all add: uniq_def)

lemma uniq_set [simp]: "set (uniq xs) = set xs" "distinct (uniq xs)"
  by (simp_all add: uniq_def)

lemma uniq_append: "uniq (xs @ ys) = uniq xs @ filter (\<lambda>y. y \<notin> set xs) (uniq ys)"
proof (induction ys rule: rev_induct)
  case (snoc y ys)
  have "uniq (xs @ ys @ [y]) = (if y \<in> set (xs @ ys) then uniq (xs @ ys) else uniq (xs @ ys) @ [y])"
    by (metis append_assoc uniq_simps(2))
  with snoc show ?case by auto
qed simp

text \<open>Summing a function of the entries, when one entry changes.\<close>

lemma sum_upsert:
  fixes g :: "'k \<times> 'v \<Rightarrow> 'a :: ab_group_add"
  assumes "distinct (map fst m)"
  shows "(\<Sum>p \<leftarrow> upsert k f d m. g p) =
    (\<Sum>p \<leftarrow> m. g p) + (case map_of m k of None \<Rightarrow> g (k, f d) | Some v \<Rightarrow> g (k, f v) - g (k, v))"
  using assms by (induction k f d m rule: upsert.induct) (simp_all add: algebra_simps split: option.split)


section \<open>Ordered maps\<close>

fun btree_upsert :: "'k :: linorder \<Rightarrow> ('v \<Rightarrow> 'v) \<Rightarrow> 'v \<Rightarrow> ('k \<times> 'v) list \<Rightarrow> ('k \<times> 'v) list" where
  "btree_upsert k f d [] = [(k, f d)]"
| "btree_upsert k f d ((k', v) # m) =
     (if k < k' then (k, f d) # (k', v) # m
      else if k = k' then (k, f v) # m
      else (k', v) # btree_upsert k f d m)"

lemma btree_upsert_keys [simp]: "fst ` set (btree_upsert k f d m) = insert k (fst ` set m)"
  by (induction k f d m rule: btree_upsert.induct) auto

lemma sorted_keys_Cons: "sorted_wrt (<) (map fst ((k, v) # m)) \<longleftrightarrow> (\<forall>k' \<in> fst ` set m. k < k') \<and> sorted_wrt (<) (map fst m)"
  by simp

lemma btree_upsert_sorted:
  "sorted_wrt (<) (map fst m) \<Longrightarrow> sorted_wrt (<) (map fst (btree_upsert k f d m))"
proof (induction k f d m rule: btree_upsert.induct)
  case (2 k f d k' v m)
  have "\<forall>k'' \<in> fst ` set (btree_upsert k f d m). k' < k''" if "k' < k"
    using 2(2) that by auto
  with 2 show ?case by (auto simp del: sorted_wrt.simps list.map simp add: sorted_keys_Cons)
qed simp

lemma map_of_btree_upsert:
  "sorted_wrt (<) (map fst m) \<Longrightarrow>
   map_of (btree_upsert k f d m) = (map_of m)(k \<mapsto> f (case map_of m k of None \<Rightarrow> d | Some v \<Rightarrow> v))"
proof (induction k f d m rule: btree_upsert.induct)
  case (2 k f d k' v m)
  have "map_of m k = None" if "k < k'"
    using 2(2) that by (auto simp: map_of_eq_None_iff)
  with 2 show ?case by auto
qed auto

lemma btree_upsert_append: "\<forall>k' \<in> fst ` set m. k' < k \<Longrightarrow> btree_upsert k f d m = m @ [(k, f d)]"
  by (induction k f d m rule: btree_upsert.induct) auto

section \<open>The entry contract\<close>

locale entry_api =
  fixes entry :: "'k \<Rightarrow> ('v \<Rightarrow> 'v) \<Rightarrow> 'v \<Rightarrow> ('k \<times> 'v) list \<Rightarrow> ('k \<times> 'v) list"
    and inv :: "('k \<times> 'v) list \<Rightarrow> bool"
  assumes inv_empty: "inv []"
    and entry_inv: "inv m \<Longrightarrow> inv (entry k f d m)"
    and entry_lookup: "inv m \<Longrightarrow> map_of (entry k f d m) = (map_of m)(k \<mapsto> f (case map_of m k of None \<Rightarrow> d | Some v \<Rightarrow> v))"
begin

text \<open>Every item that has a key is folded into the value of its key, in order, and nothing else is.\<close>

lemma fold_entry:
  fixes key :: "'x \<Rightarrow> 'k option" and upd :: "'x \<Rightarrow> 'v \<Rightarrow> 'v" and ini :: "'x \<Rightarrow> 'v"
  defines "step \<equiv> \<lambda>x m. case key x of None \<Rightarrow> m | Some k \<Rightarrow> entry k (upd x) (ini x) m"
  shows "inv (fold step xs []) \<and>
    map_of (fold step xs []) k =
      (case filter (\<lambda>x. key x = Some k) xs of [] \<Rightarrow> None | y # ys \<Rightarrow> Some (fold upd (y # ys) (ini y)))"
proof (induction xs arbitrary: k rule: rev_induct)
  case (snoc x xs)
  have inv: "inv (fold step xs [])" using snoc by blast
  show ?case
  proof (cases "key x")
    case None
    with snoc show ?thesis by (simp add: step_def)
  next
    case (Some k')
    have "map_of (fold step xs []) k' = (case filter (\<lambda>x. key x = Some k') xs of [] \<Rightarrow> None | y # ys \<Rightarrow> Some (fold upd (y # ys) (ini y)))"
      using snoc by blast
    with Some snoc inv show ?thesis
      by (auto simp: step_def entry_inv entry_lookup split: list.splits)
  qed
qed (simp add: inv_empty)

end

interpretation index_map: entry_api upsert "\<lambda>m. distinct (map fst m)"
  by unfold_locales (auto simp: map_of_upsert)

interpretation btree_map: entry_api btree_upsert "\<lambda>m. sorted_wrt (<) (map fst m)"
  by unfold_locales (auto simp: map_of_btree_upsert btree_upsert_sorted)

end
