(* ===== verification/Metric_Set.thy ===== *)
theory Metric_Set
  imports Histogram Assoc
begin

text \<open>
  Series of the metrics collector, \<^verbatim>\<open>crates/tropel-metrics/src/collector.rs\<close>: metric keys
  (\<^verbatim>\<open>MetricKey\<close>) and typed aggregates (\<^verbatim>\<open>MetricSet\<close>).

  A tag map is represented by the sorted vector of its pairs (\<^verbatim>\<open>to_sorted_arc_vec\<close>). Values that
  reach an aggregate are finite (\<^verbatim>\<open>record\<close> and \<^verbatim>\<open>record_batch\<close> drop the others), so they are
  rationals; \<^verbatim>\<open>f64::MAX\<close> and \<^verbatim>\<open>f64::MIN\<close> are the start values of the extremes.
\<close>

section \<open>Samples and keys\<close>

datatype metric_type = MCounter | MGauge | MRate | MTrend

datatype sample_type = SCounter | SPoint | SRate | STrend

record 'v sample =
  smp_metric :: string
  smp_tags :: "(string \<times> string) list"
  smp_value :: 'v
  smp_type :: sample_type

record metric_key =
  mk_metric :: string
  mk_tags :: "(string \<times> string) list"

definition key_of :: "'v sample \<Rightarrow> metric_key" where
  "key_of s = \<lparr>mk_metric = smp_metric s, mk_tags = smp_tags s\<rparr>"

definition to_key_string :: "metric_key \<Rightarrow> string" where
  "to_key_string k =
     (if mk_tags k = [] then mk_metric k
      else mk_metric k @ ''{'' @ join '','' (map (\<lambda>(t, v). t @ ''='' @ v) (mk_tags k)) @ ''}'')"

fun type_of_sample :: "sample_type \<Rightarrow> metric_type" where
  "type_of_sample SCounter = MCounter" | "type_of_sample SPoint = MGauge"
| "type_of_sample SRate = MRate" | "type_of_sample STrend = MTrend"

section \<open>Aggregates\<close>

record 'h metric_set =
  ms_type :: metric_type
  ms_hist :: "'h option"
  ms_hist_max :: "nat option"
  ms_hist_disabled :: bool
  ms_count :: rat
  ms_sum :: rat
  ms_min :: rat
  ms_max :: rat
  ms_last :: rat

definition set_new :: "metric_type \<Rightarrow> nat option \<Rightarrow> bool \<Rightarrow> 'h metric_set" where
  "set_new t hmax allow =
     \<lparr>ms_type = t, ms_hist = None, ms_hist_max = hmax, ms_hist_disabled = (\<not> allow),
      ms_count = 0, ms_sum = 0, ms_min = f64_max, ms_max = - f64_max, ms_last = 0\<rparr>"

definition add_value :: "rat \<Rightarrow> 'h metric_set \<Rightarrow> 'h metric_set" where
  "add_value v m = m\<lparr>ms_count := ms_count m + 1, ms_sum := ms_sum m + v\<rparr>"

definition see_value :: "rat \<Rightarrow> 'h metric_set \<Rightarrow> 'h metric_set" where
  "see_value v m =
     m\<lparr>ms_min := (if v < ms_min m then v else ms_min m), ms_max := (if v > ms_max m then v else ms_max m), ms_last := v\<rparr>"

definition get_hist :: "'h hdr \<Rightarrow> 'h metric_set \<Rightarrow> 'h" where
  "get_hist X m = (case ms_hist m of Some h \<Rightarrow> h | None \<Rightarrow> with_max X (ms_hist_max m))"

definition set_record :: "'h hdr \<Rightarrow> rat \<Rightarrow> 'h metric_set \<Rightarrow> 'h metric_set" where
  "set_record X v m =
     (case ms_type m of
        MCounter \<Rightarrow> add_value v m
      | MRate \<Rightarrow> add_value v m
      | MGauge \<Rightarrow> see_value v (add_value v m)
      | MTrend \<Rightarrow>
          (let m1 = (if \<not> ms_hist_disabled m
                     then m\<lparr>ms_hist := Some (record_ms X (max v 0) (get_hist X m))\<rparr> else m)
           in add_value v (see_value v m1)))"

definition trend_stats :: "'h hdr \<Rightarrow> 'h metric_set \<Rightarrow> histogram_stats" where
  "trend_stats X m = (case ms_hist m of Some h \<Rightarrow> lh_stats X h | None \<Rightarrow> stats_default)"

definition merge_from :: "'h hdr \<Rightarrow> 'h metric_set \<Rightarrow> 'h metric_set \<Rightarrow> 'h metric_set" where
  "merge_from X other m =
     (let m1 = m\<lparr>ms_count := ms_count m + ms_count other, ms_sum := ms_sum m + ms_sum other\<rparr>;
          m2 = (if ms_type m = MTrend
                then (case ms_hist other of Some h \<Rightarrow> m1\<lparr>ms_hist := Some (lh_merge X (get_hist X m) h)\<rparr> | None \<Rightarrow> m1)
                else m1)
      in if ms_type m = MGauge \<or> ms_type m = MTrend
         then m2\<lparr>ms_min := (if ms_min other < ms_min m then ms_min other else ms_min m),
                 ms_max := (if ms_max other > ms_max m then ms_max other else ms_max m), ms_last := ms_last other\<rparr>
         else m2)"

definition set_mean :: "'h metric_set \<Rightarrow> rat" where
  "set_mean m = (if ms_count m > 0 then ms_sum m / ms_count m else 0)"

definition set_rate :: "'h metric_set \<Rightarrow> rat" where
  "set_rate m = (if ms_count m > 0 then ms_sum m / ms_count m else 0)"

section \<open>What an aggregate holds\<close>

text \<open>
  The reference: what a list of values amounts to for a type, and the view of an aggregate that
  is compared with it (the histogram by its population).
\<close>

record aggregate_view =
  av_type :: metric_type
  av_count :: rat
  av_sum :: rat
  av_min :: rat
  av_max :: rat
  av_last :: rat
  av_population :: "nat multiset"

definition tracks_extremes :: "metric_type \<Rightarrow> bool" where
  "tracks_extremes t \<longleftrightarrow> t = MGauge \<or> t = MTrend"

definition view_of_values :: "(nat \<Rightarrow> nat) \<Rightarrow> metric_type \<Rightarrow> rat list \<Rightarrow> aggregate_view" where
  "view_of_values quant t vs =
     \<lparr>av_type = t, av_count = of_nat (length vs), av_sum = sum_list vs,
      av_min = (if tracks_extremes t then fold min vs f64_max else f64_max),
      av_max = (if tracks_extremes t then fold max vs (- f64_max) else - f64_max),
      av_last = (if tracks_extremes t \<and> vs \<noteq> [] then last vs else 0),
      av_population = (if t = MTrend then mset (map (\<lambda>v. quant (ms_to_us (max v 0))) vs) else {#})\<rparr>"

definition view :: "('h \<Rightarrow> nat multiset) \<Rightarrow> 'h metric_set \<Rightarrow> aggregate_view" where
  "view population m =
     \<lparr>av_type = ms_type m, av_count = ms_count m, av_sum = ms_sum m, av_min = ms_min m, av_max = ms_max m,
      av_last = ms_last m, av_population = (case ms_hist m of None \<Rightarrow> {#} | Some h \<Rightarrow> population h)\<rparr>"

lemma set_new_simps [simp]:
  "ms_type (set_new t hmax a) = t" "ms_hist (set_new t hmax a) = None" "ms_hist_max (set_new t hmax a) = hmax"
  "ms_hist_disabled (set_new t hmax a) = (\<not> a)" "ms_count (set_new t hmax a) = 0" "ms_sum (set_new t hmax a) = 0"
  by (simp_all add: set_new_def)

lemma set_record_frame [simp]:
  "ms_type (set_record X v m) = ms_type m" "ms_hist_max (set_record X v m) = ms_hist_max m"
  "ms_hist_disabled (set_record X v m) = ms_hist_disabled m"
  by (simp_all add: set_record_def add_value_def see_value_def Let_def split: metric_type.splits)

lemma get_hist_population:
  assumes "hdr_laws X quant population grows"
  shows "population (get_hist X m) = (case ms_hist m of None \<Rightarrow> {#} | Some h \<Rightarrow> population h)"
  using with_max_empty [OF assms] by (simp add: get_hist_def split: option.splits)

lemma min_less_simp: "(if (v :: rat) < m then v else m) = min v m"
  by simp

lemma max_less_simp: "(if m < (v :: rat) then v else m) = max v m"
  by simp

text \<open>Recording a value after a list of values gives what the longer list amounts to.\<close>

lemma view_record:
  assumes laws: "hdr_laws X quant population grows"
    and "view population m = view_of_values quant (ms_type m) vs" and "\<not> ms_hist_disabled m"
  shows "view population (set_record X v m) = view_of_values quant (ms_type m) (vs @ [v])"
proof -
  have "population (record_ms X (max v 0) (get_hist X m)) = add_mset (quant (ms_to_us (max v 0))) (av_population (view population m))"
    by (simp add: record_ms_def record_us_population [OF laws] get_hist_population [OF laws] view_def)
  with assms(2,3) show ?thesis
    by (cases "ms_type m")
      (simp_all add: set_record_def add_value_def see_value_def view_def view_of_values_def tracks_extremes_def Let_def
        min_less_simp max_less_simp)
qed

lemma view_new: "view population (set_new t hmax a) = view_of_values quant t []"
  by (simp add: view_def view_of_values_def set_new_def)

lemma view_fold:
  assumes laws: "hdr_laws X quant population grows"
  shows "view population (fold (set_record X) vs (set_new t hmax True)) = view_of_values quant t vs"
proof (induction vs rule: rev_induct)
  case (snoc v vs)
  let ?m = "fold (set_record X) vs (set_new t hmax True)"
  have "ms_type ?m = t \<and> \<not> ms_hist_disabled ?m" by (induction vs rule: rev_induct) simp_all
  with view_record [OF laws, of ?m vs v] snoc show ?case by simp
qed (simp add: view_new)

end
