(* ===== verification/Threshold_Expr.thy ===== *)
theory Threshold_Expr
  imports Floats "HOL-Library.Sublist"
begin

text \<open>
  Threshold expressions: validation at start-up and parsing for evaluation
  (\<^verbatim>\<open>crates/tropel-metrics/src/thresholds.rs\<close>; \<^verbatim>\<open>parse_percentile\<close> is in \<^verbatim>\<open>collector.rs\<close>).

  The byte loops of the source are recursions on the string that carry the piece read so far.
\<close>

record threshold_config =
  th_expression :: string
  th_abort_on_fail :: bool
  th_delay_abort_eval :: "string option"

section \<open>Splitting\<close>

text \<open>Splitting at a two-character separator, as \<^verbatim>\<open>str::split\<close> does.\<close>

fun split2 :: "char \<Rightarrow> char \<Rightarrow> string \<Rightarrow> string list" where
  "split2 a b [] = [[]]"
| "split2 a b [x] = [[x]]"
| "split2 a b (x # y # r) =
     (if x = a \<and> y = b then [] # split2 a b r
      else (case split2 a b (y # r) of [] \<Rightarrow> [[x]] | p # ps \<Rightarrow> (x # p) # ps))"

definition has_and :: "string \<Rightarrow> bool" where "has_and s = contains_str ''&&'' s"
definition has_or :: "string \<Rightarrow> bool" where "has_or s = contains_str ''||'' s"

definition keep :: "string \<Rightarrow> string list" where
  "keep cur = (let c = trim cur in if c = [] then [] else [c])"

text \<open>A piece is marked when it ends at \<^verbatim>\<open>||\<close>: the source splits such a group again.\<close>

fun clause_scan :: "nat \<Rightarrow> string \<Rightarrow> string \<Rightarrow> (bool \<times> string) list" where
  "clause_scan depth cur [] = map (Pair False) (keep cur)"
| "clause_scan depth cur [c] =
     map (Pair False) (keep (cur @ [c]))"
| "clause_scan depth cur (c # d # cs) =
     (if c = CHR ''{'' then clause_scan (depth + 1) (cur @ [c]) (d # cs)
      else if c = CHR ''}'' then clause_scan (depth - 1) (cur @ [c]) (d # cs)
      else if c = CHR ''&'' \<and> depth = 0 \<and> d = CHR ''&'' then map (Pair False) (keep cur) @ clause_scan depth [] cs
      else if c = CHR ''|'' \<and> depth = 0 \<and> d = CHR ''|'' then map (Pair True) (keep cur) @ clause_scan depth [] cs
      else clause_scan depth (cur @ [c]) (d # cs))"

lemma trim_length: "length (trim s) \<le> length s"
proof -
  have "length (dropWhile is_ws (rev (dropWhile is_ws s))) \<le> length (rev (dropWhile is_ws s))"
    by (rule length_dropWhile_le)
  also have "\<dots> \<le> length s" by (simp add: length_dropWhile_le)
  finally show ?thesis by (simp add: trim_def trim_start_def trim_end_def)
qed

lemma keep_length: "p \<in> set (keep cur) \<Longrightarrow> length p \<le> length cur"
  using trim_length [of cur] by (auto simp: keep_def Let_def split: if_splits)

lemma clause_scan_group_length:
  "(True, g) \<in> set (clause_scan depth cur s) \<Longrightarrow> length g < length cur + length s"
  by (induction depth cur s rule: clause_scan.induct) (auto dest!: keep_length split: if_splits)

function compound_clauses :: "string \<Rightarrow> string list" where
  "compound_clauses e =
     (if \<not> has_and e \<and> \<not> has_or e then [e]
      else (let r = concat (map (\<lambda>(group, p). if group then compound_clauses p else [p]) (clause_scan 0 [] e))
            in if r = [] then [e] else r))"
  by auto
termination
  by (relation "measure length") (auto dest!: clause_scan_group_length)

declare compound_clauses.simps [simp del]

fun brace_split :: "nat \<Rightarrow> string \<Rightarrow> string \<Rightarrow> string list" where
  "brace_split depth cur [] = (if cur = [] then [] else [cur])"
| "brace_split depth cur (c # cs) =
     (if c = CHR ''{'' then brace_split (depth + 1) (cur @ [c]) cs
      else if c = CHR ''}'' then brace_split (depth - 1) (cur @ [c]) cs
      else if (c = CHR '' '' \<or> c = CHR 0x09) \<and> depth = 0
           then (if cur = [] then [] else [cur]) @ brace_split depth [] cs
      else brace_split depth (cur @ [c]) cs)"

definition brace_aware_split :: "string \<Rightarrow> string list" where
  "brace_aware_split clause = brace_split 0 [] clause"

section \<open>Metric references\<close>

text \<open>The string before and after the last dot outside parentheses.\<close>

fun rsplit_dot :: "int \<Rightarrow> string \<Rightarrow> string \<Rightarrow> (string \<times> string) option" where
  "rsplit_dot depth suf [] = None"
| "rsplit_dot depth suf (c # rs) =
     (if c = CHR '')'' then rsplit_dot (depth + 1) (c # suf) rs
      else if c = CHR ''('' then rsplit_dot (depth - 1) (c # suf) rs
      else if c = CHR ''.'' \<and> depth \<le> 0 then Some (rev rs, suf)
      else rsplit_dot depth (c # suf) rs)"

definition rfind_dot_outside_parens :: "string \<Rightarrow> (string \<times> string) option" where
  "rfind_dot_outside_parens s = rsplit_dot 0 [] (rev s)"

definition parse_tag :: "string \<Rightarrow> (string \<times> string) option" where
  "parse_tag pair =
     (let p = trim pair in
      if p = [] then None
      else (let sep = (case (find_char CHR ''='' p, find_char CHR '':'' p) of
                         (Some i, Some j) \<Rightarrow> if i \<le> j then CHR ''='' else CHR '':''
                       | (None, Some j) \<Rightarrow> CHR '':''
                       | (_, None) \<Rightarrow> CHR ''='')
            in map_option (\<lambda>(k, v). (trim k, trim v)) (split_once sep p)))"

definition parse_metric_ref :: "string \<Rightarrow> string \<times> (string \<times> string) list \<times> string option" where
  "parse_metric_ref r =
     (let brace_start = find_char CHR ''{'' r;
          brace_close = (case brace_start of None \<Rightarrow> None
                         | Some s \<Rightarrow> map_option (\<lambda>i. s + i) (find_char CHR ''}'' (drop s r)));
          tags = (case (brace_start, brace_close) of
                    (Some bs, Some bc) \<Rightarrow> List.map_filter parse_tag (split_on CHR '','' (take (bc - (bs + 1)) (drop (bs + 1) r)))
                  | _ \<Rightarrow> []);
          before = (case brace_start of Some bs \<Rightarrow> take bs r | None \<Rightarrow> r);
          after = (case brace_close of Some bc \<Rightarrow> drop (bc + 1) r | None \<Rightarrow> [])
      in case rfind_dot_outside_parens after of
           Some (_, stat) \<Rightarrow> (before, tags, Some stat)
         | None \<Rightarrow> (case rfind_dot_outside_parens before of
                      Some (nm, stat) \<Rightarrow> (nm, tags, Some stat)
                    | None \<Rightarrow> (before, tags, None)))"

definition parse_percentile :: "string \<Rightarrow> f64 option" where
  "parse_percentile stat =
     (let s = trim stat in
      if starts_with ''p('' s \<and> ends_with '')'' s then parse_f64 (trim (take (length s - 1 - 2) (drop 2 s)))
      else (case strip_prefix ''p'' s of None \<Rightarrow> None | Some num \<Rightarrow> parse_f64 num))"

definition fixed_stats :: "string list" where
  "fixed_stats = [''avg'', ''min'', ''max'', ''p50'', ''median'', ''med'', ''p90'', ''p95'', ''p99'', ''count'', ''rate'',
     ''sum'', ''last'', ''value'', ''passed'', ''failed'', ''pass_rate'']"

definition is_known_stat :: "string \<Rightarrow> bool" where
  "is_known_stat stat \<longleftrightarrow> stat \<in> set fixed_stats \<or> parse_percentile stat \<noteq> None"

section \<open>Validation\<close>

datatype threshold_error =
    WrongTokenCount string string nat
  | UnknownOperator string string
  | NotANumber string
  | UnknownStatistic string string
  | PercentileOutOfRange string string

definition known_operators :: "string list" where
  "known_operators = [''<'', ''<='', ''>'', ''>='', ''=='', ''!='', ''==='']"

definition in_percent :: "f64 \<Rightarrow> bool" where
  "in_percent x \<longleftrightarrow> f64_le (Fin 0) x \<and> f64_le x (Fin 100)"

definition validate_clause :: "string \<Rightarrow> string \<Rightarrow> threshold_error + unit" where
  "validate_clause expr clause =
     (case brace_aware_split clause of
        [metric_ref, op, num] \<Rightarrow>
          (if op \<notin> set known_operators then Inl (UnknownOperator op clause)
           else if parse_f64 num = None then Inl (NotANumber num)
           else (case parse_metric_ref metric_ref of
                   (_, _, None) \<Rightarrow> Inr ()
                 | (_, _, Some s) \<Rightarrow>
                     if \<not> is_known_stat s then Inl (UnknownStatistic s clause)
                     else (case parse_percentile s of
                             Some pct \<Rightarrow> if \<not> in_percent pct then Inl (PercentileOutOfRange s clause) else Inr ()
                           | None \<Rightarrow> Inr ())))
      | parts \<Rightarrow> Inl (WrongTokenCount clause expr (length parts)))"

definition validate_expression :: "string \<Rightarrow> threshold_error + unit" where
  "validate_expression e =
     (let expr = trim e in bindE (mapM (validate_clause expr) (compound_clauses expr)) (\<lambda>_. Inr ()))"

text \<open>The loop over the configured thresholds, in the order the map yields them; the name is part of the message.\<close>

fun validate_thresholds :: "(string \<times> threshold_config) list \<Rightarrow> (string \<times> threshold_error) + unit" where
  "validate_thresholds [] = Inr ()"
| "validate_thresholds ((nm, cfg) # ts) =
     (case validate_expression (th_expression cfg) of Inl e \<Rightarrow> Inl (nm, e) | Inr _ \<Rightarrow> validate_thresholds ts)"

section \<open>Parsing for evaluation\<close>

datatype parsed_threshold =
    Compound string "parsed_threshold list list"
  | Single (pt_expression: string) (pt_operator: string) (pt_threshold: f64) (pt_metric: string)
      (pt_tags: "(string \<times> string) list") (pt_stat: "string option")

definition nth_token :: "nat \<Rightarrow> string list \<Rightarrow> string" where
  "nth_token i ps = (if i < length ps then ps ! i else [])"

definition parse_single :: "string \<Rightarrow> parsed_threshold" where
  "parse_single e =
     (let parts = split_whitespace e;
          threshold = (if 2 < length parts then (case parse_f64 (parts ! 2) of Some x \<Rightarrow> x | None \<Rightarrow> Fin 0) else Fin 0);
          (nm, tags, stat) = parse_metric_ref (nth_token 0 parts)
      in Single e (nth_token 1 parts) threshold nm tags stat)"

definition and_clauses :: "string \<Rightarrow> string list" where
  "and_clauses g = filter (\<lambda>c. c \<noteq> []) (map trim (split2 CHR ''&'' CHR ''&'' g))"

definition or_groups :: "string \<Rightarrow> string list list" where
  "or_groups e = filter (\<lambda>g. g \<noteq> []) (map and_clauses (split2 CHR ''|'' CHR ''|'' e))"

text \<open>Occurrence of a separator, and pieces as contiguous parts.\<close>

lemma starts_with_prefix: "starts_with p s \<longleftrightarrow> prefix p s"
  by (metis append_eq_conv_conj prefix_def starts_with_def take_is_prefix)

lemma contains_str_sublist: "contains_str p s \<longleftrightarrow> sublist p s"
  by (induction s) (auto simp: starts_with_prefix sublist_Cons_right)

lemma split2_nonempty [simp]: "split2 a b s \<noteq> []"
  by (induction a b s rule: split2.induct) (auto split: list.splits)

lemma split2_head: "x \<noteq> a \<or> y \<noteq> b \<Longrightarrow> split2 a b (x # y # r) = (x # hd (split2 a b (y # r))) # tl (split2 a b (y # r))"
  by (auto split: list.split)

lemma split2_first: "hd (split2 a b s) = [] \<or> (\<exists>x r t. s = x # r \<and> hd (split2 a b s) = x # t)"
  by (induction a b s rule: split2.induct) (auto split: list.split)

lemma split2_no_sep: "q \<in> set (split2 a b s) \<Longrightarrow> \<not> sublist [a, b] q"
proof (induction a b s arbitrary: q rule: split2.induct)
  case (3 a b x y r)
  show ?case
  proof (cases "x = a \<and> y = b")
    case False
    then have "split2 a b (x # y # r) = (x # hd (split2 a b (y # r))) # tl (split2 a b (y # r))" by (rule split2_head [OF de_Morgan_conj [THEN iffD1]])
    with "3.prems" consider "q = x # hd (split2 a b (y # r))" | "q \<in> set (tl (split2 a b (y # r)))" by auto
    then show ?thesis
    proof cases
      case 1
      have "\<not> sublist [a, b] (hd (split2 a b (y # r)))" using "3.IH"(2) [OF False] by simp
      moreover have "\<not> prefix [a, b] q" using 1 False split2_first [of a b "y # r"] by auto
      ultimately show ?thesis using 1 by (simp add: sublist_Cons_right)
    next
      case 2
      then show ?thesis using "3.IH"(2) [OF False] list.set_sel(2) by (metis list.sel(2) split2_nonempty)
    qed
  qed (use 3 in \<open>auto simp: sublist_Nil_right\<close>)
qed (auto simp: sublist_Cons_right)

lemma split2_sublist: "q \<in> set (split2 a b s) \<Longrightarrow> sublist q s"
proof -
  have "prefix (hd (split2 a b s)) s \<and> (\<forall>q \<in> set (split2 a b s). sublist q s)"
  proof (induction a b s rule: split2.induct)
    case (3 a b x y r)
    then show ?case
      by (cases "split2 a b (y # r)") (auto split: if_splits intro: sublist_Cons_right [THEN iffD2] disjI2)
  qed auto
  then show "q \<in> set (split2 a b s) \<Longrightarrow> sublist q s" by blast
qed

lemma trim_sublist: "sublist (trim s) s"
proof -
  have "sublist (trim s) (dropWhile is_ws s)"
    unfolding trim_def trim_start_def trim_end_def
    by (metis rev_rev_ident sublist_rev suffix_dropWhile suffix_imp_sublist)
  then show ?thesis using sublist_order.order_trans suffix_dropWhile suffix_imp_sublist by metis
qed

lemma or_groups_plain:
  assumes "g \<in> set (or_groups e)" and "c \<in> set g"
  shows "\<not> has_and c" "\<not> has_or c"
proof -
  obtain h q where h: "h \<in> set (split2 CHR ''|'' CHR ''|'' e)" and q: "q \<in> set (split2 CHR ''&'' CHR ''&'' h)" and c: "c = trim q"
    using assms by (auto simp: or_groups_def and_clauses_def)
  have "sublist c q" "sublist c h" using trim_sublist [of q] split2_sublist [OF q] sublist_order.order_trans c by auto
  then show "\<not> has_and c" "\<not> has_or c"
    using split2_no_sep [OF h] split2_no_sep [OF q] sublist_order.order_trans
    unfolding has_and_def has_or_def contains_str_sublist by blast+
qed

function parse_threshold :: "string \<Rightarrow> parsed_threshold" where
  "parse_threshold e =
     (if has_and e \<or> has_or e then Compound e (map (map parse_threshold) (or_groups e)) else parse_single e)"
  by auto
termination
  by (relation "measure (\<lambda>e. if has_and e \<or> has_or e then 1 else 0)") (auto dest: or_groups_plain)

declare parse_threshold.simps [simp del]

lemma parse_threshold_simps:
  "has_and e \<or> has_or e \<Longrightarrow> parse_threshold e = Compound e (map (map parse_single) (or_groups e))"
  "\<not> has_and e \<Longrightarrow> \<not> has_or e \<Longrightarrow> parse_threshold e = parse_single e"
  by (auto simp: parse_threshold.simps [of e] parse_threshold.simps dest: or_groups_plain)

section \<open>The validator and the parser agree\<close>

text \<open>
  Without braces, scanning for both operators at once, and splitting at \<^verbatim>\<open>||\<close> and then at
  \<^verbatim>\<open>&&\<close>, give the same pieces.
\<close>

definition op_at :: "char \<Rightarrow> char \<Rightarrow> bool" where
  "op_at x y \<longleftrightarrow> (x = CHR ''&'' \<and> y = CHR ''&'') \<or> (x = CHR ''|'' \<and> y = CHR ''|'')"

fun pieces :: "string \<Rightarrow> string list" where
  "pieces [] = [[]]"
| "pieces [x] = [[x]]"
| "pieces (x # y # r) =
     (if op_at x y then [] # pieces r
      else (case pieces (y # r) of [] \<Rightarrow> [[x]] | p # ps \<Rightarrow> (x # p) # ps))"

lemma pieces_nonempty [simp]: "pieces s \<noteq> []"
  by (induction s rule: pieces.induct) (auto split: list.splits)

lemma pieces_head: "\<not> op_at x y \<Longrightarrow> pieces (x # y # r) = (x # hd (pieces (y # r))) # tl (pieces (y # r))"
  by (auto split: list.split)

lemma split2_other: "x \<noteq> a \<Longrightarrow> split2 a b (x # s) = (x # hd (split2 a b s)) # tl (split2 a b s)"
  by (cases s) (auto split: list.split)

lemma split2_hd_tl: "split2 a b s = hd (split2 a b s) # tl (split2 a b s)"
  by simp

lemma split2_and_cons:
  assumes "\<not> op_at x y"
  shows "split2 CHR ''&'' CHR ''&'' (x # hd (split2 CHR ''|'' CHR ''|'' (y # r)))
    = (x # hd (split2 CHR ''&'' CHR ''&'' (hd (split2 CHR ''|'' CHR ''|'' (y # r)))))
      # tl (split2 CHR ''&'' CHR ''&'' (hd (split2 CHR ''|'' CHR ''|'' (y # r))))"
proof -
  from split2_first [of "CHR ''|''" "CHR ''|''" "y # r"] consider "hd (split2 CHR ''|'' CHR ''|'' (y # r)) = []"
    | t where "hd (split2 CHR ''|'' CHR ''|'' (y # r)) = y # t" by auto
  then show ?thesis
  proof cases
    case 2
    then show ?thesis using assms by (simp only: split2_head op_at_def simp_thms) (subst split2_head, auto simp: op_at_def)
  qed simp
qed

lemma split2_pieces: "concat (map (split2 CHR ''&'' CHR ''&'') (split2 CHR ''|'' CHR ''|'' s)) = pieces s"
proof (induction s rule: pieces.induct)
  case (3 x y r)
  let ?O = "split2 CHR ''|'' CHR ''|''" and ?A = "split2 CHR ''&'' CHR ''&''"
  have hdtl: "concat (map ?A (?O t)) = ?A (hd (?O t)) @ concat (map ?A (tl (?O t)))" for t by (cases "?O t") simp_all
  show ?case
  proof (cases "op_at x y")
    case True
    then consider "x = CHR ''|''" "y = CHR ''|''" | "x = CHR ''&''" "y = CHR ''&''" by (auto simp: op_at_def)
    then show ?thesis
    proof cases
      case 2
      then have "?O (x # y # r) = (x # y # hd (?O r)) # tl (?O r)" by (simp add: split2_other)
      then show ?thesis using 2 "3.IH"(1) [OF True] True hdtl [of r] by simp
    qed (use "3.IH"(1) [OF True] True in simp)
  next
    case False
    then have "?O (x # y # r) = (x # hd (?O (y # r))) # tl (?O (y # r))" by (intro split2_head) (auto simp: op_at_def)
    then have "concat (map ?A (?O (x # y # r))) = ?A (x # hd (?O (y # r))) @ concat (map ?A (tl (?O (y # r))))" by simp
    also have "\<dots> = (x # hd (?A (hd (?O (y # r))))) # tl (?A (hd (?O (y # r)))) @ concat (map ?A (tl (?O (y # r))))"
      by (simp add: split2_and_cons [OF False])
    also have "\<dots> = (x # hd (pieces (y # r))) # tl (pieces (y # r))"
      using "3.IH"(2) [OF False] hdtl [of "y # r"] by (metis append_Cons list.sel(1,3) split2_hd_tl)
    finally show ?thesis using pieces_head [OF False, of r] by simp
  qed
qed simp_all

definition clauses :: "string \<Rightarrow> string list" where
  "clauses s = filter (\<lambda>c. c \<noteq> []) (map trim (pieces s))"

lemma or_groups_clauses: "concat (or_groups e) = clauses e"
proof -
  have "concat (filter (\<lambda>g. g \<noteq> []) xs) = concat xs" for xs :: "string list list" by (induction xs) auto
  then show ?thesis
    by (simp add: or_groups_def clauses_def and_clauses_def [abs_def] comp_def flip: split2_pieces)
       (simp add: map_concat filter_concat comp_def)
qed

lemma keep_filter: "keep c = filter (\<lambda>c. c \<noteq> []) (map trim [c])"
  by (simp add: keep_def Let_def)

lemma clause_scan_pieces:
  assumes "CHR ''{'' \<notin> set s" and "CHR ''}'' \<notin> set s"
  shows "map snd (clause_scan 0 cur s) = filter (\<lambda>c. c \<noteq> []) (map trim ((cur @ hd (pieces s)) # tl (pieces s)))"
  using assms
proof (induction s arbitrary: cur rule: pieces.induct)
  case (3 c d cs)
  have nb: "c \<noteq> CHR ''{''" "c \<noteq> CHR ''}''" using "3.prems" by auto
  show ?case
  proof (cases "op_at c d")
    case True
    have "map snd (clause_scan 0 cur (c # d # cs)) = keep cur @ map snd (clause_scan 0 [] cs)"
      using True unfolding op_at_def by (elim disjE conjE) (simp_all add: comp_def)
    also have "map snd (clause_scan 0 [] cs) = filter (\<lambda>c. c \<noteq> []) (map trim (pieces cs))"
      using "3.IH"(1) [OF True, of "[]"] "3.prems" by (cases "pieces cs") simp_all
    finally show ?thesis using True by (simp add: keep_filter)
  next
    case False
    then have "clause_scan 0 cur (c # d # cs) = clause_scan 0 (cur @ [c]) (d # cs)"
      using nb unfolding op_at_def by (simp only: clause_scan.simps if_False simp_thms) auto
    moreover have "map snd (clause_scan 0 (cur @ [c]) (d # cs))
        = filter (\<lambda>c. c \<noteq> []) (map trim ((cur @ [c] @ hd (pieces (d # cs))) # tl (pieces (d # cs))))"
      using "3.IH"(2) [OF False, of "cur @ [c]"] "3.prems" by simp
    ultimately show ?thesis unfolding pieces_head [OF False] by simp
  qed
qed (auto simp: keep_filter comp_def)

lemma pieces_plain:
  assumes "q \<in> set (pieces s)"
  shows "\<not> has_and q" "\<not> has_or q"
proof -
  obtain h where h: "h \<in> set (split2 CHR ''|'' CHR ''|'' s)" and q: "q \<in> set (split2 CHR ''&'' CHR ''&'' h)"
    using assms unfolding split2_pieces [symmetric] by auto
  show "\<not> has_and q" "\<not> has_or q"
    using split2_no_sep [OF h] split2_no_sep [OF q] split2_sublist [OF q] sublist_order.order_trans
    unfolding has_and_def has_or_def contains_str_sublist by blast+
qed

lemma clauses_plain: "c \<in> set (clauses s) \<Longrightarrow> \<not> has_and c \<and> \<not> has_or c"
proof -
  assume "c \<in> set (clauses s)"
  then obtain q where "q \<in> set (pieces s)" and c: "c = trim q" by (auto simp: clauses_def)
  then show ?thesis using pieces_plain [of q s] trim_sublist [of q] sublist_order.order_trans
    unfolding has_and_def has_or_def contains_str_sublist c by blast
qed

lemma has_op_pieces: "has_and s \<or> has_or s \<longleftrightarrow> tl (pieces s) \<noteq> []"
proof (induction s rule: pieces.induct)
  case (3 x y r)
  have eq: "has_and (x # y # r) \<or> has_or (x # y # r) \<longleftrightarrow> op_at x y \<or> has_and (y # r) \<or> has_or (y # r)"
    unfolding has_and_def has_or_def op_at_def by (auto simp: starts_with_def)
  show ?case
  proof (cases "op_at x y")
    case False
    then show ?thesis unfolding eq pieces_head [OF False] using "3.IH"(2) by simp
  qed (use eq in simp)
qed (simp_all add: has_and_def has_or_def starts_with_def)

text \<open>White space at either end of an expression does not matter.\<close>

lemma trim_cons_ws [simp]: "is_ws c \<Longrightarrow> trim (c # s) = trim s"
  by (simp add: trim_def trim_start_def)

lemma trim_snoc_ws [simp]: "is_ws c \<Longrightarrow> trim (s @ [c]) = trim s"
  by (auto simp: trim_def trim_start_def trim_end_def dropWhile_append dropWhile_eq_Nil_conv [THEN iffD2])

lemma ws_not_op: "is_ws c \<Longrightarrow> \<not> op_at c d \<and> \<not> op_at d c"
  by (auto simp: op_at_def is_ws_def)

lemma pieces_cons_ws: "is_ws c \<Longrightarrow> map trim (pieces (c # s)) = map trim (pieces s)"
proof (cases s)
  case (Cons d r)
  assume "is_ws c"
  then have "pieces (c # d # r) = (c # hd (pieces (d # r))) # tl (pieces (d # r))" using pieces_head ws_not_op by blast
  then show ?thesis using \<open>is_ws c\<close> Cons by (cases "pieces (d # r)") simp_all
qed simp

lemma pieces_snoc: "(\<And>d. \<not> op_at d c) \<Longrightarrow> pieces (s @ [c]) = butlast (pieces s) @ [last (pieces s) @ [c]]"
proof (induction s rule: pieces.induct)
  case (3 x y r)
  show ?case
  proof (cases "op_at x y")
    case False
    have P: "pieces (y # r @ [c]) = butlast (pieces (y # r)) @ [last (pieces (y # r)) @ [c]]"
      using "3.IH"(2) [OF False "3.prems"] by simp
    have "pieces (x # y # r @ [c]) = (x # hd (pieces (y # r @ [c]))) # tl (pieces (y # r @ [c]))" by (rule pieces_head [OF False])
    then show ?thesis unfolding pieces_head [OF False] append_Cons P
      by (cases "pieces (y # r)"; cases "tl (pieces (y # r))") simp_all
  qed (use 3 in simp)
qed simp_all

lemma pieces_snoc_ws:
  assumes "is_ws c"
  shows "map trim (pieces (s @ [c])) = map trim (pieces s)"
proof -
  have "map trim (pieces (s @ [c])) = map trim (butlast (pieces s)) @ [trim (last (pieces s))]"
    using pieces_snoc [of c s] ws_not_op [OF assms] assms by simp
  also have "\<dots> = map trim (butlast (pieces s) @ [last (pieces s)])" by (simp only: map_append list.map)
  finally show ?thesis unfolding append_butlast_last_id [OF pieces_nonempty] .
qed

lemma pieces_trim: "map trim (pieces (trim s)) = map trim (pieces s)"
proof -
  have l: "map trim (pieces (dropWhile is_ws s)) = map trim (pieces s)" for s
    by (induction s) (simp_all add: pieces_cons_ws)
  have r: "map trim (pieces (rev (dropWhile is_ws (rev s)))) = map trim (pieces s)" for s
    by (induction s rule: rev_induct) (simp_all add: pieces_snoc_ws)
  show ?thesis by (simp add: trim_def trim_start_def trim_end_def l r)
qed

lemma clauses_trim: "clauses (trim s) = clauses s"
  by (simp add: clauses_def pieces_trim)

lemma has_op_trim: "has_and (trim s) \<or> has_or (trim s) \<longleftrightarrow> has_and s \<or> has_or s"
  unfolding has_op_pieces using arg_cong [OF pieces_trim [of s], of length]
  by (metis length_0_conv length_map length_tl)

text \<open>The clauses the validator sees in an expression without braces.\<close>

lemma compound_clauses_plain: "\<not> has_and e \<Longrightarrow> \<not> has_or e \<Longrightarrow> compound_clauses e = [e]"
  by (simp add: compound_clauses.simps)

lemma compound_clauses_eq:
  assumes "CHR ''{'' \<notin> set e" and "CHR ''}'' \<notin> set e" and "has_and e \<or> has_or e"
  shows "compound_clauses e = (if clauses e = [] then [e] else clauses e)"
proof -
  have snds: "map snd (clause_scan 0 [] e) = clauses e"
    using clause_scan_pieces [OF assms(1,2), of "[]"] by (cases "pieces e") (simp_all add: clauses_def)
  have "concat (map (\<lambda>(group, p). if group then compound_clauses p else [p]) xs) = map snd xs"
    if "set (map snd xs) \<subseteq> set (clauses e)" for xs
    using that clauses_plain by (induction xs) (auto simp: compound_clauses_plain)
  from this [of "clause_scan 0 [] e"] snds show ?thesis using assms(3) by (subst compound_clauses.simps) (auto simp: Let_def)
qed

text \<open>Tokens of a clause without braces.\<close>

definition plain_expr :: "string \<Rightarrow> bool" where
  "plain_expr e \<longleftrightarrow> (\<forall>c \<in> set e. c \<noteq> CHR ''{'' \<and> c \<noteq> CHR ''}'' \<and> (is_ws c \<longrightarrow> c = CHR '' '' \<or> c = CHR 0x09))"

lemma brace_split_ws: "plain_expr s \<Longrightarrow> brace_split 0 w s = split_ws_acc w s"
proof (induction s arbitrary: w)
  case (Cons c cs)
  then have "is_ws c \<longrightarrow> c = CHR '' '' \<or> c = CHR 0x09" "plain_expr cs" "c \<noteq> CHR ''{''" "c \<noteq> CHR ''}''"
    by (simp_all add: plain_expr_def)
  moreover have "is_ws CHR '' ''" "is_ws CHR 0x09" by (simp_all add: is_ws_def)
  ultimately show ?case using Cons.IH by (cases "is_ws c") auto
qed simp

lemma split_ws_cons: "is_ws c \<Longrightarrow> split_ws_acc [] (c # s) = split_ws_acc [] s"
  by simp

lemma split_ws_snoc: "is_ws c \<Longrightarrow> split_ws_acc w (s @ [c]) = split_ws_acc w s"
  by (induction w s rule: split_ws_acc.induct) auto

lemma split_whitespace_trim: "split_whitespace (trim s) = split_whitespace s"
proof -
  have l: "split_ws_acc [] (dropWhile is_ws s) = split_ws_acc [] s" for s by (induction s) simp_all
  have r: "split_ws_acc [] (rev (dropWhile is_ws (rev s))) = split_ws_acc [] s" for s
    by (induction s rule: rev_induct) (simp_all add: split_ws_snoc)
  show ?thesis by (simp add: split_whitespace_def trim_def trim_start_def trim_end_def l r)
qed

text \<open>What the validator reads in a clause, and what the parser reads.\<close>

definition clause_fields :: "string list \<Rightarrow> string \<times> f64 \<times> string \<times> (string \<times> string) list \<times> string option" where
  "clause_fields parts = (parts ! 1, the (parse_f64 (parts ! 2)), parse_metric_ref (parts ! 0))"

primrec leaves :: "parsed_threshold \<Rightarrow> parsed_threshold list" where
  "leaves (Compound e gs) = concat (concat (map (map leaves) gs))"
| "leaves (Single e op th nm tags stat) = [Single e op th nm tags stat]"

definition leaf_fields :: "parsed_threshold \<Rightarrow> string \<times> f64 \<times> string \<times> (string \<times> string) list \<times> string option" where
  "leaf_fields l = (pt_operator l, pt_threshold l, pt_metric l, pt_tags l, pt_stat l)"

definition leaf_ok :: "parsed_threshold \<Rightarrow> bool" where
  "leaf_ok l \<longleftrightarrow> pt_operator l \<in> set known_operators
     \<and> (\<forall>s. pt_stat l = Some s \<longrightarrow> is_known_stat s \<and> (\<forall>p. parse_percentile s = Some p \<longrightarrow> in_percent p))"

lemma validate_clauseD:
  assumes "validate_clause expr c = Inr u"
  shows "\<exists>m op num. brace_aware_split c = [m, op, num] \<and> op \<in> set known_operators \<and> parse_f64 num \<noteq> None
    \<and> (\<forall>s. snd (snd (parse_metric_ref m)) = Some s \<longrightarrow> is_known_stat s \<and> (\<forall>p. parse_percentile s = Some p \<longrightarrow> in_percent p))"
  using assms unfolding validate_clause_def
  by (auto split: list.splits if_splits prod.splits option.splits)

lemma parse_single_leaf:
  assumes v: "validate_clause expr c = Inr u" and ws: "split_whitespace e = brace_aware_split c"
  shows "leaves (parse_single e) = [parse_single e]" "leaf_ok (parse_single e)"
    "leaf_fields (parse_single e) = clause_fields (brace_aware_split c)"
proof -
  obtain m op num where p: "brace_aware_split c = [m, op, num]" "op \<in> set known_operators" "parse_f64 num \<noteq> None"
    "\<forall>s. snd (snd (parse_metric_ref m)) = Some s \<longrightarrow> is_known_stat s \<and> (\<forall>p. parse_percentile s = Some p \<longrightarrow> in_percent p)"
    using validate_clauseD [OF v] by blast
  obtain nm tags stat where r: "parse_metric_ref m = (nm, tags, stat)" by (cases "parse_metric_ref m")
  obtain x where x: "parse_f64 num = Some x" using p(3) by blast
  have "parse_single e = Single e op x nm tags stat" using p(1) r x by (simp add: parse_single_def ws nth_token_def)
  then show "leaves (parse_single e) = [parse_single e]" "leaf_ok (parse_single e)"
    "leaf_fields (parse_single e) = clause_fields (brace_aware_split c)"
    using p r x by (simp_all add: leaf_ok_def leaf_fields_def clause_fields_def)
qed

lemma clauses_sublist: "c \<in> set (clauses s) \<Longrightarrow> set c \<subseteq> set s"
proof -
  assume "c \<in> set (clauses s)"
  then obtain h q where h: "h \<in> set (split2 CHR ''|'' CHR ''|'' s)" "q \<in> set (split2 CHR ''&'' CHR ''&'' h)" "c = trim q"
    by (auto simp: clauses_def split2_pieces [symmetric])
  then have "sublist c s" using trim_sublist split2_sublist sublist_order.order_trans by metis
  then show ?thesis by (rule set_mono_sublist)
qed

lemma pieces_chars: "set s \<subseteq> {CHR ''&'', CHR ''|''} \<union> \<Union> (set ` set (pieces s))"
proof (induction s rule: pieces.induct)
  case (3 x y r)
  show ?case
  proof (cases "op_at x y")
    case True
    then show ?thesis using "3.IH"(1) by (auto simp: op_at_def)
  next
    case False
    then show ?thesis unfolding pieces_head [OF False] using "3.IH"(2) by (cases "pieces (y # r)") auto
  qed
qed auto

lemma trim_Nil: "trim q = [] \<Longrightarrow> c \<in> set q \<Longrightarrow> is_ws c"
  by (auto simp: trim_def trim_start_def trim_end_def dropWhile_eq_Nil_conv) (metis Un_iff set_append set_takeWhileD takeWhile_dropWhile_id)

lemma split_ws_chars: "t \<in> set (split_ws_acc w s) \<Longrightarrow> c \<in> set t \<Longrightarrow> c \<in> set w \<or> (c \<in> set s \<and> \<not> is_ws c)"
  by (induction w s rule: split_ws_acc.induct) (auto split: if_splits)

lemma only_operators_no_clause:
  assumes "clauses s = []" and "t \<in> set (split_ws_acc [] s)"
  shows "t \<notin> set known_operators"
proof
  assume t: "t \<in> set known_operators"
  have "c = CHR ''&'' \<or> c = CHR ''|''" if "c \<in> set t" for c
  proof -
    have "c \<in> set s" "\<not> is_ws c" using split_ws_chars [OF assms(2) that] by auto
    moreover have "is_ws c" if "q \<in> set (pieces s)" "c \<in> set q" for q
      using assms(1) trim_Nil [of q c] that by (auto simp: clauses_def filter_empty_conv)
    ultimately show ?thesis using pieces_chars [of s] by auto
  qed
  from this [of "hd t"] t show False by (auto simp: known_operators_def)
qed



end
