(* ===== verification/Metric_Result.thy ===== *)
theory Metric_Result
  imports Metric_Set Threshold_Expr
begin

text \<open>
  Summaries and results of the metrics collector (\<^verbatim>\<open>MetricSummary\<close>, \<^verbatim>\<open>MetricsResult\<close> and the
  statistics read from them, \<^verbatim>\<open>crates/tropel-metrics/src/collector.rs\<close>).
\<close>

record 'h metric_summary =
  sum_key :: string
  sum_tags :: "(string \<times> string) list"
  sum_type :: metric_type
  sum_count :: nat
  sum_sum :: rat
  sum_mean :: rat
  sum_min :: rat
  sum_max :: rat
  sum_p50 :: rat
  sum_p90 :: rat
  sum_p95 :: rat
  sum_p99 :: rat
  sum_last :: rat
  sum_rate :: rat
  sum_hist :: "'h option"

record 'h metrics_result =
  res_metrics :: "'h metric_summary list"
  res_per_url :: "'h metric_summary list"
  res_per_group :: "'h metric_summary list"
  checks_total :: nat
  checks_passed :: nat
  checks_failed :: nat
  vu_init_failures :: nat
  script_failures :: nat
  http_reqs :: nat
  http_req_duration :: "'h metric_summary option"
  iteration_duration :: "'h metric_summary option"
  data_received :: rat
  data_sent :: rat
  errors :: nat
  series_dropped :: nat
  output_samples_dropped :: nat
  aggregator_samples_dropped :: nat
  dropped_iterations :: nat
  http_req_failed :: rat
  http_req_failed_count :: rat
  http_req_failed_total :: rat
  iterations :: nat
  vus_max :: nat
  requested_vus :: nat
  effective_vus :: nat
  effective_vus_reason :: "string option"
  run_duration :: nat
  summary_trend_stats :: "string list"
  effective_thresholds :: "(string \<times> threshold_config) list"

definition k6_default_trend_stats :: "string list" where
  "k6_default_trend_stats = [''avg'', ''min'', ''med'', ''max'', ''p(90)'', ''p(95)'', ''p(99)'']"

definition default_result :: "'h metrics_result" where
  "default_result =
     \<lparr>res_metrics = [], res_per_url = [], res_per_group = [], checks_total = 0, checks_passed = 0, checks_failed = 0,
      vu_init_failures = 0, script_failures = 0, http_reqs = 0, http_req_duration = None, iteration_duration = None,
      data_received = 0, data_sent = 0, errors = 0, series_dropped = 0, output_samples_dropped = 0,
      aggregator_samples_dropped = 0, dropped_iterations = 0, http_req_failed = 0, http_req_failed_count = 0,
      http_req_failed_total = 0, iterations = 0, vus_max = 0, requested_vus = 0, effective_vus = 0,
      effective_vus_reason = None, run_duration = 0, summary_trend_stats = k6_default_trend_stats, effective_thresholds = []\<rparr>"

definition is_unverified :: "'h metrics_result \<Rightarrow> bool" where
  "is_unverified r \<longleftrightarrow> dropped_iterations r > 0 \<or> series_dropped r > 0 \<or> output_samples_dropped r > 0
     \<or> aggregator_samples_dropped r > 0"

definition run_failed :: "'h metrics_result \<Rightarrow> bool" where
  "run_failed r \<longleftrightarrow> checks_failed r > 0 \<or> script_failures r > 0 \<or> vu_init_failures r > 0"

definition trend_summary ::
  "string \<Rightarrow> (string \<times> string) list \<Rightarrow> nat \<Rightarrow> rat \<Rightarrow> rat \<Rightarrow> rat \<Rightarrow> rat \<Rightarrow> rat \<Rightarrow> histogram_stats \<Rightarrow> 'h option \<Rightarrow> 'h metric_summary" where
  "trend_summary key tags n s mean raw_min raw_max lst stats hist =
     \<lparr>sum_key = key, sum_tags = tags, sum_type = MTrend, sum_count = n, sum_sum = s, sum_mean = mean,
      sum_min = (if raw_min = f64_max then 0 else raw_min), sum_max = (if raw_max = - f64_max then 0 else raw_max),
      sum_p50 = st_p50 stats, sum_p90 = st_p90 stats, sum_p95 = st_p95 stats, sum_p99 = st_p99 stats,
      sum_last = lst, sum_rate = 0, sum_hist = hist\<rparr>"

definition percentile_value :: "'h hdr \<Rightarrow> 'h metric_summary \<Rightarrow> f64 \<Rightarrow> rat" where
  "percentile_value X m pct =
     (case sum_hist m of
        Some h \<Rightarrow> lh_percentile X h pct
      | None \<Rightarrow> if f64_le pct (Fin 50) then sum_p50 m
                else if f64_le pct (Fin 90) then sum_p90 m
                else if f64_le pct (Fin 95) then sum_p95 m else sum_p99 m)"

definition trend_stat_value :: "'h hdr \<Rightarrow> string \<Rightarrow> 'h metric_summary \<Rightarrow> rat option" where
  "trend_stat_value X stat m =
     (let s = trim stat in
      if s = ''avg'' \<or> s = ''mean'' then Some (sum_mean m)
      else if s = ''min'' then Some (sum_min m)
      else if s = ''med'' \<or> s = ''median'' then Some (sum_p50 m)
      else if s = ''max'' then Some (sum_max m)
      else if s = ''count'' then Some (of_nat (sum_count m))
      else if s = ''sum'' then Some (sum_sum m)
      else if s = ''rate'' then Some (sum_rate m)
      else map_option (percentile_value X m) (parse_percentile s))"

definition stat_needs_histogram :: "string \<Rightarrow> bool" where
  "stat_needs_histogram stat =
     (let s = trim stat in
      if s \<in> set [''avg'', ''mean'', ''min'', ''max'', ''count'', ''sum'', ''rate'', ''last''] then False
      else if s \<in> set [''median'', ''med'', ''p50'', ''p90'', ''p95'', ''p99''] then True
      else parse_percentile s \<noteq> None)"

definition clause_needs_histogram :: "string \<Rightarrow> bool" where
  "clause_needs_histogram clause =
     (case snd (snd (parse_metric_ref (nth_token 0 (split_whitespace clause)))) of
        Some stat \<Rightarrow> stat_needs_histogram stat | None \<Rightarrow> False)"

definition config_needs_histograms :: "string list \<Rightarrow> (string \<times> threshold_config) list \<Rightarrow> bool" where
  "config_needs_histograms stats ts \<longleftrightarrow>
     list_ex stat_needs_histogram stats
     \<or> list_ex (\<lambda>(_, t). list_ex clause_needs_histogram
          (filter (\<lambda>c. trim c \<noteq> []) (concat (map (split2 CHR ''&'' CHR ''&'') (split2 CHR ''|'' CHR ''|'' (th_expression t)))))) ts"

section \<open>The fallback percentile\<close>

text \<open>
  Without a histogram the nearest tracked percentile at or above the requested one is read; above
  the 99th there is none, and the 99th itself is read, which lies below the requested one.
\<close>

lemma percentile_fallback:
  assumes "sum_hist m = None" and "sum_p50 m \<le> sum_p90 m" "sum_p90 m \<le> sum_p95 m" "sum_p95 m \<le> sum_p99 m"
    and "\<And>q. q \<le> 50 \<Longrightarrow> true_value q \<le> sum_p50 m" "\<And>q. q \<le> 90 \<Longrightarrow> true_value q \<le> sum_p90 m"
      "\<And>q. q \<le> 95 \<Longrightarrow> true_value q \<le> sum_p95 m" "\<And>q. q \<le> 99 \<Longrightarrow> true_value q \<le> sum_p99 m"
    and "p \<le> 99"
  shows "true_value p \<le> percentile_value X m (Fin p)"
  using assms by (auto simp: percentile_value_def)

end
