(* ===== verification/Aggregator.thy ===== *)
theory Aggregator
  imports Metric_Result
begin

text \<open>
  The metrics aggregator, \<^verbatim>\<open>struct Aggregator\<close> of \<^verbatim>\<open>crates/tropel-metrics/src/collector.rs\<close>: recording
  a sample, the headline accumulators, the results and the event loop.

  Samples that reach the aggregator have finite values, since \<^verbatim>\<open>record\<close> and \<^verbatim>\<open>record_batch\<close> drop the
  others, so their values are rationals. Logging is left out. Time enters as the argument \<open>elapsed\<close>
  of \<open>build_results\<close> and the two process-wide drop counters as its arguments \<open>out_lost\<close> and \<open>agg_lost\<close>.
\<close>

section \<open>State\<close>

definition MAX_SERIES :: nat where "MAX_SERIES = 100000"
definition MAX_HISTOGRAM_BYTES :: nat where "MAX_HISTOGRAM_BYTES = 512 * 1024 * 1024"

record 'h aggregator =
  ag_data :: "(metric_key \<times> 'h metric_set) list"
  ag_totals :: "(string \<times> rat) list"
  ag_trend_stats :: "string list"
  ag_thresholds :: "(string \<times> threshold_config) list"
  ag_hist_max :: "nat option"
  ag_retain :: bool
  ag_max_series :: nat
  ag_hist_bytes :: nat
  ag_http_dur :: "'h metric_set option"
  ag_iter_dur :: "'h metric_set option"
  ag_per_url :: "(string \<times> 'h metric_set) list"
  ag_per_group :: "((string \<times> string) \<times> 'h metric_set) list"
  ag_series_dropped :: nat
  ag_failed_requests :: nat
  ag_failed_sum :: rat

definition agg_new :: "'h aggregator" where
  "agg_new =
     \<lparr>ag_data = [], ag_totals = [], ag_trend_stats = k6_default_trend_stats, ag_thresholds = [], ag_hist_max = None,
      ag_retain = False, ag_max_series = MAX_SERIES, ag_hist_bytes = 0, ag_http_dur = None, ag_iter_dur = None,
      ag_per_url = [], ag_per_group = [], ag_series_dropped = 0, ag_failed_requests = 0, ag_failed_sum = 0\<rparr>"

section \<open>Recording a sample\<close>

definition or_new :: "nat option \<Rightarrow> 'h metric_set option \<Rightarrow> 'h metric_set" where
  "or_new hmax m = (case m of Some s \<Rightarrow> s | None \<Rightarrow> set_new MTrend hmax True)"

definition record_headline_accumulators :: "'h hdr \<Rightarrow> rat sample \<Rightarrow> 'h aggregator \<Rightarrow> 'h aggregator" where
  "record_headline_accumulators X s a =
     (if smp_metric s = ''http_req_duration''
      then a\<lparr>ag_http_dur := Some (set_record X (smp_value s) (or_new (ag_hist_max a) (ag_http_dur a)))\<rparr>
      else if smp_metric s = ''iteration_duration''
      then a\<lparr>ag_iter_dur := Some (set_record X (smp_value s) (or_new (ag_hist_max a) (ag_iter_dur a)))\<rparr>
      else a)"

definition url_tag :: "(string \<times> string) list \<Rightarrow> string option" where
  "url_tag tags = (case map_of tags ''url'' of Some u \<Rightarrow> Some u | None \<Rightarrow> map_of tags ''name'')"

definition record_per_url :: "'h hdr \<Rightarrow> rat sample \<Rightarrow> 'h aggregator \<Rightarrow> 'h aggregator" where
  "record_per_url X s a =
     (if smp_metric s = ''http_req_duration''
      then (case url_tag (smp_tags s) of
              None \<Rightarrow> a
            | Some url \<Rightarrow>
                a\<lparr>ag_per_url := btree_upsert url (set_record X (smp_value s)) (set_new MTrend (ag_hist_max a) True) (ag_per_url a)\<rparr>)
      else a)"

definition record_per_group :: "'h hdr \<Rightarrow> rat sample \<Rightarrow> 'h aggregator \<Rightarrow> 'h aggregator" where
  "record_per_group X s a =
     (case map_of (smp_tags s) ''group'' of
        None \<Rightarrow> a
      | Some g \<Rightarrow>
          a\<lparr>ag_per_group := btree_upsert (smp_metric s, g) (set_record X (smp_value s))
               (set_new (type_of_sample (smp_type s)) (ag_hist_max a) True) (ag_per_group a)\<rparr>)"

definition record_totals :: "rat sample \<Rightarrow> 'h aggregator \<Rightarrow> 'h aggregator" where
  "record_totals s a =
     (let a1 = a\<lparr>ag_totals := upsert (smp_metric s) (\<lambda>t. t + smp_value s) 0 (ag_totals a)\<rparr>
      in if smp_metric s = ''http_req_failed''
         then a1\<lparr>ag_failed_requests := ag_failed_requests a1 + 1, ag_failed_sum := ag_failed_sum a1 + smp_value s\<rparr>
         else a1)"

definition agg_record :: "'h hdr \<Rightarrow> rat sample \<Rightarrow> 'h aggregator \<Rightarrow> 'h aggregator" where
  "agg_record X s a =
     (let key = key_of s; t = type_of_sample (smp_type s); a1 = record_totals s a in
      if map_of (ag_data a1) key = None \<and> length (ag_data a1) \<ge> ag_max_series a1
      then record_headline_accumulators X s (a1\<lparr>ag_series_dropped := ag_series_dropped a1 + 1\<rparr>)
      else
        (let allow = ag_hist_bytes a1 < MAX_HISTOGRAM_BYTES;
             a2 = (if map_of (ag_data a1) key = None \<and> \<not> allow \<and> t = MTrend \<and> ag_hist_bytes a1 = MAX_HISTOGRAM_BYTES
                   then a1\<lparr>ag_hist_bytes := ag_hist_bytes a1 + 1\<rparr> else a1);
             a3 = a2\<lparr>ag_data := upsert key (set_record X (smp_value s)) (set_new t (ag_hist_max a2) allow) (ag_data a2)\<rparr>
         in record_per_group X s (record_per_url X s (record_headline_accumulators X s a3))))"

section \<open>Results\<close>

text \<open>The summary of a series by its type; \<open>trend_summary\<close> for a trend, inline records for the others.\<close>

definition plain_summary ::
  "string \<Rightarrow> (string \<times> string) list \<Rightarrow> metric_type \<Rightarrow> nat \<Rightarrow> 'h metric_set \<Rightarrow> 'h metric_summary" where
  "plain_summary key tags t n m =
     \<lparr>sum_key = key, sum_tags = tags, sum_type = t, sum_count = n, sum_sum = ms_sum m, sum_mean = set_mean m,
      sum_min = 0, sum_max = 0, sum_p50 = 0, sum_p90 = 0, sum_p95 = 0, sum_p99 = 0, sum_last = 0, sum_rate = 0, sum_hist = None\<rparr>"

definition trend_of :: "'h hdr \<Rightarrow> bool \<Rightarrow> string \<Rightarrow> (string \<times> string) list \<Rightarrow> 'h metric_set \<Rightarrow> 'h metric_summary" where
  "trend_of X retain key tags m =
     trend_summary key tags (rat_as_u64 (ms_count m)) (ms_sum m) (set_mean m) (ms_min m) (ms_max m) (ms_last m)
       (trend_stats X m) (if retain then ms_hist m else None)"

definition summary_of :: "'h hdr \<Rightarrow> bool \<Rightarrow> string \<Rightarrow> (string \<times> string) list \<Rightarrow> 'h metric_set \<Rightarrow> 'h metric_summary" where
  "summary_of X retain key tags m =
     (case ms_type m of
        MCounter \<Rightarrow> plain_summary key tags MCounter (rat_as_u64 (ms_sum m)) m
      | MRate \<Rightarrow> (plain_summary key tags MRate (rat_as_u64 (ms_count m)) m)\<lparr>sum_rate := set_rate m\<rparr>
      | MGauge \<Rightarrow> (plain_summary key tags MGauge (rat_as_u64 (ms_count m)) m)
           \<lparr>sum_min := (if ms_min m = f64_max then 0 else ms_min m),
            sum_max := (if ms_max m = - f64_max then 0 else ms_max m), sum_last := ms_last m\<rparr>
      | MTrend \<Rightarrow> trend_of X retain key tags m)"

record headline =
  hl_http_reqs :: nat
  hl_errors :: nat
  hl_checks_total :: nat
  hl_checks_passed :: nat
  hl_checks_failed :: nat
  hl_data_received :: rat
  hl_data_sent :: rat
  hl_iterations :: nat
  hl_vus_max :: nat

definition u64_add :: "nat \<Rightarrow> nat \<Rightarrow> nat" where "u64_add a b = wrap_u64 (a + b)"

definition observed_vus :: "'h metric_set \<Rightarrow> nat" where
  "observed_vus m =
     rat_as_u64 (if ms_type m = MGauge \<and> ms_max m \<noteq> - f64_max then ms_max m else max (ms_count m) (ms_sum m))"

definition failed_checks :: "'h metric_set \<Rightarrow> nat" where
  "failed_checks m = (if ms_count m > ms_sum m then rat_as_u64 (ms_count m - ms_sum m) else 0)"

definition headline_step :: "metric_key \<times> 'h metric_set \<Rightarrow> headline \<Rightarrow> headline" where
  "headline_step p h =
     (let n = mk_metric (fst p); m = snd p in
      if n = ''http_reqs'' then h\<lparr>hl_http_reqs := u64_add (hl_http_reqs h) (rat_as_u64 (ms_sum m))\<rparr>
      else if n = ''errors'' then h\<lparr>hl_errors := u64_add (hl_errors h) (rat_as_u64 (ms_sum m))\<rparr>
      else if n = ''checks''
        then h\<lparr>hl_checks_total := u64_add (hl_checks_total h) (rat_as_u64 (ms_count m)),
               hl_checks_passed := u64_add (hl_checks_passed h) (rat_as_u64 (ms_sum m)),
               hl_checks_failed := u64_add (hl_checks_failed h) (failed_checks m)\<rparr>
      else if n = ''data_received'' then h\<lparr>hl_data_received := hl_data_received h + ms_sum m\<rparr>
      else if n = ''data_sent'' then h\<lparr>hl_data_sent := hl_data_sent h + ms_sum m\<rparr>
      else if n = ''iterations'' then h\<lparr>hl_iterations := u64_add (hl_iterations h) (rat_as_u64 (ms_sum m))\<rparr>
      else if n = ''vus'' then (if observed_vus m > hl_vus_max h then h\<lparr>hl_vus_max := observed_vus m\<rparr> else h)
      else h)"

definition headline_zero :: headline where
  "headline_zero = \<lparr>hl_http_reqs = 0, hl_errors = 0, hl_checks_total = 0, hl_checks_passed = 0, hl_checks_failed = 0,
     hl_data_received = 0, hl_data_sent = 0, hl_iterations = 0, hl_vus_max = 0\<rparr>"

definition total_of :: "'h aggregator \<Rightarrow> string \<Rightarrow> rat" where
  "total_of a n = (case map_of (ag_totals a) n of Some t \<Rightarrow> t | None \<Rightarrow> 0)"

definition per_url_summary :: "'h hdr \<Rightarrow> bool \<Rightarrow> string \<times> 'h metric_set \<Rightarrow> 'h metric_summary" where
  "per_url_summary X retain p =
     trend_of X retain (''http_req_duration{url='' @ fst p @ ''}'') [(''url'', fst p)] (snd p)"

definition per_group_summary :: "'h hdr \<Rightarrow> bool \<Rightarrow> (string \<times> string) \<times> 'h metric_set \<Rightarrow> 'h metric_summary" where
  "per_group_summary X retain p =
     summary_of X retain (fst (fst p) @ ''{group='' @ snd (fst p) @ ''}'') [(''group'', snd (fst p))] (snd p)"

definition assemble_results :: "'h hdr \<Rightarrow> nat \<Rightarrow> nat \<Rightarrow> nat \<Rightarrow> headline \<Rightarrow> 'h aggregator \<Rightarrow> 'h metrics_result" where
  "assemble_results X elapsed out_lost agg_lost h a =
     (let r = ag_retain a; total = of_nat (ag_failed_requests a) in
      \<lparr>res_metrics = map (\<lambda>(k, m). summary_of X r (to_key_string k) (mk_tags k) m) (ag_data a),
       res_per_url = map (per_url_summary X r) (ag_per_url a),
       res_per_group = map (per_group_summary X r) (ag_per_group a),
       checks_total = hl_checks_total h, checks_passed = hl_checks_passed h, checks_failed = hl_checks_failed h,
       vu_init_failures = 0, script_failures = 0,
       http_reqs = max (hl_http_reqs h) (rat_as_u64 (total_of a ''http_reqs'')),
       http_req_duration = map_option (trend_of X r ''http_req_duration'' []) (ag_http_dur a),
       iteration_duration = map_option (trend_of X r ''iteration_duration'' []) (ag_iter_dur a),
       data_received = max (hl_data_received h) (total_of a ''data_received''),
       data_sent = max (hl_data_sent h) (total_of a ''data_sent''),
       errors = max (hl_errors h) (rat_as_u64 (total_of a ''errors'')),
       series_dropped = ag_series_dropped a, output_samples_dropped = out_lost, aggregator_samples_dropped = agg_lost,
       dropped_iterations = rat_as_u64 (total_of a ''dropped_iterations''),
       http_req_failed = (if total > 0 then ag_failed_sum a / total else 0),
       http_req_failed_count = ag_failed_sum a, http_req_failed_total = total,
       iterations = hl_iterations h, vus_max = hl_vus_max h, requested_vus = 0, effective_vus = 0,
       effective_vus_reason = None, run_duration = elapsed, summary_trend_stats = ag_trend_stats a,
       effective_thresholds = ag_thresholds a\<rparr>)"

definition build_results :: "'h hdr \<Rightarrow> nat \<Rightarrow> nat \<Rightarrow> nat \<Rightarrow> 'h aggregator \<Rightarrow> 'h metrics_result" where
  "build_results X elapsed out_lost agg_lost a =
     assemble_results X elapsed out_lost agg_lost (fold headline_step (ag_data a) headline_zero) a"

section \<open>What the aggregator holds\<close>

text \<open>
  The reference: with a cap of \<open>cap\<close> series, the series kept are those of the first \<open>cap\<close> distinct keys,
  and a series is its samples recorded in order.
\<close>

definition agg_start :: "nat option \<Rightarrow> nat \<Rightarrow> 'h aggregator" where
  "agg_start hmax cap = agg_new\<lparr>ag_hist_max := hmax, ag_max_series := cap\<rparr>"

definition agg_after :: "'h hdr \<Rightarrow> nat option \<Rightarrow> nat \<Rightarrow> rat sample list \<Rightarrow> 'h aggregator" where
  "agg_after X hmax cap ss = fold (agg_record X) ss (agg_start hmax cap)"

definition kept_keys :: "nat \<Rightarrow> rat sample list \<Rightarrow> metric_key list" where
  "kept_keys cap ss = take cap (uniq (map key_of ss))"

definition samples_of :: "metric_key \<Rightarrow> rat sample list \<Rightarrow> rat sample list" where
  "samples_of k ss = filter (\<lambda>s. key_of s = k) ss"

definition set_of_samples :: "'h hdr \<Rightarrow> nat option \<Rightarrow> metric_type \<Rightarrow> rat sample list \<Rightarrow> 'h metric_set" where
  "set_of_samples X hmax t ss = fold (set_record X) (map smp_value ss) (set_new t hmax True)"

definition series_of :: "'h hdr \<Rightarrow> nat option \<Rightarrow> rat sample list \<Rightarrow> metric_key \<Rightarrow> 'h metric_set" where
  "series_of X hmax ss k = set_of_samples X hmax (type_of_sample (smp_type (hd (samples_of k ss)))) (samples_of k ss)"

lemma headline_frame [simp]:
  "ag_data (record_headline_accumulators X s a) = ag_data a"
  "ag_totals (record_headline_accumulators X s a) = ag_totals a"
  "ag_hist_max (record_headline_accumulators X s a) = ag_hist_max a"
  "ag_max_series (record_headline_accumulators X s a) = ag_max_series a"
  "ag_hist_bytes (record_headline_accumulators X s a) = ag_hist_bytes a"
  "ag_series_dropped (record_headline_accumulators X s a) = ag_series_dropped a"
  "ag_failed_requests (record_headline_accumulators X s a) = ag_failed_requests a"
  "ag_failed_sum (record_headline_accumulators X s a) = ag_failed_sum a"
  "ag_per_url (record_headline_accumulators X s a) = ag_per_url a"
  "ag_per_group (record_headline_accumulators X s a) = ag_per_group a"
  by (simp_all add: record_headline_accumulators_def)

lemma per_url_frame [simp]:
  "ag_data (record_per_url X s a) = ag_data a" "ag_totals (record_per_url X s a) = ag_totals a"
  "ag_hist_max (record_per_url X s a) = ag_hist_max a" "ag_max_series (record_per_url X s a) = ag_max_series a"
  "ag_hist_bytes (record_per_url X s a) = ag_hist_bytes a" "ag_series_dropped (record_per_url X s a) = ag_series_dropped a"
  "ag_failed_requests (record_per_url X s a) = ag_failed_requests a" "ag_failed_sum (record_per_url X s a) = ag_failed_sum a"
  "ag_http_dur (record_per_url X s a) = ag_http_dur a" "ag_iter_dur (record_per_url X s a) = ag_iter_dur a"
  "ag_per_group (record_per_url X s a) = ag_per_group a"
  by (simp_all add: record_per_url_def split: option.splits)

lemma per_group_frame [simp]:
  "ag_data (record_per_group X s a) = ag_data a" "ag_totals (record_per_group X s a) = ag_totals a"
  "ag_hist_max (record_per_group X s a) = ag_hist_max a" "ag_max_series (record_per_group X s a) = ag_max_series a"
  "ag_hist_bytes (record_per_group X s a) = ag_hist_bytes a" "ag_series_dropped (record_per_group X s a) = ag_series_dropped a"
  "ag_failed_requests (record_per_group X s a) = ag_failed_requests a" "ag_failed_sum (record_per_group X s a) = ag_failed_sum a"
  "ag_http_dur (record_per_group X s a) = ag_http_dur a" "ag_iter_dur (record_per_group X s a) = ag_iter_dur a"
  "ag_per_url (record_per_group X s a) = ag_per_url a"
  by (simp_all add: record_per_group_def split: option.splits)

lemma totals_frame [simp]:
  "ag_data (record_totals s a) = ag_data a" "ag_hist_max (record_totals s a) = ag_hist_max a"
  "ag_max_series (record_totals s a) = ag_max_series a" "ag_hist_bytes (record_totals s a) = ag_hist_bytes a"
  "ag_series_dropped (record_totals s a) = ag_series_dropped a" "ag_http_dur (record_totals s a) = ag_http_dur a"
  "ag_iter_dur (record_totals s a) = ag_iter_dur a" "ag_per_url (record_totals s a) = ag_per_url a"
  "ag_per_group (record_totals s a) = ag_per_group a"
  by (simp_all add: record_totals_def Let_def)

lemma agg_record_config [simp]:
  "ag_hist_max (agg_record X s a) = ag_hist_max a" "ag_max_series (agg_record X s a) = ag_max_series a"
  by (simp_all add: agg_record_def Let_def)

lemma agg_after_config [simp]:
  "ag_hist_max (agg_after X hmax cap ss) = hmax" "ag_max_series (agg_after X hmax cap ss) = cap"
  by (induction ss rule: rev_induct) (simp_all add: agg_after_def agg_start_def)

lemma agg_after_snoc: "agg_after X hmax cap (ss @ [s]) = agg_record X s (agg_after X hmax cap ss)"
  by (simp add: agg_after_def)

lemma samples_of_simps [simp]:
  "samples_of k [] = []" "samples_of k (ss @ [s]) = samples_of k ss @ (if key_of s = k then [s] else [])"
  by (simp_all add: samples_of_def)

lemma samples_of_empty: "samples_of k ss = [] \<longleftrightarrow> k \<notin> set (map key_of ss)"
  by (auto simp: samples_of_def filter_empty_conv)

lemma series_of_snoc:
  "key_of s \<noteq> k \<Longrightarrow> series_of X hmax (ss @ [s]) k = series_of X hmax ss k"
  "key_of s \<in> set (map key_of ss) \<Longrightarrow> series_of X hmax (ss @ [s]) (key_of s) = set_record X (smp_value s) (series_of X hmax ss (key_of s))"
  "key_of s \<notin> set (map key_of ss) \<Longrightarrow>
     series_of X hmax (ss @ [s]) (key_of s) = set_record X (smp_value s) (set_new (type_of_sample (smp_type s)) hmax True)"
  using samples_of_empty [of "key_of s" ss]
  by (simp_all add: series_of_def set_of_samples_def hd_append del: set_map)

lemma kept_keys_snoc:
  "kept_keys cap (ss @ [s]) =
     (if key_of s \<in> set (kept_keys cap ss) \<or> length (kept_keys cap ss) \<ge> cap then kept_keys cap ss
      else kept_keys cap ss @ [key_of s])"
proof (cases "length (uniq (map key_of ss)) \<ge> cap")
  case True
  then show ?thesis by (simp add: kept_keys_def)
next
  case False
  then show ?thesis by (simp add: kept_keys_def)
qed

lemma kept_keys_distinct [simp]: "distinct (kept_keys cap ss)"
  by (simp add: kept_keys_def distinct_take)

lemma kept_keys_subset: "k \<in> set (kept_keys cap ss) \<Longrightarrow> k \<in> set (map key_of ss)"
  unfolding kept_keys_def using in_set_takeD by fastforce

lemma kept_keys_full: "length (kept_keys cap ss) < cap \<Longrightarrow> set (kept_keys cap ss) = set (map key_of ss)"
  by (simp add: kept_keys_def)

definition layout :: "'h hdr \<Rightarrow> nat option \<Rightarrow> nat \<Rightarrow> rat sample list \<Rightarrow> (metric_key \<times> 'h metric_set) list" where
  "layout X hmax cap ss = map (\<lambda>k. (k, series_of X hmax ss k)) (kept_keys cap ss)"

lemma layout_lookup: "map_of (layout X hmax cap ss) k = (if k \<in> set (kept_keys cap ss) then Some (series_of X hmax ss k) else None)"
  by (simp add: layout_def map_of_map_restrict restrict_map_def)

lemma layout_length: "length (layout X hmax cap ss) = length (kept_keys cap ss)"
  by (simp add: layout_def)

lemma layout_snoc_kept:
  assumes "key_of s \<in> set (kept_keys cap ss)"
  shows "upsert (key_of s) (set_record X (smp_value s)) d (layout X hmax cap ss) = layout X hmax cap (ss @ [s])"
proof -
  have "series_of X hmax (ss @ [s]) (key_of s) = set_record X (smp_value s) (series_of X hmax ss (key_of s))"
    using series_of_snoc(2) kept_keys_subset [OF assms] by blast
  with assms show ?thesis
    by (auto simp: layout_def upsert_map kept_keys_snoc series_of_snoc(1))
qed

lemma layout_snoc_fresh:
  assumes "key_of s \<notin> set (kept_keys cap ss)" "length (kept_keys cap ss) < cap"
  shows "upsert (key_of s) (set_record X (smp_value s)) (set_new (type_of_sample (smp_type s)) hmax True) (layout X hmax cap ss)
    = layout X hmax cap (ss @ [s])"
proof -
  from assms have fresh: "key_of s \<notin> set (map key_of ss)" by (simp only: kept_keys_full) simp
  have "key_of s \<notin> fst ` set (layout X hmax cap ss)" using assms(1) by (auto simp: layout_def)
  moreover have "series_of X hmax (ss @ [s]) k = series_of X hmax ss k" if "k \<in> set (kept_keys cap ss)" for k
    using that assms(1) by (metis series_of_snoc(1))
  ultimately show ?thesis
    using assms series_of_snoc(3) [OF fresh, of X hmax] by (simp add: upsert_absent layout_def kept_keys_snoc)
qed

lemma layout_snoc_dropped:
  assumes "key_of s \<notin> set (kept_keys cap ss)" "length (kept_keys cap ss) \<ge> cap"
  shows "layout X hmax cap (ss @ [s]) = layout X hmax cap ss"
  using assms by (auto simp: layout_def kept_keys_snoc) (metis series_of_snoc(1))

lemma agg_data_layout:
  "ag_data (agg_after X hmax cap ss) = layout X hmax cap ss \<and> ag_hist_bytes (agg_after X hmax cap ss) = 0"
proof (induction ss rule: rev_induct)
  case Nil
  show ?case by (simp add: agg_after_def agg_start_def agg_new_def layout_def kept_keys_def)
next
  case (snoc s ss)
  consider "key_of s \<in> set (kept_keys cap ss)"
    | "key_of s \<notin> set (kept_keys cap ss)" "length (kept_keys cap ss) < cap"
    | "key_of s \<notin> set (kept_keys cap ss)" "length (kept_keys cap ss) \<ge> cap" by linarith
  then show ?case
    using snoc
    by cases (simp_all add: agg_after_snoc agg_record_def Let_def layout_lookup layout_length MAX_HISTOGRAM_BYTES_def
        layout_snoc_kept layout_snoc_fresh layout_snoc_dropped)
qed

lemma agg_dropped:
  "ag_series_dropped (agg_after X hmax cap ss) = length (filter (\<lambda>s. key_of s \<notin> set (kept_keys cap ss)) ss)"
proof (induction ss rule: rev_induct)
  case Nil
  show ?case by (simp add: agg_after_def agg_start_def agg_new_def)
next
  case (snoc s ss)
  have old: "filter (\<lambda>s. key_of s \<notin> set (kept_keys cap (ss @ [x]))) ss = filter (\<lambda>s. key_of s \<notin> set (kept_keys cap ss)) ss" for x
  proof -
    have "set (kept_keys cap ss) = key_of ` set ss" if "length (kept_keys cap ss) < cap"
      using kept_keys_full [OF that] by simp
    then show ?thesis by (intro filter_cong) (auto simp: kept_keys_snoc)
  qed
  show ?case
    unfolding filter_append old using snoc agg_data_layout [of X hmax cap ss]
    by (auto simp: agg_after_snoc agg_record_def Let_def layout_lookup layout_length MAX_HISTOGRAM_BYTES_def kept_keys_snoc)
qed

lemma view_set_of_samples:
  "hdr_laws X quant population grows \<Longrightarrow>
   view population (set_of_samples X hmax t ss) = view_of_values quant t (map smp_value ss)"
  by (simp add: set_of_samples_def view_fold)

section \<open>Properties of the aggregator\<close>

text \<open>
  C21. After any samples: the series map holds exactly the series of the first \<open>cap\<close> distinct keys
  (metric and tags), in the order of their first samples; each of them amounts to all the samples of
  its key from the first to the last, by the type of the first one (count, sum, extremes, last value
  and, for a trend, a histogram whose population is that of the samples), and the counter of dropped
  samples is the number of samples of the other keys. No sample is lost without being counted.
\<close>

theorem aggregator_keeps_series:
  assumes "hdr_laws X quant population grows"
  shows "map fst (ag_data (agg_after X hmax cap ss)) = take cap (uniq (map key_of ss))
    \<and> (\<forall>(k, m) \<in> set (ag_data (agg_after X hmax cap ss)).
          view population m = view_of_values quant (type_of_sample (smp_type (hd (samples_of k ss)))) (map smp_value (samples_of k ss)))
    \<and> ag_series_dropped (agg_after X hmax cap ss)
        = length (filter (\<lambda>s. key_of s \<notin> set (take cap (uniq (map key_of ss)))) ss)"
  using assms
  by (auto simp: agg_data_layout layout_def series_of_def view_set_of_samples comp_def kept_keys_def agg_dropped)

definition request_sample :: "string \<Rightarrow> rat \<Rightarrow> rat sample" where
  "request_sample url ms = \<lparr>smp_metric = ''http_req_duration'', smp_tags = [(''url'', url)], smp_value = ms, smp_type = STrend\<rparr>"

theorem aggregator_keeps_series_witness:
  "hdr_laws exact_store id (mset \<circ> snd) (\<lambda>h. fst h = None)
   \<and> map (mk_tags \<circ> fst) (ag_data (agg_after exact_store None 1 [request_sample ''a'' 3, request_sample ''b'' 5, request_sample ''a'' 4]))
      = [[(''url'', ''a'')]]
   \<and> ag_series_dropped (agg_after exact_store None 1 [request_sample ''a'' 3, request_sample ''b'' 5, request_sample ''a'' 4]) = 1"
proof -
  let ?ss = "[request_sample ''a'' 3, request_sample ''b'' 5, request_sample ''a'' 4]"
  note t = aggregator_keeps_series [OF exact_store_laws, of None 1 ?ss]
  have k: "take 1 (uniq (map key_of ?ss)) = [\<lparr>mk_metric = ''http_req_duration'', mk_tags = [(''url'', ''a'')]\<rparr>]"
    by (simp add: uniq_def key_of_def request_sample_def)
  have "map mk_tags (map fst (ag_data (agg_after exact_store None 1 ?ss))) = [[(''url'', ''a'')]]"
    using t unfolding k by simp
  moreover have "ag_series_dropped (agg_after exact_store None 1 ?ss) = 1"
    using t unfolding k by (simp add: key_of_def request_sample_def)
  ultimately show ?thesis using exact_store_laws by simp
qed

text \<open>Counters and accumulators that cover dropped samples as well.\<close>

definition named :: "string \<Rightarrow> rat sample list \<Rightarrow> rat sample list" where
  "named n ss = filter (\<lambda>s. smp_metric s = n) ss"

lemma named_simps [simp]:
  "named n [] = []" "named n (ss @ [s]) = named n ss @ (if smp_metric s = n then [s] else [])"
  by (simp_all add: named_def)

lemma agg_record_totals:
  "ag_totals (agg_record X s a) = upsert (smp_metric s) (\<lambda>t. t + smp_value s) 0 (ag_totals a)"
  "ag_failed_requests (agg_record X s a) = ag_failed_requests a + (if smp_metric s = ''http_req_failed'' then 1 else 0)"
  "ag_failed_sum (agg_record X s a) = ag_failed_sum a + (if smp_metric s = ''http_req_failed'' then smp_value s else 0)"
  by (simp_all add: agg_record_def record_totals_def Let_def)

lemma agg_record_headline:
  "ag_http_dur (agg_record X s a) =
     (if smp_metric s = ''http_req_duration'' then Some (set_record X (smp_value s) (or_new (ag_hist_max a) (ag_http_dur a)))
      else ag_http_dur a)"
  "ag_iter_dur (agg_record X s a) =
     (if smp_metric s = ''iteration_duration'' then Some (set_record X (smp_value s) (or_new (ag_hist_max a) (ag_iter_dur a)))
      else ag_iter_dur a)"
  by (simp_all add: agg_record_def record_headline_accumulators_def Let_def)

definition headline_of :: "'h hdr \<Rightarrow> nat option \<Rightarrow> rat sample list \<Rightarrow> 'h metric_set option" where
  "headline_of X hmax ss = (if ss = [] then None else Some (set_of_samples X hmax MTrend ss))"

lemma headline_of_snoc:
  "headline_of X hmax (ss @ [s]) = Some (set_record X (smp_value s) (or_new hmax (headline_of X hmax ss)))"
  by (simp add: headline_of_def set_of_samples_def or_new_def)

lemma agg_headline:
  "ag_http_dur (agg_after X hmax cap ss) = headline_of X hmax (named ''http_req_duration'' ss)"
  "ag_iter_dur (agg_after X hmax cap ss) = headline_of X hmax (named ''iteration_duration'' ss)"
proof (induction ss rule: rev_induct)
  case Nil
  show "ag_http_dur (agg_after X hmax cap []) = headline_of X hmax (named ''http_req_duration'' [])"
    "ag_iter_dur (agg_after X hmax cap []) = headline_of X hmax (named ''iteration_duration'' [])"
    by (simp_all add: agg_after_def agg_start_def agg_new_def headline_of_def)
next
  case (snoc s ss)
  then show "ag_http_dur (agg_after X hmax cap (ss @ [s])) = headline_of X hmax (named ''http_req_duration'' (ss @ [s]))"
    "ag_iter_dur (agg_after X hmax cap (ss @ [s])) = headline_of X hmax (named ''iteration_duration'' (ss @ [s]))"
    by (simp_all add: agg_after_snoc agg_record_headline headline_of_snoc)
qed

lemma agg_total: "total_of (agg_after X hmax cap ss) n = (\<Sum>s \<leftarrow> named n ss. smp_value s)"
proof (induction ss rule: rev_induct)
  case Nil
  show ?case by (simp add: agg_after_def agg_start_def agg_new_def total_of_def)
next
  case (snoc s ss)
  then show ?case by (auto simp: agg_after_snoc total_of_def agg_record_totals map_of_upsert)
qed

lemma agg_failed:
  "ag_failed_requests (agg_after X hmax cap ss) = length (named ''http_req_failed'' ss)"
  "ag_failed_sum (agg_after X hmax cap ss) = (\<Sum>s \<leftarrow> named ''http_req_failed'' ss. smp_value s)"
  by (induction ss rule: rev_induct)
    (simp_all add: agg_after_snoc agg_record_totals, simp_all add: agg_after_def agg_start_def agg_new_def)



text \<open>
  The memory budget for histograms is never reached: the counter that is compared with it stays
  zero whatever is recorded, so every series keeps its histogram.
\<close>

theorem histogram_budget_unused:
  "ag_hist_bytes (agg_after X hmax cap ss) = 0
   \<and> list_all (\<lambda>(k, m). \<not> ms_hist_disabled m) (ag_data (agg_after X hmax cap ss))"
proof -
  have "\<not> ms_hist_disabled (fold (set_record X) vs (set_new t hmax True))" for vs and t
    by (induction vs rule: rev_induct) simp_all
  then show ?thesis
    by (auto simp: agg_data_layout layout_def series_of_def set_of_samples_def list_all_iff)
qed

end
