(* ===== verification/Snapshots.thy ===== *)
theory Snapshots
  imports Aggregator
begin

text \<open>
  Snapshots of a worker's metrics and their merge on the controller, \<^verbatim>\<open>build_snapshot\<close>,
  \<^verbatim>\<open>absorb_snapshot\<close>, \<^verbatim>\<open>rebuild_merged\<close> and \<^verbatim>\<open>merge_snapshots\<close> of
  \<^verbatim>\<open>crates/tropel-metrics/src/collector.rs\<close>.

  The base64 codec is a crate: \<open>enc\<close> and \<open>dec\<close> are parameters, and the merge relies on
  \<open>dec (enc b) = Some b\<close>.
\<close>

section \<open>Snapshots\<close>

record series_snapshot =
  sn_metric :: string
  sn_tags :: "(string \<times> string) list"
  sn_type :: metric_type
  sn_hist :: "string option"
  sn_count :: rat
  sn_sum :: rat
  sn_min :: rat
  sn_max :: rat
  sn_last :: rat

record metrics_snapshot =
  snap_series :: "series_snapshot list"
  snap_totals :: "(string \<times> rat) list"
  snap_trend_stats :: "string list"
  snap_thresholds :: "(string \<times> threshold_config) list"

definition snapshot_series :: "'h hdr \<Rightarrow> (string \<Rightarrow> string) \<Rightarrow> metric_key \<times> 'h metric_set \<Rightarrow> series_snapshot" where
  "snapshot_series X enc p =
     (let k = fst p; m = snd p in
      \<lparr>sn_metric = mk_metric k, sn_tags = mk_tags k, sn_type = ms_type m,
       sn_hist = (case ms_hist m of Some h \<Rightarrow> if lh_count X h > 0 then Some (enc (to_bytes X h)) else None | None \<Rightarrow> None),
       sn_count = ms_count m, sn_sum = ms_sum m, sn_min = ms_min m, sn_max = ms_max m, sn_last = ms_last m\<rparr>)"

definition build_snapshot :: "'h hdr \<Rightarrow> (string \<Rightarrow> string) \<Rightarrow> 'h aggregator \<Rightarrow> metrics_snapshot" where
  "build_snapshot X enc a =
     \<lparr>snap_series = map (snapshot_series X enc) (ag_data a), snap_totals = ag_totals a,
      snap_trend_stats = ag_trend_stats a, snap_thresholds = ag_thresholds a\<rparr>"

section \<open>Absorbing\<close>

datatype snapshot_error = CorruptBase64 string | CorruptHistogram string nat

text \<open>The tag map of a list of pairs: a later pair replaces an earlier one of its name.\<close>

definition tag_map :: "(string \<times> string) list \<Rightarrow> (string \<times> string) list" where
  "tag_map tags = fold (\<lambda>(k, v). btree_upsert k (\<lambda>_. v) v) tags []"

definition decode_histogram :: "'h hdr \<Rightarrow> (string \<Rightarrow> string option) \<Rightarrow> series_snapshot \<Rightarrow> snapshot_error + 'h option" where
  "decode_histogram X dec s =
     (case sn_hist s of
        None \<Rightarrow> Inr None
      | Some b64 \<Rightarrow>
          bindE (ok_or (CorruptBase64 (sn_metric s)) (dec b64)) (\<lambda>raw.
          bindE (ok_or (CorruptHistogram (sn_metric s) (length raw)) (from_bytes X raw)) (\<lambda>h. Inr (Some h))))"

definition absorb_into :: "'h hdr \<Rightarrow> series_snapshot \<Rightarrow> 'h option \<Rightarrow> 'h metric_set \<Rightarrow> 'h metric_set" where
  "absorb_into X s hist m =
     (let m1 = (case hist of Some h \<Rightarrow> if ms_type m = MTrend then m\<lparr>ms_hist := Some (lh_merge X (get_hist X m) h)\<rparr> else m
                | None \<Rightarrow> m)
      in m1\<lparr>ms_count := ms_count m + sn_count s, ms_sum := ms_sum m + sn_sum s,
            ms_min := (if sn_min s < ms_min m then sn_min s else ms_min m),
            ms_max := (if sn_max s > ms_max m then sn_max s else ms_max m), ms_last := sn_last s\<rparr>)"

definition set_of_snapshot :: "nat option \<Rightarrow> series_snapshot \<Rightarrow> 'h option \<Rightarrow> 'h metric_set" where
  "set_of_snapshot hmax s hist =
     \<lparr>ms_type = sn_type s, ms_hist = hist, ms_hist_max = hmax, ms_hist_disabled = False, ms_count = sn_count s,
      ms_sum = sn_sum s, ms_min = sn_min s, ms_max = sn_max s, ms_last = sn_last s\<rparr>"

definition absorb_series ::
  "'h hdr \<Rightarrow> (string \<Rightarrow> string option) \<Rightarrow> series_snapshot \<Rightarrow> 'h aggregator \<Rightarrow> snapshot_error + 'h aggregator" where
  "absorb_series X dec s a =
     (let key = \<lparr>mk_metric = sn_metric s, mk_tags = tag_map (sn_tags s)\<rparr> in
      bindE (decode_histogram X dec s) (\<lambda>hist.
        case map_of (ag_data a) key of
          Some m \<Rightarrow> Inr (a\<lparr>ag_data := upsert key (absorb_into X s hist) m (ag_data a)\<rparr>)
        | None \<Rightarrow>
            if length (ag_data a) \<ge> ag_max_series a then Inr (a\<lparr>ag_series_dropped := ag_series_dropped a + 1\<rparr>)
            else Inr (a\<lparr>ag_data := ag_data a @ [(key, set_of_snapshot (ag_hist_max a) s hist)]\<rparr>)))"

fun absorb_all_series ::
  "'h hdr \<Rightarrow> (string \<Rightarrow> string option) \<Rightarrow> series_snapshot list \<Rightarrow> 'h aggregator \<Rightarrow> snapshot_error + 'h aggregator" where
  "absorb_all_series X dec [] a = Inr a"
| "absorb_all_series X dec (s # ss) a = bindE (absorb_series X dec s a) (absorb_all_series X dec ss)"

definition absorb_snapshot ::
  "'h hdr \<Rightarrow> (string \<Rightarrow> string option) \<Rightarrow> metrics_snapshot \<Rightarrow> 'h aggregator \<Rightarrow> snapshot_error + 'h aggregator" where
  "absorb_snapshot X dec snap a =
     bindE (absorb_all_series X dec (snap_series snap) a) (\<lambda>a1.
     Inr (a1\<lparr>ag_totals := fold (\<lambda>(k, v). upsert k (\<lambda>t. t + v) 0) (snap_totals snap) (ag_totals a1),
             ag_trend_stats := (if ag_trend_stats a1 = [] \<and> snap_trend_stats snap \<noteq> [] then snap_trend_stats snap else ag_trend_stats a1),
             ag_thresholds := (if ag_thresholds a1 = [] \<and> snap_thresholds snap \<noteq> [] then snap_thresholds snap else ag_thresholds a1)\<rparr>))"

fun absorb_snapshots ::
  "'h hdr \<Rightarrow> (string \<Rightarrow> string option) \<Rightarrow> metrics_snapshot list \<Rightarrow> 'h aggregator \<Rightarrow> snapshot_error + 'h aggregator" where
  "absorb_snapshots X dec [] a = Inr a"
| "absorb_snapshots X dec (s # ss) a = bindE (absorb_snapshot X dec s a) (absorb_snapshots X dec ss)"

section \<open>Rebuilding the accumulators\<close>

definition rebuild_step :: "'h hdr \<Rightarrow> metric_key \<times> 'h metric_set \<Rightarrow> 'h aggregator \<Rightarrow> 'h aggregator" where
  "rebuild_step X p a =
     (let n = mk_metric (fst p); tags = mk_tags (fst p); m = snd p; hmax = ag_hist_max a;
          a1 = (if n = ''http_req_duration''
                then (let a0 = a\<lparr>ag_http_dur := Some (merge_from X m (or_new hmax (ag_http_dur a)))\<rparr> in
                      case url_tag tags of
                        None \<Rightarrow> a0
                      | Some url \<Rightarrow> a0\<lparr>ag_per_url := btree_upsert url (merge_from X m) (set_new MTrend hmax True) (ag_per_url a0)\<rparr>)
                else if n = ''iteration_duration''
                then a\<lparr>ag_iter_dur := Some (merge_from X m (or_new hmax (ag_iter_dur a)))\<rparr>
                else if n = ''http_req_failed''
                then a\<lparr>ag_failed_requests := u64_add (ag_failed_requests a) (rat_as_u64 (ms_count m)),
                       ag_failed_sum := ag_failed_sum a + ms_sum m\<rparr>
                else a)
      in case map_of tags ''group'' of
           None \<Rightarrow> a1
         | Some g \<Rightarrow> a1\<lparr>ag_per_group := btree_upsert (n, g) (merge_from X m) (set_new (ms_type m) hmax True) (ag_per_group a1)\<rparr>)"

definition rebuild_merged :: "'h hdr \<Rightarrow> 'h aggregator \<Rightarrow> 'h aggregator" where
  "rebuild_merged X a =
     fold (rebuild_step X) (ag_data a)
       (a\<lparr>ag_http_dur := None, ag_iter_dur := None, ag_per_url := [], ag_per_group := [],
          ag_failed_requests := 0, ag_failed_sum := 0\<rparr>)"

section \<open>Merging on the controller\<close>

definition overlay_thresholds ::
  "(string \<times> threshold_config) list \<Rightarrow> metrics_snapshot list \<Rightarrow> (string \<times> threshold_config) list" where
  "overlay_thresholds ts snaps = fold (\<lambda>(k, v). upsert k id v) (concat (map snap_thresholds snaps)) ts"

definition merge_base :: "(string \<times> threshold_config) list \<Rightarrow> metrics_snapshot list \<Rightarrow> 'h aggregator" where
  "merge_base ts snaps =
     (let stats = (case find (\<lambda>s. snap_trend_stats s \<noteq> []) snaps of Some s \<Rightarrow> snap_trend_stats s | None \<Rightarrow> k6_default_trend_stats);
          eff = overlay_thresholds ts snaps
      in agg_new\<lparr>ag_trend_stats := stats, ag_retain := config_needs_histograms stats eff, ag_thresholds := eff\<rparr>)"

definition merge_aggregators ::
  "'h hdr \<Rightarrow> (string \<Rightarrow> string option) \<Rightarrow> (string \<times> threshold_config) list \<Rightarrow> metrics_snapshot list \<Rightarrow> snapshot_error + 'h aggregator" where
  "merge_aggregators X dec ts snaps =
     bindE (absorb_snapshots X dec snaps (merge_base ts snaps)) (\<lambda>a. Inr (rebuild_merged X a))"

definition merge_snapshots ::
  "'h hdr \<Rightarrow> (string \<Rightarrow> string option) \<Rightarrow> nat \<Rightarrow> nat \<Rightarrow> nat \<Rightarrow> (string \<times> threshold_config) list \<Rightarrow> metrics_snapshot list
     \<Rightarrow> snapshot_error + 'h metrics_result" where
  "merge_snapshots X dec elapsed out_lost agg_lost ts snaps =
     bindE (merge_aggregators X dec ts snaps) (\<lambda>a. Inr (build_results X elapsed out_lost agg_lost a))"

section \<open>The merge of two populations\<close>

lemma fold_min_start: "fold min ys (min a b) = min a (fold min ys (b :: rat))"
  by (induction ys arbitrary: a b) (simp_all add: min.left_commute)

lemma fold_max_start: "fold max ys (max a b) = max a (fold max ys (b :: rat))"
  by (induction ys arbitrary: a b) (simp_all add: max.left_commute)

lemma fold_min_le: "fold min ys b \<le> (b :: rat)"
  by (induction ys) (simp_all add: fold_min_start min.coboundedI2)

lemma fold_max_ge: "(b :: rat) \<le> fold max ys b"
  by (induction ys) (simp_all add: fold_max_start max.coboundedI2)

lemma fold_min_append: "fold min (xs @ ys) b = min (fold min xs b) (fold min ys (b :: rat))"
  using fold_min_start [of ys "fold min xs b" b] fold_min_le [of xs b] by (simp add: min.absorb1)

lemma fold_max_append: "fold max (xs @ ys) b = max (fold max xs b) (fold max ys (b :: rat))"
  using fold_max_start [of ys "fold max xs b" b] fold_max_ge [of b xs] by (simp add: max.absorb1)

definition hist_population :: "('h \<Rightarrow> nat multiset) \<Rightarrow> 'h option \<Rightarrow> nat multiset" where
  "hist_population population hist = (case hist of None \<Rightarrow> {#} | Some h \<Rightarrow> population h)"

definition snap_view :: "('h \<Rightarrow> nat multiset) \<Rightarrow> series_snapshot \<Rightarrow> 'h option \<Rightarrow> aggregate_view" where
  "snap_view population s hist =
     \<lparr>av_type = sn_type s, av_count = sn_count s, av_sum = sn_sum s, av_min = sn_min s, av_max = sn_max s,
      av_last = sn_last s, av_population = hist_population population hist\<rparr>"

lemma view_of_snapshot: "view population (set_of_snapshot hmax s hist) = snap_view population s hist"
  by (simp add: view_def set_of_snapshot_def snap_view_def hist_population_def)

lemma merge_append_values:
  assumes "vs' \<noteq> []"
  shows "view_of_values quant t (vs @ vs') =
    (let v = view_of_values quant t vs; w = view_of_values quant t vs' in
     \<lparr>av_type = t, av_count = av_count v + av_count w, av_sum = av_sum v + av_sum w,
      av_min = min (av_min v) (av_min w), av_max = max (av_max v) (av_max w), av_last = av_last w,
      av_population = av_population v + av_population w\<rparr>)"
  using assms by (simp add: view_of_values_def Let_def fold_min_append fold_max_append del: fold_append)

lemma absorb_view:
  assumes laws: "hdr_laws X quant population grows"
    and m: "view population m = view_of_values quant t vs"
    and s: "snap_view population s hist = view_of_values quant t vs'" and "vs' \<noteq> []"
  shows "view population (absorb_into X s hist m) = view_of_values quant t (vs @ vs')"
proof -
  have type: "ms_type m = t" "sn_type s = t"
    using m s by (simp_all add: view_def snap_view_def view_of_values_def)
  have pop: "population (lh_merge X (get_hist X m) h) = hist_population population (ms_hist m) + population h" for h
    by (simp add: merge_population [OF laws] get_hist_population [OF laws] hist_population_def)
  have none: "hist_population population hist = {#}" if "t \<noteq> MTrend"
    using s that by (simp add: snap_view_def view_of_values_def)
  have "av_population (view population (absorb_into X s hist m)) = hist_population population (ms_hist m) + hist_population population hist"
    using none type(1) by (cases "t = MTrend") (auto simp: absorb_into_def view_def pop hist_population_def Let_def split: option.splits)
  then have "view population (absorb_into X s hist m) =
     (let v = view population m; w = snap_view population s hist in
     \<lparr>av_type = t, av_count = av_count v + av_count w, av_sum = av_sum v + av_sum w,
      av_min = min (av_min v) (av_min w), av_max = max (av_max v) (av_max w), av_last = av_last w,
      av_population = av_population v + av_population w\<rparr>)"
    using type by (auto simp: absorb_into_def view_def snap_view_def Let_def hist_population_def split: option.splits)
  then show ?thesis using m s \<open>vs' \<noteq> []\<close> by (simp add: merge_append_values)
qed

lemma tag_map_id: "sorted_wrt (<) (map fst tags) \<Longrightarrow> tag_map tags = tags"
  by (induction tags rule: rev_induct)
    (auto simp: tag_map_def sorted_wrt_append btree_upsert_append)

section \<open>Absorbing what the workers kept\<close>

text \<open>
  \<open>holds\<close> relates a series map to the values of its keys: the keys in order, and for each key an
  aggregate that amounts to its values.
\<close>

definition holds ::
  "('h \<Rightarrow> nat multiset) \<Rightarrow> (nat \<Rightarrow> nat) \<Rightarrow> (metric_key \<Rightarrow> metric_type) \<Rightarrow> (metric_key \<Rightarrow> rat list) \<Rightarrow> metric_key list
     \<Rightarrow> (metric_key \<times> 'h metric_set) list \<Rightarrow> bool" where
  "holds population quant ty f ks data \<longleftrightarrow>
     map fst data = ks \<and> distinct ks \<and> (\<forall>(k, m) \<in> set data. view population m = view_of_values quant (ty k) (f k))"

definition codec :: "(string \<Rightarrow> string) \<Rightarrow> (string \<Rightarrow> string option) \<Rightarrow> bool" where
  "codec enc dec \<longleftrightarrow> (\<forall>b. dec (enc b) = Some b)"

definition typed_hist :: "'h metric_set \<Rightarrow> bool" where
  "typed_hist m \<longleftrightarrow> (ms_hist m \<noteq> None \<longrightarrow> ms_type m = MTrend)"

lemma typed_hist_fold: "typed_hist (fold (set_record X) vs (set_new t hmax True))"
proof (induction vs rule: rev_induct)
  case (snoc v vs)
  then show ?case
    by (auto simp: typed_hist_def set_record_def add_value_def see_value_def Let_def split: metric_type.splits)
qed (simp add: typed_hist_def)

lemma decode_snapshot:
  assumes laws: "hdr_laws X quant population grows" and "codec enc dec"
  obtains hist where "decode_histogram X dec (snapshot_series X enc (k, m)) = Inr hist"
    "snap_view population (snapshot_series X enc (k, m)) hist = view population m"
proof (cases "sn_hist (snapshot_series X enc (k, m))")
  case None
  then have "hist_population population (ms_hist m) = {#}"
    by (auto simp: snapshot_series_def hist_population_def lh_count_def hdr_lawsD(10) [OF laws] split: option.splits if_splits)
  with None that [of None] show ?thesis
    by (auto simp: decode_histogram_def snap_view_def view_def snapshot_series_def hist_population_def split: option.splits if_splits)
next
  case (Some b)
  then obtain h where h: "ms_hist m = Some h" "b = enc (to_bytes X h)"
    by (auto simp: snapshot_series_def split: option.splits if_splits)
  obtain h' where h': "hdr_deserialize X (hdr_serialize X h) = Some h'" "population h' = population h"
    using hdr_lawsD(11) [OF laws] by blast
  have "decode_histogram X dec (snapshot_series X enc (k, m)) = Inr (Some h')"
    using Some h h'(1) \<open>codec enc dec\<close> by (simp add: decode_histogram_def codec_def to_bytes_def from_bytes_def)
  with h h'(2) that [of "Some h'"] show ?thesis
    by (simp add: snap_view_def view_def snapshot_series_def hist_population_def)
qed

lemma absorb_series_holds:
  assumes laws: "hdr_laws X quant population grows" and codec: "codec enc dec"
    and h: "holds population quant ty f ks (ag_data a)" and room: "k \<in> set ks \<or> length ks < ag_max_series a"
    and m: "view population m = view_of_values quant (ty k) vs" "vs \<noteq> []"
    and tags: "tag_map (mk_tags k) = mk_tags k" and fresh: "k \<notin> set ks \<longrightarrow> f k = []"
  obtains a' where "absorb_series X dec (snapshot_series X enc (k, m)) a = Inr a'"
    "holds population quant ty (f(k := f k @ vs)) (if k \<in> set ks then ks else ks @ [k]) (ag_data a')"
    "ag_max_series a' = ag_max_series a" "ag_series_dropped a' = ag_series_dropped a"
proof -
  let ?s = "snapshot_series X enc (k, m)"
  obtain hist where hist: "decode_histogram X dec ?s = Inr hist" "snap_view population ?s hist = view population m"
    using decode_snapshot [OF laws codec] by blast
  have key: "\<lparr>mk_metric = sn_metric ?s, mk_tags = tag_map (sn_tags ?s)\<rparr> = k"
    using tags by (simp add: snapshot_series_def Let_def)
  have keys: "map fst (ag_data a) = ks" "distinct ks" using h by (auto simp: holds_def)
  then have len: "length (ag_data a) = length ks" by (metis length_map)
  show ?thesis
  proof (cases "map_of (ag_data a) k")
    case None
    let ?a = "a\<lparr>ag_data := ag_data a @ [(k, set_of_snapshot (ag_hist_max a) ?s hist)]\<rparr>"
    from None have new: "k \<notin> set ks" using keys(1) by (auto simp: map_of_eq_None_iff)
    with room len have "length (ag_data a) < ag_max_series a" by simp
    then have eq: "absorb_series X dec ?s a = Inr ?a" unfolding absorb_series_def Let_def key by (simp add: None hist(1))
    have view_a: "view population m' = view_of_values quant (ty k') ((f(k := f k @ vs)) k')"
      if "(k', m') \<in> set (ag_data ?a)" for k' m'
    proof -
      have "(k, m') \<notin> set (ag_data a)" using new keys(1) by force
      with that h new fresh m(1) hist(2) show ?thesis by (auto simp: holds_def view_of_snapshot)
    qed
    have "holds population quant ty (f(k := f k @ vs)) (ks @ [k]) (ag_data ?a)"
    proof -
      have "\<forall>(k', m') \<in> set (ag_data ?a). view population m' = view_of_values quant (ty k') ((f(k := f k @ vs)) k')"
        using view_a by blast
      then show ?thesis unfolding holds_def using new keys by simp
    qed
    with eq that [of ?a] new show ?thesis by simp
  next
    case (Some m0)
    let ?a = "a\<lparr>ag_data := upsert k (absorb_into X ?s hist) m0 (ag_data a)\<rparr>"
    from Some have mem: "(k, m0) \<in> set (ag_data a)" by (rule map_of_SomeD)
    then have kin: "k \<in> set ks" using keys(1) by force
    have eq: "absorb_series X dec ?s a = Inr ?a" unfolding absorb_series_def Let_def key by (simp add: Some hist(1))
    have data: "ag_data ?a = map (\<lambda>(k', v). (k', if k' = k then absorb_into X ?s hist v else v)) (ag_data a)"
      using upsert_in_place [of "ag_data a" k] keys kin by simp
    have views: "view population m' = view_of_values quant (ty k') (f k')" if "(k', m') \<in> set (ag_data a)" for k' m'
      using that h by (auto simp: holds_def)
    have "view population (absorb_into X ?s hist m') = view_of_values quant (ty k) (f k @ vs)" if "(k, m') \<in> set (ag_data a)" for m'
      using absorb_view [OF laws views [OF that] _ m(2)] hist(2) m(1) by simp
    then have "holds population quant ty (f(k := f k @ vs)) ks (ag_data ?a)"
      unfolding holds_def data using views keys by (auto simp: comp_def case_prod_unfold)
    with eq kin that [of ?a] show ?thesis by simp
  qed
qed

lemma absorb_all_holds:
  assumes laws: "hdr_laws X quant population grows" and codec: "codec enc dec"
    and "holds population quant ty f ks (ag_data a)" and "\<forall>k. k \<notin> set ks \<longrightarrow> f k = []"
    and "holds population quant ty g (map fst xs) xs" and "\<forall>k \<in> fst ` set xs. g k \<noteq> [] \<and> tag_map (mk_tags k) = mk_tags k"
    and "length ks + length (filter (\<lambda>k. k \<notin> set ks) (map fst xs)) \<le> ag_max_series a"
  shows "\<exists>a'. absorb_all_series X dec (map (snapshot_series X enc) xs) a = Inr a'
    \<and> holds population quant ty (\<lambda>k. f k @ (if k \<in> fst ` set xs then g k else []))
         (ks @ filter (\<lambda>k. k \<notin> set ks) (map fst xs)) (ag_data a')
    \<and> ag_max_series a' = ag_max_series a \<and> ag_series_dropped a' = ag_series_dropped a"
  using assms(3-)
proof (induction xs arbitrary: f ks a)
  case (Cons p xs)
  obtain k m where p: "p = (k, m)" by (cases p)
  let ?f = "f(k := f k @ g k)" and ?ks = "if k \<in> set ks then ks else ks @ [k]"
  from Cons.prems(3) have k: "k \<notin> fst ` set xs" "view population m = view_of_values quant (ty k) (g k)"
    and xs: "holds population quant ty g (map fst xs) xs"
    by (auto simp: holds_def p)
  have "k \<in> set ks \<or> length ks < ag_max_series a" using Cons.prems(5) by (auto simp: p split: if_splits)
  with absorb_series_holds [OF laws codec Cons.prems(1) _ k(2)] Cons.prems(2,4)
  obtain a1 where a1: "absorb_series X dec (snapshot_series X enc (k, m)) a = Inr a1"
    "holds population quant ty ?f ?ks (ag_data a1)" "ag_max_series a1 = ag_max_series a" "ag_series_dropped a1 = ag_series_dropped a"
    by (auto simp: p)
  have keys: "?ks @ filter (\<lambda>x. x \<notin> set ?ks) (map fst xs) = ks @ filter (\<lambda>x. x \<notin> set ks) (map fst (p # xs))"
    using k(1) by (auto simp: p intro!: filter_cong)
  then have "length ?ks + length (filter (\<lambda>x. x \<notin> set ?ks) (map fst xs)) \<le> ag_max_series a1"
    using Cons.prems(5) a1(3) by (metis length_append)
  moreover have "\<forall>x. x \<notin> set ?ks \<longrightarrow> ?f x = []" using Cons.prems(2) by auto
  moreover have "\<forall>k \<in> fst ` set xs. g k \<noteq> [] \<and> tag_map (mk_tags k) = mk_tags k" using Cons.prems(4) by simp
  ultimately obtain a' where a': "absorb_all_series X dec (map (snapshot_series X enc) xs) a1 = Inr a'"
    "holds population quant ty (\<lambda>x. ?f x @ (if x \<in> fst ` set xs then g x else [])) (?ks @ filter (\<lambda>x. x \<notin> set ?ks) (map fst xs)) (ag_data a')"
    "ag_max_series a' = ag_max_series a1" "ag_series_dropped a' = ag_series_dropped a1"
    using Cons.IH [OF a1(2) _ xs] by blast
  have "(\<lambda>x. ?f x @ (if x \<in> fst ` set xs then g x else [])) = (\<lambda>x. f x @ (if x \<in> fst ` set (p # xs) then g x else []))"
    using k(1) by (auto simp: p)
  with a' a1 keys show ?case by (simp add: p)
qed simp

text \<open>A worker's aggregator, when no series was dropped.\<close>

definition values_of :: "rat sample list \<Rightarrow> metric_key \<Rightarrow> rat list" where
  "values_of ss k = map smp_value (samples_of k ss)"

definition well_typed :: "(metric_key \<Rightarrow> metric_type) \<Rightarrow> rat sample list \<Rightarrow> bool" where
  "well_typed ty ss \<longleftrightarrow> list_all (\<lambda>s. type_of_sample (smp_type s) = ty (key_of s) \<and> tag_map (smp_tags s) = smp_tags s) ss"

lemma worker_holds:
  assumes "hdr_laws X quant population grows" "well_typed ty ss" "length (uniq (map key_of ss)) \<le> cap"
  shows "holds population quant ty (values_of ss) (uniq (map key_of ss)) (ag_data (agg_after X hmax cap ss))"
proof -
  have "type_of_sample (smp_type (hd (samples_of k ss))) = ty k" if "k \<in> key_of ` set ss" for k
  proof -
    have "samples_of k ss \<noteq> []" using that by (auto simp: samples_of_empty)
    then have "hd (samples_of k ss) \<in> set ss \<and> key_of (hd (samples_of k ss)) = k"
      using hd_in_set [of "samples_of k ss"] by (simp add: samples_of_def)
    with assms(2) show ?thesis by (auto simp: well_typed_def list_all_iff)
  qed
  with assms show ?thesis
    by (auto simp: holds_def agg_data_layout layout_def kept_keys_def series_of_def view_set_of_samples values_of_def comp_def)
qed

lemma values_of_append: "values_of (xs @ ys) k = values_of xs k @ values_of ys k"
  by (simp add: values_of_def samples_of_def)

lemma values_of_empty: "values_of ss k = [] \<longleftrightarrow> k \<notin> set (map key_of ss)"
  by (simp add: values_of_def samples_of_empty)

lemma absorb_worker:
  assumes laws: "hdr_laws X quant population grows" and codec: "codec enc dec"
    and h: "holds population quant ty (values_of ss) (uniq (map key_of ss)) (ag_data a)"
    and w: "well_typed ty ws" "length (uniq (map key_of (ss @ ws))) \<le> min cap (ag_max_series a)"
  shows "\<exists>a'. absorb_snapshot X dec (build_snapshot X enc (agg_after X hmax cap ws)) a = Inr a'
    \<and> holds population quant ty (values_of (ss @ ws)) (uniq (map key_of (ss @ ws))) (ag_data a')
    \<and> ag_max_series a' = ag_max_series a \<and> ag_series_dropped a' = ag_series_dropped a"
proof -
  let ?xs = "ag_data (agg_after X hmax cap ws)" and ?ks = "uniq (map key_of ss)"
  have len: "length (uniq (map key_of ws)) \<le> length (uniq (map key_of (ss @ ws)))"
    using card_mono [of "set (map key_of (ss @ ws))" "set (map key_of ws)"]
    by (simp add: distinct_card [symmetric, OF uniq_set(2)] del: set_map)
  then have xs: "holds population quant ty (values_of ws) (uniq (map key_of ws)) ?xs"
    using worker_holds [OF laws w(1)] w(2) by simp
  then have keys: "map fst ?xs = uniq (map key_of ws)" by (simp add: holds_def)
  then have set: "fst ` set ?xs = key_of ` set ws" by (metis set_map uniq_set(1))
  have "tag_map (mk_tags k) = mk_tags k" if "k \<in> key_of ` set ws" for k
    using that w(1) by (auto simp: well_typed_def list_all_iff key_of_def)
  then have ne: "\<forall>k \<in> fst ` set ?xs. values_of ws k \<noteq> [] \<and> tag_map (mk_tags k) = mk_tags k"
    unfolding set by (simp add: values_of_empty)
  have new: "\<forall>k. k \<notin> set ?ks \<longrightarrow> values_of ss k = []" by (simp add: values_of_empty)
  have all: "?ks @ filter (\<lambda>k. k \<notin> set ?ks) (map fst ?xs) = uniq (map key_of (ss @ ws))"
    by (simp add: keys uniq_append)
  have "length ?ks + length (filter (\<lambda>k. k \<notin> set ?ks) (map fst ?xs)) \<le> ag_max_series a"
    unfolding length_append [symmetric] all using w(2) by simp
  from absorb_all_holds [OF laws codec h new xs [folded keys] ne this] obtain a' where a': "absorb_all_series X dec (map (snapshot_series X enc) ?xs) a = Inr a'"
    "holds population quant ty (\<lambda>k. values_of ss k @ (if k \<in> fst ` set ?xs then values_of ws k else []))
       (uniq (map key_of (ss @ ws))) (ag_data a')"
    "ag_max_series a' = ag_max_series a" "ag_series_dropped a' = ag_series_dropped a"
    unfolding all by blast
  have empty: "values_of ws k = []" if "k \<notin> key_of ` set ws" for k using that by (simp add: values_of_empty)
  have "(\<lambda>k. values_of ss k @ (if k \<in> fst ` set ?xs then values_of ws k else [])) = values_of (ss @ ws)"
    unfolding set using empty by (auto simp: values_of_append fun_eq_iff)
  with a' show ?thesis by (simp add: absorb_snapshot_def build_snapshot_def)
qed

lemma absorb_workers:
  assumes laws: "hdr_laws X quant population grows" and codec: "codec enc dec"
    and "holds population quant ty (values_of ss) (uniq (map key_of ss)) (ag_data a)"
    and "\<forall>ws \<in> set wss. well_typed ty ws" "length (uniq (map key_of (ss @ concat wss))) \<le> min cap (ag_max_series a)"
  shows "\<exists>a'. absorb_snapshots X dec (map (\<lambda>ws. build_snapshot X enc (agg_after X hmax cap ws)) wss) a = Inr a'
    \<and> holds population quant ty (values_of (ss @ concat wss)) (uniq (map key_of (ss @ concat wss))) (ag_data a')
    \<and> ag_series_dropped a' = ag_series_dropped a"
  using assms(3-)
proof (induction wss arbitrary: ss a)
  case (Cons ws wss)
  have "length (uniq (map key_of (ss @ ws))) \<le> length (uniq (map key_of (ss @ concat (ws # wss))))"
    using uniq_append [of "map key_of (ss @ ws)" "map key_of (concat wss)"] by simp
  then have "length (uniq (map key_of (ss @ ws))) \<le> min cap (ag_max_series a)" using Cons.prems(3) by linarith
  then obtain a1 where a1: "absorb_snapshot X dec (build_snapshot X enc (agg_after X hmax cap ws)) a = Inr a1"
    "holds population quant ty (values_of (ss @ ws)) (uniq (map key_of (ss @ ws))) (ag_data a1)"
    "ag_max_series a1 = ag_max_series a" "ag_series_dropped a1 = ag_series_dropped a"
    using absorb_worker [OF laws codec Cons.prems(1)] Cons.prems(2) by (metis list.set_intros(1))
  with Cons.IH [OF a1(2)] Cons.prems(2,3) show ?case by simp
qed simp

section \<open>Totals\<close>

lemma absorb_series_totals: "absorb_series X dec s a = Inr a' \<Longrightarrow> ag_totals a' = ag_totals a"
  by (auto simp: absorb_series_def Let_def split: option.splits if_splits)

lemma absorb_all_totals: "absorb_all_series X dec ss a = Inr a' \<Longrightarrow> ag_totals a' = ag_totals a"
  by (induction ss arbitrary: a) (auto dest: absorb_series_totals)

definition lookup0 :: "(string \<times> rat) list \<Rightarrow> string \<Rightarrow> rat" where
  "lookup0 m n = (case map_of m n of Some t \<Rightarrow> t | None \<Rightarrow> 0)"

lemma lookup0_Cons [simp]: "lookup0 ((k, v) # m) n = (if k = n then v else lookup0 m n)"
  by (simp add: lookup0_def)

lemma lookup0_fold:
  "distinct (map fst ps) \<Longrightarrow> lookup0 (fold (\<lambda>(k, v). upsert k (\<lambda>t. t + v) 0) ps m) n = lookup0 m n + lookup0 ps n"
proof (induction ps arbitrary: m)
  case (Cons p ps)
  have "map_of ps (fst p) = None" using Cons.prems by (simp add: map_of_eq_None_iff)
  with Cons show ?case by (auto simp: lookup0_def map_of_upsert case_prod_unfold split: option.splits)
qed (simp add: lookup0_def)

lemma agg_totals_distinct: "distinct (map fst (ag_totals (agg_after X hmax cap ss)))"
proof (induction ss rule: rev_induct)
  case Nil
  show ?case by (simp add: agg_after_def agg_start_def agg_new_def)
qed (simp add: agg_after_snoc agg_record_totals)

lemma absorb_workers_totals:
  assumes "absorb_snapshots X dec (map (\<lambda>ws. build_snapshot X enc (agg_after X hmax cap ws)) wss) a = Inr a'"
  shows "total_of a' n = total_of a n + (\<Sum>s \<leftarrow> named n (concat wss). smp_value s)"
  using assms
proof (induction wss arbitrary: a)
  case (Cons ws wss)
  then obtain a1 where a1: "absorb_snapshot X dec (build_snapshot X enc (agg_after X hmax cap ws)) a = Inr a1"
    "absorb_snapshots X dec (map (\<lambda>ws. build_snapshot X enc (agg_after X hmax cap ws)) wss) a1 = Inr a'"
    by auto
  have "total_of a1 n = total_of a n + total_of (agg_after X hmax cap ws) n"
    using a1(1) lookup0_fold [OF agg_totals_distinct]
    by (auto simp: absorb_snapshot_def build_snapshot_def total_of_def simp flip: lookup0_def dest!: absorb_all_totals)
  with Cons.IH [OF a1(2)] show ?case by (simp add: agg_total named_def)
qed (simp add: named_def)

section \<open>The headline of the merged series\<close>

definition no_last :: "aggregate_view \<Rightarrow> aggregate_view" where
  "no_last v = v\<lparr>av_last := 0\<rparr>"

lemma merge_from_view:
  assumes laws: "hdr_laws X quant population grows" and t: "ms_type m = MTrend"
    and "view population m = w" and "no_last w = no_last (view_of_values quant MTrend vs)"
    and "view population other = view_of_values quant MTrend ws"
  shows "ms_type (merge_from X other m) = MTrend"
    "no_last (view population (merge_from X other m)) = no_last (view_of_values quant MTrend (vs @ ws))"
proof -
  have pop: "population (lh_merge X (get_hist X m) h) = hist_population population (ms_hist m) + population h" for h
    by (simp add: merge_population [OF laws] get_hist_population [OF laws] hist_population_def)
  show "ms_type (merge_from X other m) = MTrend" using t by (simp add: merge_from_def Let_def split: option.splits)
  show "no_last (view population (merge_from X other m)) = no_last (view_of_values quant MTrend (vs @ ws))"
    using assms pop
    by (auto simp: merge_from_def Let_def view_def no_last_def view_of_values_def tracks_extremes_def hist_population_def
        fold_min_append fold_max_append simp del: fold_append split: option.splits)
qed

definition merged_sets :: "'h hdr \<Rightarrow> nat option \<Rightarrow> 'h metric_set list \<Rightarrow> 'h metric_set option" where
  "merged_sets X hmax ms = (if ms = [] then None else Some (fold (merge_from X) ms (set_new MTrend hmax True)))"

lemma rebuild_step_frame [simp]:
  "ag_data (rebuild_step X p a) = ag_data a" "ag_hist_max (rebuild_step X p a) = ag_hist_max a"
  "ag_totals (rebuild_step X p a) = ag_totals a" "ag_series_dropped (rebuild_step X p a) = ag_series_dropped a"
  by (simp_all add: rebuild_step_def Let_def split: option.splits)

lemma rebuild_step_http:
  "ag_http_dur (rebuild_step X p a) =
     (if mk_metric (fst p) = ''http_req_duration'' then Some (merge_from X (snd p) (or_new (ag_hist_max a) (ag_http_dur a)))
      else ag_http_dur a)"
  by (auto simp: rebuild_step_def Let_def split: option.splits)

lemma rebuild_fold_frame [simp]:
  "ag_data (fold (rebuild_step X) ps a) = ag_data a" "ag_hist_max (fold (rebuild_step X) ps a) = ag_hist_max a"
  "ag_totals (fold (rebuild_step X) ps a) = ag_totals a" "ag_series_dropped (fold (rebuild_step X) ps a) = ag_series_dropped a"
  by (induction ps arbitrary: a) simp_all

lemma rebuild_merged_frame [simp]:
  "ag_data (rebuild_merged X a) = ag_data a" "ag_totals (rebuild_merged X a) = ag_totals a"
  "ag_series_dropped (rebuild_merged X a) = ag_series_dropped a"
  by (simp_all add: rebuild_merged_def)

lemma rebuild_http:
  "ag_http_dur (rebuild_merged X a) =
     merged_sets X (ag_hist_max a) (map snd (filter (\<lambda>p. mk_metric (fst p) = ''http_req_duration'') (ag_data a)))"
proof -
  have "ag_http_dur (fold (rebuild_step X) ps a') =
      merged_sets X (ag_hist_max a') (map snd (filter (\<lambda>p. mk_metric (fst p) = ''http_req_duration'') ps))"
    if "ag_http_dur a' = None" for ps and a' :: "'a aggregator"
    by (induction ps rule: rev_induct) (simp_all add: that rebuild_step_http merged_sets_def or_new_def)
  then show ?thesis by (simp add: rebuild_merged_def)
qed

lemma merged_view:
  assumes laws: "hdr_laws X quant population grows"
    and "list_all2 (\<lambda>m vs. view population m = view_of_values quant MTrend vs) ms vss"
    and "ms_type m0 = MTrend" "no_last (view population m0) = no_last (view_of_values quant MTrend vs0)"
  shows "no_last (view population (fold (merge_from X) ms m0)) = no_last (view_of_values quant MTrend (vs0 @ concat vss))"
  using assms(2-)
proof (induction arbitrary: m0 vs0 rule: list_all2_induct)
  case (Cons m ms vs vss)
  from Cons.IH [OF merge_from_view [OF laws Cons.prems(1) refl Cons.prems(2) Cons.hyps(1)]] show ?case by simp
qed simp

lemma values_partition:
  "finite K \<Longrightarrow> (\<Sum>k \<in> K. mset (values_of ss k)) = mset (map smp_value (filter (\<lambda>s. key_of s \<in> K) ss))"
proof (induction ss)
  case (Cons s ss)
  have "mset (values_of (s # ss) k) = (if k = key_of s then {#smp_value s#} else {#}) + mset (values_of ss k)" for k
    by (simp add: values_of_def samples_of_def)
  with Cons show ?case by (simp add: sum.distrib sum.delta)
qed (simp add: values_of_def)

lemma values_of_named:
  "mset (concat (map (values_of ss) (filter (\<lambda>k. mk_metric k = n) (uniq (map key_of ss))))) = mset (map smp_value (named n ss))"
proof -
  let ?K = "filter (\<lambda>k. mk_metric k = n) (uniq (map key_of ss))"
  have "mset (concat (map (values_of ss) ?K)) = (\<Sum>k \<leftarrow> ?K. mset (values_of ss k))"
    by (simp add: mset_concat comp_def)
  also have "\<dots> = (\<Sum>k \<in> set ?K. mset (values_of ss k))"
    by (rule sum_list_distinct_conv_sum_set) simp
  also have "\<dots> = mset (map smp_value (filter (\<lambda>s. key_of s \<in> set ?K) ss))"
    by (rule values_partition) simp
  also have "filter (\<lambda>s. key_of s \<in> set ?K) ss = named n ss"
    unfolding named_def by (intro filter_cong) (auto simp: key_of_def)
  finally show ?thesis .
qed

lemma no_last_perm:
  assumes "mset vs = mset ws"
  shows "no_last (view_of_values quant t vs) = no_last (view_of_values quant t ws)"
proof -
  have "fold min vs = fold min ws" by (rule fold_multiset_equiv [OF _ assms]) (simp add: fun_eq_iff min.left_commute)
  moreover have "fold max vs = fold max ws"
    by (rule fold_multiset_equiv [OF _ assms]) (simp add: fun_eq_iff max.left_commute)
  moreover have "sum_list vs = sum_list ws" using assms sum_mset_sum_list [of vs] sum_mset_sum_list [of ws] by simp
  ultimately show ?thesis
    using assms by (simp add: no_last_def view_of_values_def mset_eq_length [OF assms])
qed

section \<open>Properties of the merge\<close>

definition worker_snapshot :: "'h hdr \<Rightarrow> (string \<Rightarrow> string) \<Rightarrow> nat option \<Rightarrow> rat sample list \<Rightarrow> metrics_snapshot" where
  "worker_snapshot X enc hmax ws = build_snapshot X enc (agg_after X hmax MAX_SERIES ws)"

lemma merge_base_fields [simp]:
  "ag_data (merge_base ts snaps) = []" "ag_max_series (merge_base ts snaps) = MAX_SERIES"
  "ag_series_dropped (merge_base ts snaps) = 0" "ag_totals (merge_base ts snaps) = []"
  by (simp_all add: merge_base_def agg_new_def Let_def)

lemma merged_http_view:
  assumes laws: "hdr_laws X quant population grows"
    and h: "holds population quant ty (values_of ss) (uniq (map key_of ss)) (ag_data a)"
    and trend: "\<And>k. mk_metric k = ''http_req_duration'' \<Longrightarrow> ty k = MTrend"
  shows "map_option (no_last \<circ> view population) (ag_http_dur (rebuild_merged X a)) =
    (if named ''http_req_duration'' ss = [] then None
     else Some (no_last (view_of_values quant MTrend (map smp_value (named ''http_req_duration'' ss)))))"
proof -
  let ?es = "filter (\<lambda>p. mk_metric (fst p) = ''http_req_duration'') (ag_data a)"
  let ?ks = "filter (\<lambda>k. mk_metric k = ''http_req_duration'') (uniq (map key_of ss))"
  have keys: "map fst ?es = ?ks" using h filter_map [of "\<lambda>k. mk_metric k = ''http_req_duration''" fst "ag_data a"] by (simp add: holds_def comp_def)
  have "view population (snd p) = view_of_values quant MTrend (values_of ss (fst p))" if "p \<in> set ?es" for p
    using that h trend [of "fst p"] by (auto simp: holds_def)
  then have "list_all2 (\<lambda>m vs. view population m = view_of_values quant MTrend vs) (map snd ?es) (map (values_of ss) (map fst ?es))"
    by (simp add: list.rel_map list_all2_same)
  then have "no_last (view population (fold (merge_from X) (map snd ?es) (set_new MTrend (ag_hist_max a) True)))
      = no_last (view_of_values quant MTrend (concat (map (values_of ss) ?ks)))"
    using merged_view [OF laws, of "map snd ?es" "map (values_of ss) ?ks" _ "[]"]
    by (simp add: keys view_new [where quant = quant] del: map_map)
  also have "\<dots> = no_last (view_of_values quant MTrend (map smp_value (named ''http_req_duration'' ss)))"
    by (rule no_last_perm) (rule values_of_named)
  finally have v: "no_last (view population (fold (merge_from X) (map snd ?es) (set_new MTrend (ag_hist_max a) True))) = \<dots>" .
  have "?es = [] \<longleftrightarrow> ?ks = []" using keys by (metis Nil_is_map_conv)
  also have "\<dots> \<longleftrightarrow> named ''http_req_duration'' ss = []"
    by (auto simp: filter_empty_conv named_def key_of_def)
  finally show ?thesis using v by (simp add: rebuild_http merged_sets_def)
qed



definition corrupt :: "'h hdr \<Rightarrow> (string \<Rightarrow> string option) \<Rightarrow> series_snapshot \<Rightarrow> bool" where
  "corrupt X dec s = (case sn_hist s of None \<Rightarrow> False | Some b \<Rightarrow> Option.bind (dec b) (from_bytes X) = None)"

lemma isl_bindE: "isl (bindE m f) \<longleftrightarrow> isl m \<or> isl (f (projr m))"
  by (cases m) simp_all

lemma absorb_series_fails: "isl (absorb_series X dec s a) \<longleftrightarrow> corrupt X dec s"
  by (auto simp: absorb_series_def decode_histogram_def corrupt_def Let_def isl_bindE ok_or_def bind_eq_None_conv split: option.splits)

lemma absorb_all_fails: "isl (absorb_all_series X dec ss a) \<longleftrightarrow> list_ex (corrupt X dec) ss"
  by (induction ss arbitrary: a) (simp_all add: isl_bindE absorb_series_fails)

lemma absorb_snapshots_fails: "isl (absorb_snapshots X dec snaps a) \<longleftrightarrow> list_ex (corrupt X dec) (concat (map snap_series snaps))"
  by (induction snaps arbitrary: a) (simp_all add: isl_bindE absorb_snapshot_def absorb_all_fails)

text \<open>
  The merge fails exactly when some series of some snapshot carries a histogram payload that is
  not base64 or does not deserialise: a corrupt payload is never replaced by an empty histogram,
  and a merge of sound snapshots never fails.
\<close>

theorem corrupt_snapshot_refused:
  "isl (merge_snapshots X dec t ol al ts snaps) \<longleftrightarrow> list_ex (corrupt X dec) (concat (map snap_series snaps))"
  by (simp add: merge_snapshots_def merge_aggregators_def isl_bindE absorb_snapshots_fails)

text \<open>
  A worker's count of dropped samples does not reach the controller. The results of a worker that
  dropped samples are flagged as unverified; the merge of its snapshot is not.
\<close>

theorem worker_drops_not_reported:
  "is_unverified (build_results exact_store 0 0 0 (agg_after exact_store None 1 [request_sample ''a'' 3, request_sample ''b'' 5]))
   \<and> (\<exists>r. merge_snapshots exact_store Some 0 0 0 []
           [build_snapshot exact_store id (agg_after exact_store None 1 [request_sample ''a'' 3, request_sample ''b'' 5])] = Inr r
         \<and> \<not> is_unverified r)"
proof
  let ?w = "agg_after exact_store None 1 [request_sample ''a'' 3, request_sample ''b'' 5]"
  show "is_unverified (build_results exact_store 0 0 0 ?w)" by code_simp
  have "case merge_snapshots exact_store Some 0 0 0 [] [build_snapshot exact_store id ?w] of
      Inl _ \<Rightarrow> False | Inr r \<Rightarrow> \<not> is_unverified r" by code_simp
  then show "\<exists>r. merge_snapshots exact_store Some 0 0 0 [] [build_snapshot exact_store id ?w] = Inr r \<and> \<not> is_unverified r"
    by (auto split: sum.splits)
qed

end
