(* ===== verification/Collector.thy ===== *)
theory Collector
  imports Snapshots "HOL-Library.Sublist"
begin

text \<open>
  The metrics collector, \<^verbatim>\<open>struct MetricsCollector\<close> of \<^verbatim>\<open>crates/tropel-metrics/src/collector.rs\<close>: four
  aggregator shards behind bounded channels, the batch and single record paths, the requests that
  gather results, and the merge of the shards' results.

  The hash of a metric name (\<^verbatim>\<open>DefaultHasher\<close>, whose algorithm is unspecified) is the parameter
  \<open>hash\<close>. A shard is its channel, the aggregator task behind it and whether the channel is open. The
  broadcast sink is the list of samples sent to it.
\<close>

definition SHARD_COUNT :: nat where "SHARD_COUNT = 4"
definition MAX_PENDING_SAMPLES :: nat where "MAX_PENDING_SAMPLES = 100000"
definition MAX_PENDING_SAMPLES_PER_SHARD :: nat where
  "MAX_PENDING_SAMPLES_PER_SHARD = MAX_PENDING_SAMPLES div SHARD_COUNT"

section \<open>Events and shards\<close>

datatype event =
  Samples "rat sample list"
| GetResults
| GetSnapshot
| GetTotal string
| SetSummaryConfig "string list" "(string \<times> threshold_config) list"
| SetHistogramMax "nat option"

datatype 'h reply = NoReply | Results "'h metrics_result" | Snapshot metrics_snapshot | Total rat

definition handle_event ::
  "'h hdr \<Rightarrow> (string \<Rightarrow> string) \<Rightarrow> nat \<Rightarrow> nat \<Rightarrow> nat \<Rightarrow> event \<Rightarrow> 'h aggregator \<Rightarrow> 'h aggregator \<times> 'h reply" where
  "handle_event X enc elapsed out_lost agg_lost e a =
     (case e of
        Samples ss \<Rightarrow> (fold (agg_record X) ss a, NoReply)
      | GetResults \<Rightarrow> (a, Results (build_results X elapsed out_lost agg_lost a))
      | GetSnapshot \<Rightarrow> (a, Snapshot (build_snapshot X enc a))
      | GetTotal n \<Rightarrow> (a, Total (total_of a n))
      | SetSummaryConfig stats ts \<Rightarrow>
          (a\<lparr>ag_retain := config_needs_histograms stats ts, ag_trend_stats := stats, ag_thresholds := ts\<rparr>, NoReply)
      | SetHistogramMax m \<Rightarrow> (a\<lparr>ag_hist_max := m\<rparr>, NoReply))"

record 'h shard =
  sh_queue :: "event list"
  sh_open :: bool
  sh_agg :: "'h aggregator"

datatype send_error = Full | Closed

definition try_send :: "event \<Rightarrow> 'h shard \<Rightarrow> send_error + 'h shard" where
  "try_send e sh =
     (if \<not> sh_open sh then Inl Closed
      else if length (sh_queue sh) \<ge> MAX_PENDING_SAMPLES_PER_SHARD then Inl Full
      else Inr (sh\<lparr>sh_queue := sh_queue sh @ [e]\<rparr>))"

section \<open>The collector\<close>

record 'h collector =
  co_shards :: "'h shard list"
  co_sink :: "rat sample list option"
  co_lost :: nat

definition collector_new :: "'h collector" where
  "collector_new =
     \<lparr>co_shards = replicate SHARD_COUNT \<lparr>sh_queue = [], sh_open = True, sh_agg = agg_new\<rparr>, co_sink = None, co_lost = 0\<rparr>"

definition shard_for_key :: "(string \<Rightarrow> nat) \<Rightarrow> metric_key \<Rightarrow> nat" where
  "shard_for_key hash k = hash (mk_metric k) mod SHARD_COUNT"

definition forward_to_sink :: "rat sample list \<Rightarrow> 'h collector \<Rightarrow> 'h collector" where
  "forward_to_sink ss c = c\<lparr>co_sink := map_option (\<lambda>out. out @ ss) (co_sink c)\<rparr>"

text \<open>The filter of both record paths: samples with a finite value.\<close>

fun finite_value :: "f64 \<Rightarrow> rat option" where
  "finite_value (Fin x) = Some x" | "finite_value _ = None"

definition finite_sample :: "f64 sample \<Rightarrow> rat sample option" where
  "finite_sample s =
     map_option (\<lambda>v. \<lparr>smp_metric = smp_metric s, smp_tags = smp_tags s, smp_value = v, smp_type = smp_type s\<rparr>)
       (finite_value (smp_value s))"

definition send_batch :: "nat \<Rightarrow> rat sample list \<Rightarrow> 'h collector \<Rightarrow> 'h collector" where
  "send_batch i batch c =
     (if batch = [] then c
      else (case try_send (Samples batch) (co_shards c ! i) of
              Inr sh \<Rightarrow> c\<lparr>co_shards := (co_shards c)[i := sh]\<rparr>
            | Inl Full \<Rightarrow> c\<lparr>co_lost := co_lost c + length batch\<rparr>
            | Inl Closed \<Rightarrow> c))"

definition shard_batch :: "(string \<Rightarrow> nat) \<Rightarrow> rat sample list \<Rightarrow> nat \<Rightarrow> rat sample list" where
  "shard_batch hash ss i = filter (\<lambda>s. shard_for_key hash (key_of s) = i) ss"

definition record_batch :: "(string \<Rightarrow> nat) \<Rightarrow> f64 sample list \<Rightarrow> 'h collector \<Rightarrow> 'h collector" where
  "record_batch hash samples c =
     (let ss = List.map_filter finite_sample samples in
      if ss = [] then c
      else fold (\<lambda>i. send_batch i (shard_batch hash ss i)) [0..<SHARD_COUNT] (forward_to_sink ss c))"

definition collector_record :: "(string \<Rightarrow> nat) \<Rightarrow> f64 sample \<Rightarrow> 'h collector \<Rightarrow> 'h collector" where
  "collector_record hash sample c =
     (case finite_sample sample of
        None \<Rightarrow> c
      | Some s \<Rightarrow> send_batch (shard_for_key hash (key_of s)) [s] (forward_to_sink [s] c))"

text \<open>A step of the aggregator task of a shard: it takes the oldest event of its channel.\<close>

definition serve :: "'h hdr \<Rightarrow> nat \<Rightarrow> 'h collector \<Rightarrow> 'h collector" where
  "serve X i c =
     (case sh_queue (co_shards c ! i) of
        [] \<Rightarrow> c
      | e # es \<Rightarrow>
          c\<lparr>co_shards := (co_shards c)[i := (co_shards c ! i)
              \<lparr>sh_queue := es, sh_agg := fst (handle_event X id 0 0 0 e (sh_agg (co_shards c ! i)))\<rparr>]\<rparr>)"

section \<open>Merging the shards' results\<close>

definition pick_larger :: "'h metric_summary option \<Rightarrow> 'h metric_summary option \<Rightarrow> 'h metric_summary option" where
  "pick_larger out r =
     (case (out, r) of
        (None, Some b) \<Rightarrow> Some b
      | (Some a, Some b) \<Rightarrow> if sum_count b > sum_count a then Some b else Some a
      | _ \<Rightarrow> out)"

definition merge_step :: "'h metrics_result \<Rightarrow> 'h metrics_result \<Rightarrow> 'h metrics_result" where
  "merge_step r out =
     out\<lparr>res_metrics := res_metrics out @ res_metrics r, res_per_url := res_per_url out @ res_per_url r,
         res_per_group := res_per_group out @ res_per_group r,
         checks_total := u64_add (checks_total out) (checks_total r),
         checks_passed := u64_add (checks_passed out) (checks_passed r),
         checks_failed := u64_add (checks_failed out) (checks_failed r),
         vu_init_failures := wrap_u32 (vu_init_failures out + vu_init_failures r),
         script_failures := u64_add (script_failures out) (script_failures r),
         http_reqs := u64_add (http_reqs out) (http_reqs r),
         http_req_duration := pick_larger (http_req_duration out) (http_req_duration r),
         iteration_duration := pick_larger (iteration_duration out) (iteration_duration r),
         data_received := data_received out + data_received r, data_sent := data_sent out + data_sent r,
         errors := u64_add (errors out) (errors r), series_dropped := u64_add (series_dropped out) (series_dropped r),
         dropped_iterations := u64_add (dropped_iterations out) (dropped_iterations r),
         iterations := u64_add (iterations out) (iterations r), vus_max := max (vus_max out) (vus_max r),
         requested_vus := max (requested_vus out) (requested_vus r), effective_vus := max (effective_vus out) (effective_vus r),
         effective_vus_reason := (if effective_vus_reason out = None then effective_vus_reason r else effective_vus_reason out)\<rparr>"

definition merge_results :: "nat \<Rightarrow> nat \<Rightarrow> 'h metrics_result list \<Rightarrow> 'h metrics_result" where
  "merge_results out_lost agg_lost shards =
     (case shards of
        [] \<Rightarrow> default_result
      | [r] \<Rightarrow> r
      | r # _ \<Rightarrow>
          (let out0 = default_result\<lparr>summary_trend_stats := summary_trend_stats r, effective_thresholds := effective_thresholds r,
                 run_duration := Max (set (map run_duration shards))\<rparr>;
               out1 = fold merge_step shards out0;
               failed = fold (\<lambda>r x. x + http_req_failed_count r) shards 0;
               total = fold (\<lambda>r x. x + http_req_failed_total r) shards 0
           in out1\<lparr>http_req_failed_count := failed, http_req_failed_total := total,
                   http_req_failed := (if total > 0 then failed / total else http_req_failed out1),
                   output_samples_dropped := out_lost, aggregator_samples_dropped := agg_lost\<rparr>))"

definition shard_snapshots :: "metrics_snapshot list \<Rightarrow> metrics_snapshot" where
  "shard_snapshots snaps =
     (case snaps of
        [] \<Rightarrow> \<lparr>snap_series = [], snap_totals = [], snap_trend_stats = [], snap_thresholds = []\<rparr>
      | [s] \<Rightarrow> s
      | _ \<Rightarrow>
          fold (\<lambda>s out. out\<lparr>snap_series := snap_series out @ snap_series s,
                   snap_totals := fold (\<lambda>(k, v). upsert k (\<lambda>t. t + v) 0) (snap_totals s) (snap_totals out),
                   snap_trend_stats := (if snap_trend_stats out = [] \<and> snap_trend_stats s \<noteq> [] then snap_trend_stats s else snap_trend_stats out),
                   snap_thresholds := (if snap_thresholds out = [] \<and> snap_thresholds s \<noteq> [] then snap_thresholds s else snap_thresholds out)\<rparr>)
            snaps \<lparr>snap_series = [], snap_totals = [], snap_trend_stats = [], snap_thresholds = []\<rparr>)"

text \<open>
  A request for results, a snapshot or a total is answered by each open shard once it has handled what
  its channel holds (\<open>settle\<close>); the answers are merged.
\<close>

definition settle :: "'h hdr \<Rightarrow> 'h shard \<Rightarrow> 'h aggregator" where
  "settle X sh = fold (\<lambda>e a. fst (handle_event X id 0 0 0 e a)) (sh_queue sh) (sh_agg sh)"

definition collector_results :: "'h hdr \<Rightarrow> nat \<Rightarrow> nat \<Rightarrow> 'h collector \<Rightarrow> 'h metrics_result" where
  "collector_results X elapsed out_lost c =
     merge_results out_lost (co_lost c)
       (map (\<lambda>sh. build_results X elapsed out_lost (co_lost c) (settle X sh)) (filter sh_open (co_shards c)))"

definition collector_snapshot :: "'h hdr \<Rightarrow> (string \<Rightarrow> string) \<Rightarrow> 'h collector \<Rightarrow> metrics_snapshot" where
  "collector_snapshot X enc c = shard_snapshots (map (\<lambda>sh. build_snapshot X enc (settle X sh)) (filter sh_open (co_shards c)))"

definition total_count :: "'h hdr \<Rightarrow> string \<Rightarrow> 'h collector \<Rightarrow> rat" where
  "total_count X n c = fold (\<lambda>sh t. t + total_of (settle X sh) n) (filter sh_open (co_shards c)) 0"

definition broadcast_event :: "event \<Rightarrow> 'h collector \<Rightarrow> 'h collector" where
  "broadcast_event e c =
     c\<lparr>co_shards := map (\<lambda>sh. if sh_open sh then sh\<lparr>sh_queue := sh_queue sh @ [e]\<rparr> else sh) (co_shards c)\<rparr>"

definition set_histogram_max :: "nat option \<Rightarrow> 'h collector \<Rightarrow> 'h collector" where
  "set_histogram_max m = broadcast_event (SetHistogramMax m)"

definition set_summary_config :: "string list \<Rightarrow> (string \<times> threshold_config) list \<Rightarrow> 'h collector \<Rightarrow> 'h collector" where
  "set_summary_config stats ts = broadcast_event (SetSummaryConfig stats ts)"

section \<open>Every sample is delivered or counted\<close>

datatype co_op = Record_Batch "f64 sample list" | Record "f64 sample" | Serve nat

fun co_step :: "'h hdr \<Rightarrow> (string \<Rightarrow> nat) \<Rightarrow> co_op \<Rightarrow> 'h collector \<Rightarrow> 'h collector" where
  "co_step X hash (Record_Batch ss) c = record_batch hash ss c"
| "co_step X hash (Record s) c = collector_record hash s c"
| "co_step X hash (Serve i) c = (if i < SHARD_COUNT then serve X i c else c)"

fun op_samples :: "co_op \<Rightarrow> rat sample list" where
  "op_samples (Record_Batch ss) = List.map_filter finite_sample ss"
| "op_samples (Record s) = List.map_filter finite_sample [s]"
| "op_samples (Serve i) = []"

definition delivered ::
  "'h hdr \<Rightarrow> (string \<Rightarrow> nat) \<Rightarrow> (nat \<Rightarrow> rat sample list) \<Rightarrow> rat sample list \<Rightarrow> 'h collector \<Rightarrow> bool" where
  "delivered X hash acc ss c \<longleftrightarrow>
     length (co_shards c) = SHARD_COUNT \<and> list_all sh_open (co_shards c)
     \<and> (\<forall>i < SHARD_COUNT. settle X (co_shards c ! i) = fold (agg_record X) (acc i) agg_new
          \<and> subseq (acc i) (shard_batch hash ss i))
     \<and> co_lost c + (\<Sum>i < SHARD_COUNT. length (acc i)) = length ss"

lemma settle_enqueue: "settle X (sh\<lparr>sh_queue := sh_queue sh @ [Samples b]\<rparr>) = fold (agg_record X) b (settle X sh)"
  by (simp add: settle_def handle_event_def)

lemma try_send_cases:
  "sh_open sh \<Longrightarrow> try_send e sh = Inl Full \<or> try_send e sh = Inr (sh\<lparr>sh_queue := sh_queue sh @ [e]\<rparr>)"
  by (simp add: try_send_def)

lemma subseq_extend: "subseq xs ys \<Longrightarrow> b = zs \<or> b = [] \<Longrightarrow> subseq (xs @ b) (ys @ zs)"
  by (auto intro: list_emb_append_mono list_emb_append2)

definition sane :: "'h collector \<Rightarrow> bool" where
  "sane c \<longleftrightarrow> length (co_shards c) = SHARD_COUNT \<and> list_all sh_open (co_shards c)"

lemma send_batch_settles:
  assumes "sane c" "i < SHARD_COUNT"
  shows "sane (send_batch i b c) \<and> (\<exists>b'. (b' = b \<or> b' = []) \<and> co_lost (send_batch i b c) + length b' = co_lost c + length b
    \<and> (\<forall>j < SHARD_COUNT. settle X (co_shards (send_batch i b c) ! j) =
          (if j = i then fold (agg_record X) b' (settle X (co_shards c ! i)) else settle X (co_shards c ! j))))"
proof (cases "b = [] \<or> try_send (Samples b) (co_shards c ! i) = Inl Full")
  case True
  then show ?thesis using assms(1) by (auto simp: send_batch_def sane_def)
next
  case False
  let ?sh = "(co_shards c ! i)\<lparr>sh_queue := sh_queue (co_shards c ! i) @ [Samples b]\<rparr>"
  have "sh_open (co_shards c ! i)" using assms by (simp add: sane_def list_all_length)
  from try_send_cases [OF this, of "Samples b"] False have "send_batch i b c = c\<lparr>co_shards := (co_shards c)[i := ?sh]\<rparr>"
    by (auto simp: send_batch_def)
  with assms settle_enqueue [of X "co_shards c ! i" b] show ?thesis
    by (auto simp: sane_def list_all_length nth_list_update intro!: exI [of _ b])
qed

lemma send_batches_settle:
  assumes "sane c" "distinct is" "set is \<subseteq> {..<SHARD_COUNT}"
  shows "sane (fold (\<lambda>i. send_batch i (f i)) is c) \<and> (\<exists>g. (\<forall>i. g i = f i \<or> g i = [])
    \<and> co_lost (fold (\<lambda>i. send_batch i (f i)) is c) + (\<Sum>i \<in> set is. length (g i)) = co_lost c + (\<Sum>i \<in> set is. length (f i))
    \<and> (\<forall>j < SHARD_COUNT. settle X (co_shards (fold (\<lambda>i. send_batch i (f i)) is c) ! j) =
          (if j \<in> set is then fold (agg_record X) (g j) (settle X (co_shards c ! j)) else settle X (co_shards c ! j))))"
  using assms
proof (induction "is" arbitrary: c)
  case Nil
  then show ?case by (auto intro: exI [of _ f])
next
  case (Cons i is')
  let ?c = "send_batch i (f i) c" and ?d = "fold (\<lambda>i. send_batch i (f i)) is' (send_batch i (f i) c)"
  from send_batch_settles [OF Cons.prems(1), of i "f i" X] Cons.prems(3)
  obtain b where b: "b = f i \<or> b = []" "co_lost ?c + length b = co_lost c + length (f i)" "sane ?c"
    "\<And>j. j < SHARD_COUNT \<Longrightarrow> settle X (co_shards ?c ! j) =
          (if j = i then fold (agg_record X) b (settle X (co_shards c ! i)) else settle X (co_shards c ! j))"
    by auto
  from Cons.IH [OF b(3)] Cons.prems obtain g where g: "sane ?d" "\<And>i. g i = f i \<or> g i = []"
    "co_lost ?d + (\<Sum>i \<in> set is'. length (g i)) = co_lost ?c + (\<Sum>i \<in> set is'. length (f i))"
    "\<And>j. j < SHARD_COUNT \<Longrightarrow> settle X (co_shards ?d ! j) =
       (if j \<in> set is' then fold (agg_record X) (g j) (settle X (co_shards ?c ! j)) else settle X (co_shards ?c ! j))"
    by auto
  have "i \<notin> set is'" using Cons.prems(2) by simp
  then have "(\<Sum>x \<in> set is'. length ((g(i := b)) x)) = (\<Sum>x \<in> set is'. length (g x))" by (intro sum.cong) auto
  with b(2) g(3) \<open>i \<notin> set is'\<close>
  have "co_lost ?d + (\<Sum>x \<in> set (i # is'). length ((g(i := b)) x)) = co_lost c + (\<Sum>x \<in> set (i # is'). length (f x))"
    by simp
  moreover have "\<forall>j. (g(i := b)) j = f j \<or> (g(i := b)) j = []" using b(1) g(2) by simp
  moreover have "\<forall>j < SHARD_COUNT. settle X (co_shards ?d ! j) =
      (if j \<in> set (i # is') then fold (agg_record X) ((g(i := b)) j) (settle X (co_shards c ! j)) else settle X (co_shards c ! j))"
    using b(4) g(4) \<open>i \<notin> set is'\<close> by auto
  ultimately show ?case using g(1) unfolding fold_simps by blast
qed

lemma shard_batch_append: "shard_batch hash (xs @ ys) i = shard_batch hash xs i @ shard_batch hash ys i"
  by (simp add: shard_batch_def)

lemma shard_batch_length: "(\<Sum>i < SHARD_COUNT. length (shard_batch hash ss i)) = length ss"
proof (induction ss)
  case (Cons s ss)
  have "length (shard_batch hash (s # ss) i) = (if i = shard_for_key hash (key_of s) then 1 else 0) + length (shard_batch hash ss i)" for i
    by (simp add: shard_batch_def)
  moreover have "shard_for_key hash (key_of s) < SHARD_COUNT" by (simp add: shard_for_key_def SHARD_COUNT_def)
  ultimately show ?case using Cons by (simp add: sum.distrib)
qed (simp add: shard_batch_def)

lemma delivered_batches:
  assumes "delivered X hash acc ss c"
  shows "\<exists>acc'. delivered X hash acc' (ss @ bs) (fold (\<lambda>i. send_batch i (shard_batch hash bs i)) [0..<SHARD_COUNT] c)"
proof -
  let ?d = "fold (\<lambda>i. send_batch i (shard_batch hash bs i)) [0..<SHARD_COUNT] c"
  have "sane c" using assms by (simp add: delivered_def sane_def)
  from send_batches_settle [OF this, of "[0..<SHARD_COUNT]" "shard_batch hash bs" X]
  obtain g where g: "sane ?d" "\<And>i. g i = shard_batch hash bs i \<or> g i = []"
    "co_lost ?d + (\<Sum>i < SHARD_COUNT. length (g i)) = co_lost c + length bs"
    "\<And>j. j < SHARD_COUNT \<Longrightarrow> settle X (co_shards ?d ! j) = fold (agg_record X) (g j) (settle X (co_shards c ! j))"
    by (auto simp: shard_batch_length atLeast0LessThan)
  then have "delivered X hash (\<lambda>i. acc i @ g i) (ss @ bs) ?d"
    using assms by (auto simp: delivered_def sane_def shard_batch_append sum.distrib intro!: subseq_extend)
  then show ?thesis by blast
qed

lemma delivered_sink: "delivered X hash acc ss (forward_to_sink bs c) = delivered X hash acc ss c"
  by (simp add: delivered_def forward_to_sink_def)

lemma settle_serve:
  assumes "i < length (co_shards c)"
  shows "settle X (co_shards (serve X i c) ! j) = settle X (co_shards c ! j)"
    "length (co_shards (serve X i c)) = length (co_shards c)" "co_lost (serve X i c) = co_lost c"
    "list_all sh_open (co_shards c) \<Longrightarrow> list_all sh_open (co_shards (serve X i c))"
  using assms by (auto simp: serve_def settle_def nth_list_update list_all_length split: list.split)

lemma delivered_step:
  assumes "delivered X hash acc ss c"
  shows "\<exists>acc'. delivered X hash acc' (ss @ op_samples p) (co_step X hash p c)"
proof (cases p)
  case (Record_Batch bs)
  have "\<exists>acc'. delivered X hash acc' (ss @ List.map_filter finite_sample bs)
      (fold (\<lambda>i. send_batch i (shard_batch hash (List.map_filter finite_sample bs) i)) [0..<SHARD_COUNT]
        (forward_to_sink (List.map_filter finite_sample bs) c))"
    using delivered_batches assms delivered_sink by blast
  with Record_Batch assms show ?thesis by (auto simp: record_batch_def Let_def)
next
  case (Record s)
  have one: "fold (\<lambda>i. send_batch i (shard_batch hash [x] i)) [0..<SHARD_COUNT] d = send_batch (shard_for_key hash (key_of x)) [x] d"
    for x and d :: "'a collector"
  proof -
    have "shard_for_key hash (key_of x) \<in> {0, 1, 2, 3}" by (auto simp: shard_for_key_def SHARD_COUNT_def)
    then show ?thesis by (auto simp: SHARD_COUNT_def upt_rec shard_batch_def send_batch_def [of _ "[]"])
  qed
  have "\<exists>acc'. delivered X hash acc' (ss @ [x]) (send_batch (shard_for_key hash (key_of x)) [x] (forward_to_sink [x] c))" for x
    using delivered_batches [of X hash acc ss "forward_to_sink [x] c" "[x]"] assms unfolding delivered_sink one by blast
  with Record assms show ?thesis
    by (cases "finite_sample s") (auto simp: collector_record_def List.map_filter_def)
next
  case (Serve i)
  then show ?thesis
    using assms settle_serve [of i c X] by (auto simp: delivered_def intro!: exI [of _ acc])
qed

lemma delivered_new: "delivered X hash (\<lambda>_. []) [] collector_new"
  by (simp add: delivered_def collector_new_def settle_def list_all_length)

text \<open>
  C26. Every sample is delivered or counted. Whatever batches and single samples are recorded, and
  however the shards' tasks interleave with them: each shard settles to what the aggregator makes of
  an ordered sublist of the finite samples whose metric name hashes to it, and the finite samples
  missing from these sublists are exactly as many as the collector's counter of lost samples.
\<close>

theorem collector_accounts:
  "\<exists>acc. list_all (\<lambda>i.
        settle X (co_shards (fold (co_step X hash) ops collector_new) ! i) = fold (agg_record X) (acc i) agg_new
        \<and> subseq (acc i) (shard_batch hash (concat (map op_samples ops)) i)) [0..<SHARD_COUNT]
     \<and> co_lost (fold (co_step X hash) ops collector_new) + (\<Sum>i < SHARD_COUNT. length (acc i))
       = length (concat (map op_samples ops))"
proof -
  have "\<exists>acc. delivered X hash acc (concat (map op_samples ops)) (fold (co_step X hash) ops collector_new)"
  proof (induction ops rule: rev_induct)
    case Nil
    show ?case using delivered_new by auto
  next
    case (snoc p ops)
    then show ?case using delivered_step by fastforce
  qed
  then show ?thesis by (auto simp: delivered_def list_all_iff)
qed

end
