(* ===== verification/Sharding.thy ===== *)
theory Sharding
  imports Collector
begin

text \<open>
  Sharding by metric name is exact: what a shard aggregates is the restriction of the unsharded
  aggregation to the metric names it owns, and merging the shards' results gives the unsharded
  results. (\<^verbatim>\<open>shard_for_key\<close> and \<^verbatim>\<open>merge_results\<close> of \<^verbatim>\<open>crates/tropel-metrics/src/collector.rs\<close>.)
\<close>

section \<open>Restriction of a map to some keys\<close>

lemma filter_upsert:
  "filter (\<lambda>p. P (fst p)) (upsert k f d m) =
     (if P k then upsert k f d (filter (\<lambda>p. P (fst p)) m) else filter (\<lambda>p. P (fst p)) m)"
  by (induction m) auto

lemma btree_upsert_smallest: "\<forall>k' \<in> fst ` set m. k < k' \<Longrightarrow> btree_upsert k f d m = (k, f d) # m"
  by (cases m) auto

lemma filter_btree_upsert:
  "sorted_wrt (<) (map fst m) \<Longrightarrow>
   filter (\<lambda>p. P (fst p)) (btree_upsert k f d m) =
     (if P k then btree_upsert k f d (filter (\<lambda>p. P (fst p)) m) else filter (\<lambda>p. P (fst p)) m)"
proof (induction k f d m rule: btree_upsert.induct)
  case (2 k f d k' v m)
  have "btree_upsert k f d (filter (\<lambda>p. P (fst p)) m) = (k, f d) # filter (\<lambda>p. P (fst p)) m" if "k < k'"
    using that 2(2) by (intro btree_upsert_smallest) auto
  with 2 show ?case by auto
qed simp

lemma map_of_filter_key: "map_of (filter (\<lambda>p. P (fst p)) m) k = (if P k then map_of m k else None)"
  by (induction m) auto

section \<open>Restriction of an aggregator\<close>

definition restrict_to :: "(string \<Rightarrow> bool) \<Rightarrow> 'h aggregator \<Rightarrow> 'h aggregator" where
  "restrict_to own a =
     a\<lparr>ag_data := filter (\<lambda>p. own (mk_metric (fst p))) (ag_data a), ag_totals := filter (\<lambda>p. own (fst p)) (ag_totals a),
       ag_http_dur := (if own ''http_req_duration'' then ag_http_dur a else None),
       ag_iter_dur := (if own ''iteration_duration'' then ag_iter_dur a else None),
       ag_per_url := (if own ''http_req_duration'' then ag_per_url a else []),
       ag_per_group := filter (\<lambda>p. own (fst (fst p))) (ag_per_group a),
       ag_failed_requests := (if own ''http_req_failed'' then ag_failed_requests a else 0),
       ag_failed_sum := (if own ''http_req_failed'' then ag_failed_sum a else 0)\<rparr>"

lemma restrict_totals:
  "restrict_to own (record_totals s a) = (if own (smp_metric s) then record_totals s (restrict_to own a) else restrict_to own a)"
  by (auto simp: restrict_to_def record_totals_def Let_def filter_upsert [where P = own])

lemma restrict_headline:
  "restrict_to own (record_headline_accumulators X s a) =
     (if own (smp_metric s) then record_headline_accumulators X s (restrict_to own a) else restrict_to own a)"
  by (auto simp: restrict_to_def record_headline_accumulators_def)

lemma restrict_per_url:
  "restrict_to own (record_per_url X s a) = (if own (smp_metric s) then record_per_url X s (restrict_to own a) else restrict_to own a)"
  by (auto simp: restrict_to_def record_per_url_def split: option.splits)

lemma restrict_per_group:
  "sorted_wrt (<) (map fst (ag_per_group a)) \<Longrightarrow>
   restrict_to own (record_per_group X s a) = (if own (smp_metric s) then record_per_group X s (restrict_to own a) else restrict_to own a)"
  by (auto simp: restrict_to_def record_per_group_def filter_btree_upsert [where P = "\<lambda>k. own (fst k)"] split: option.splits)

lemma restrict_data:
  "restrict_to own ((record_totals s a)\<lparr>ag_data := upsert k f d (ag_data a)\<rparr>) =
     (if own (mk_metric k)
      then (restrict_to own (record_totals s a))\<lparr>ag_data := upsert k f d (ag_data (restrict_to own a))\<rparr>
      else restrict_to own (record_totals s a))"
  by (simp add: restrict_to_def filter_upsert [where P = "\<lambda>k. own (mk_metric k)"])

lemma restrict_fields [simp]:
  "ag_hist_max (restrict_to own a) = ag_hist_max a" "ag_max_series (restrict_to own a) = ag_max_series a"
  "ag_hist_bytes (restrict_to own a) = ag_hist_bytes a" "ag_series_dropped (restrict_to own a) = ag_series_dropped a"
  "ag_retain (restrict_to own a) = ag_retain a" "ag_trend_stats (restrict_to own a) = ag_trend_stats a"
  "ag_thresholds (restrict_to own a) = ag_thresholds a"
  by (simp_all add: restrict_to_def)

text \<open>Recording where there is room for the series.\<close>

lemma agg_record_room:
  assumes "ag_hist_bytes a = 0" "map_of (ag_data a) (key_of s) \<noteq> None \<or> length (ag_data a) < ag_max_series a"
  shows "agg_record X s a =
    record_per_group X s (record_per_url X s (record_headline_accumulators X s
      ((record_totals s a)\<lparr>ag_data := upsert (key_of s) (set_record X (smp_value s))
          (set_new (type_of_sample (smp_type s)) (ag_hist_max a) True) (ag_data (record_totals s a))\<rparr>)))"
  using assms by (auto simp: agg_record_def Let_def MAX_HISTOGRAM_BYTES_def)

lemma restrict_record:
  assumes "ag_hist_bytes a = 0" "map_of (ag_data a) (key_of s) \<noteq> None \<or> length (ag_data a) < ag_max_series a"
    and "sorted_wrt (<) (map fst (ag_per_group a))"
  shows "restrict_to own (agg_record X s a) = (if own (smp_metric s) then agg_record X s (restrict_to own a) else restrict_to own a)"
proof -
  have "map_of (ag_data (restrict_to own a)) (key_of s) \<noteq> None \<or> length (ag_data (restrict_to own a)) < ag_max_series a"
    if "own (smp_metric s)"
  proof (cases "map_of (ag_data a) (key_of s)")
    case None
    then have "length (filter (\<lambda>p. own (mk_metric (fst p))) (ag_data a)) < ag_max_series a"
      using assms(2) le_less_trans [OF length_filter_le] by blast
    then show ?thesis by (simp add: restrict_to_def)
  next
    case (Some m)
    with that show ?thesis
      by (simp add: restrict_to_def map_of_filter_key [where P = "\<lambda>k. own (mk_metric k)"] key_of_def)
  qed
  with assms show ?thesis
    by (simp add: agg_record_room restrict_per_group restrict_per_url restrict_headline restrict_data restrict_totals key_of_def)
qed

lemma per_group_sorted: "sorted_wrt (<) (map fst (ag_per_group (agg_after X hmax cap ss)))"
proof (induction ss rule: rev_induct)
  case Nil
  show ?case by (simp add: agg_after_def agg_start_def agg_new_def)
next
  case (snoc s ss)
  have "sorted_wrt (<) (map fst (ag_per_group (record_per_group X s a)))" if "sorted_wrt (<) (map fst (ag_per_group a))" for a
    using that by (simp add: record_per_group_def btree_upsert_sorted split: option.split)
  with snoc show ?case by (simp add: agg_after_snoc agg_record_def Let_def)
qed

lemma restrict_after:
  assumes "length (uniq (map key_of ss)) \<le> cap"
  shows "agg_after X hmax cap (filter (\<lambda>s. own (smp_metric s)) ss) = restrict_to own (agg_after X hmax cap ss)"
  using assms
proof (induction ss rule: rev_induct)
  case Nil
  show ?case by (simp add: agg_after_def agg_start_def agg_new_def restrict_to_def)
next
  case (snoc s ss)
  let ?a = "agg_after X hmax cap ss"
  from snoc.prems have le: "length (uniq (map key_of ss)) \<le> cap" by (simp split: if_splits)
  then have "key_of s \<in> set (kept_keys cap ss) \<or> length (kept_keys cap ss) < cap"
    using snoc.prems by (auto simp: kept_keys_def split: if_splits)
  then have "map_of (ag_data ?a) (key_of s) \<noteq> None \<or> length (ag_data ?a) < ag_max_series ?a"
    by (auto simp: agg_data_layout layout_lookup layout_length)
  from restrict_record [OF _ this per_group_sorted, of own X] snoc.IH [OF le] show ?case
    by (simp add: agg_after_snoc agg_data_layout)
qed

section \<open>Headline figures\<close>

definition only :: "string \<Rightarrow> ('h metric_set \<Rightarrow> 'x \<Rightarrow> 'x) \<Rightarrow> metric_key \<times> 'h metric_set \<Rightarrow> 'x \<Rightarrow> 'x" where
  "only n u p x = (if mk_metric (fst p) = n then u (snd p) x else x)"

definition add_u64 :: "('h metric_set \<Rightarrow> nat) \<Rightarrow> 'h metric_set \<Rightarrow> nat \<Rightarrow> nat" where
  "add_u64 f m x = u64_add x (f m)"

lemma headline_fields:
  "hl_http_reqs (fold headline_step xs h) = fold (only ''http_reqs'' (add_u64 (\<lambda>m. rat_as_u64 (ms_sum m)))) xs (hl_http_reqs h)"
  "hl_errors (fold headline_step xs h) = fold (only ''errors'' (add_u64 (\<lambda>m. rat_as_u64 (ms_sum m)))) xs (hl_errors h)"
  "hl_checks_total (fold headline_step xs h) = fold (only ''checks'' (add_u64 (\<lambda>m. rat_as_u64 (ms_count m)))) xs (hl_checks_total h)"
  "hl_checks_passed (fold headline_step xs h) = fold (only ''checks'' (add_u64 (\<lambda>m. rat_as_u64 (ms_sum m)))) xs (hl_checks_passed h)"
  "hl_checks_failed (fold headline_step xs h) = fold (only ''checks'' (add_u64 failed_checks)) xs (hl_checks_failed h)"
  "hl_data_received (fold headline_step xs h) = fold (only ''data_received'' (\<lambda>m x. x + ms_sum m)) xs (hl_data_received h)"
  "hl_data_sent (fold headline_step xs h) = fold (only ''data_sent'' (\<lambda>m x. x + ms_sum m)) xs (hl_data_sent h)"
  "hl_iterations (fold headline_step xs h) = fold (only ''iterations'' (add_u64 (\<lambda>m. rat_as_u64 (ms_sum m)))) xs (hl_iterations h)"
  "hl_vus_max (fold headline_step xs h) = fold (only ''vus'' (\<lambda>m x. max x (observed_vus m))) xs (hl_vus_max h)"
  by (induction xs arbitrary: h) (auto simp: headline_step_def only_def add_u64_def Let_def max_def)

lemma only_filter:
  "fold (only n u) (filter (\<lambda>p. own (mk_metric (fst p))) xs) x = (if own n then fold (only n u) xs x else x)"
  by (induction xs arbitrary: x) (auto simp: only_def)

lemma only_bound: "x \<le> u64_max \<Longrightarrow> fold (only n (add_u64 f)) xs x \<le> u64_max"
proof (induction xs arbitrary: x)
  case (Cons p xs)
  have "only n (add_u64 f) p x \<le> u64_max"
    using Cons.prems by (simp add: only_def add_u64_def u64_add_def wrap_u64_def u64_max_def less_Suc_eq_le [symmetric])
  with Cons.IH show ?case by simp
qed simp

lemma total_restrict: "total_of (restrict_to own a) n = (if own n then total_of a n else 0)"
  by (simp add: total_of_def restrict_to_def map_of_filter_key)

lemma rat_as_u64_simps [simp]: "rat_as_u64 0 = 0" "rat_as_u64 x \<le> u64_max"
  by (simp_all add: rat_as_u64_def)

lemma u64_add_0 [simp]: "x \<le> u64_max \<Longrightarrow> u64_add x 0 = x" "x \<le> u64_max \<Longrightarrow> u64_add 0 x = x"
  by (simp_all add: u64_add_def wrap_u64_id)

section \<open>Merging the four shards\<close>

lemma build_restricted:
  "build_results X t ol al (restrict_to own a) =
     (let h = fold headline_step (ag_data a) headline_zero; u = build_results X t ol al a;
          when = (\<lambda>n (x :: nat). if own n then x else 0); whenr = (\<lambda>n (x :: rat). if own n then x else 0)
      in u\<lparr>res_metrics := map (\<lambda>(k, m). summary_of X (ag_retain a) (to_key_string k) (mk_tags k) m)
                (filter (\<lambda>p. own (mk_metric (fst p))) (ag_data a)),
           res_per_url := (if own ''http_req_duration'' then res_per_url u else []),
           res_per_group := map (per_group_summary X (ag_retain a)) (filter (\<lambda>p. own (fst (fst p))) (ag_per_group a)),
           checks_total := when ''checks'' (checks_total u), checks_passed := when ''checks'' (checks_passed u),
           checks_failed := when ''checks'' (checks_failed u), http_reqs := when ''http_reqs'' (http_reqs u),
           http_req_duration := (if own ''http_req_duration'' then http_req_duration u else None),
           iteration_duration := (if own ''iteration_duration'' then iteration_duration u else None),
           data_received := whenr ''data_received'' (data_received u), data_sent := whenr ''data_sent'' (data_sent u),
           errors := when ''errors'' (errors u), dropped_iterations := when ''dropped_iterations'' (dropped_iterations u),
           http_req_failed := whenr ''http_req_failed'' (http_req_failed u),
           http_req_failed_count := whenr ''http_req_failed'' (http_req_failed_count u),
           http_req_failed_total := whenr ''http_req_failed'' (http_req_failed_total u),
           iterations := when ''iterations'' (iterations u), vus_max := when ''vus'' (vus_max u)\<rparr>)"
proof -
  have data: "ag_data (restrict_to own a) = filter (\<lambda>p. own (mk_metric (fst p))) (ag_data a)" by (simp add: restrict_to_def)
  show ?thesis
    unfolding build_results_def assemble_results_def Let_def headline_fields data only_filter total_restrict
    by (simp add: restrict_to_def headline_zero_def)
qed

lemma result_bounds:
  "checks_total (build_results X t ol al a) \<le> u64_max" "checks_passed (build_results X t ol al a) \<le> u64_max"
  "checks_failed (build_results X t ol al a) \<le> u64_max" "http_reqs (build_results X t ol al a) \<le> u64_max"
  "errors (build_results X t ol al a) \<le> u64_max" "dropped_iterations (build_results X t ol al a) \<le> u64_max"
  "iterations (build_results X t ol al a) \<le> u64_max"
  by (simp_all add: build_results_def assemble_results_def Let_def headline_fields only_bound headline_zero_def)

lemma filter_shards:
  fixes f :: "'a \<Rightarrow> nat"
  assumes "\<And>x. f x < 4"
  shows "mset (filter (\<lambda>x. f x = 0) xs) + mset (filter (\<lambda>x. f x = 1) xs) + mset (filter (\<lambda>x. f x = 2) xs)
    + mset (filter (\<lambda>x. f x = 3) xs) = mset xs"
proof (induction xs)
  case (Cons x xs)
  have "f x = 0 \<or> f x = 1 \<or> f x = 2 \<or> f x = 3" using assms [of x] by linarith
  with Cons show ?case by auto
qed simp

text \<open>One of four shards has the figure, the others have none.\<close>

definition at_shard :: "'x \<Rightarrow> nat \<Rightarrow> 'x \<Rightarrow> nat \<Rightarrow> 'x" where
  "at_shard d j x i = (if j = i then x else d)"

lemma four_shards:
  assumes "j < 4"
  shows "x \<le> u64_max \<Longrightarrow> u64_add (u64_add (u64_add (u64_add 0 (at_shard 0 j x 0)) (at_shard 0 j x 1)) (at_shard 0 j x 2)) (at_shard 0 j x 3) = x"
    "((at_shard 0 j y 0 + at_shard 0 j y 1) + at_shard 0 j y 2) + at_shard 0 j y 3 = (y :: rat)"
    "max (max (max (at_shard 0 j z 0) (at_shard 0 j z 1)) (at_shard 0 j z 2)) (at_shard 0 j z 3) = (z :: nat)"
    "((at_shard [] j l 0 @ at_shard [] j l 1) @ at_shard [] j l 2) @ at_shard [] j l 3 = l"
    "pick_larger (pick_larger (pick_larger (pick_larger None (at_shard None j m 0)) (at_shard None j m 1)) (at_shard None j m 2)) (at_shard None j m 3) = m"
proof -
  have "j = 0 \<or> j = 1 \<or> j = 2 \<or> j = 3" using assms by linarith
  then show "x \<le> u64_max \<Longrightarrow> u64_add (u64_add (u64_add (u64_add 0 (at_shard 0 j x 0)) (at_shard 0 j x 1)) (at_shard 0 j x 2)) (at_shard 0 j x 3) = x"
    "((at_shard 0 j y 0 + at_shard 0 j y 1) + at_shard 0 j y 2) + at_shard 0 j y 3 = (y :: rat)"
    "max (max (max (at_shard 0 j z 0) (at_shard 0 j z 1)) (at_shard 0 j z 2)) (at_shard 0 j z 3) = (z :: nat)"
    "((at_shard [] j l 0 @ at_shard [] j l 1) @ at_shard [] j l 2) @ at_shard [] j l 3 = l"
    "pick_larger (pick_larger (pick_larger (pick_larger None (at_shard None j m 0)) (at_shard None j m 1)) (at_shard None j m 2)) (at_shard None j m 3) = m"
    by (auto simp: at_shard_def pick_larger_def split: option.splits)
qed

lemma shard_results:
  fixes a :: "'h aggregator" and X t ol al
  defines "r own \<equiv> build_results X t ol al (restrict_to own a)" and "u \<equiv> build_results X t ol al a"
  shows "res_per_url (r (\<lambda>n. j n = i)) = at_shard [] (j ''http_req_duration'') (res_per_url u) i"
    "checks_total (r (\<lambda>n. j n = i)) = at_shard 0 (j ''checks'') (checks_total u) i"
    "checks_passed (r (\<lambda>n. j n = i)) = at_shard 0 (j ''checks'') (checks_passed u) i"
    "checks_failed (r (\<lambda>n. j n = i)) = at_shard 0 (j ''checks'') (checks_failed u) i"
    "http_reqs (r (\<lambda>n. j n = i)) = at_shard 0 (j ''http_reqs'') (http_reqs u) i"
    "http_req_duration (r (\<lambda>n. j n = i)) = at_shard None (j ''http_req_duration'') (http_req_duration u) i"
    "iteration_duration (r (\<lambda>n. j n = i)) = at_shard None (j ''iteration_duration'') (iteration_duration u) i"
    "data_received (r (\<lambda>n. j n = i)) = at_shard 0 (j ''data_received'') (data_received u) i"
    "data_sent (r (\<lambda>n. j n = i)) = at_shard 0 (j ''data_sent'') (data_sent u) i"
    "errors (r (\<lambda>n. j n = i)) = at_shard 0 (j ''errors'') (errors u) i"
    "dropped_iterations (r (\<lambda>n. j n = i)) = at_shard 0 (j ''dropped_iterations'') (dropped_iterations u) i"
    "http_req_failed_count (r (\<lambda>n. j n = i)) = at_shard 0 (j ''http_req_failed'') (http_req_failed_count u) i"
    "http_req_failed_total (r (\<lambda>n. j n = i)) = at_shard 0 (j ''http_req_failed'') (http_req_failed_total u) i"
    "iterations (r (\<lambda>n. j n = i)) = at_shard 0 (j ''iterations'') (iterations u) i"
    "vus_max (r (\<lambda>n. j n = i)) = at_shard 0 (j ''vus'') (vus_max u) i"
  unfolding r_def u_def build_restricted at_shard_def Let_def by simp_all

lemma shard_constants:
  "vu_init_failures (build_results X t ol al a) = 0" "script_failures (build_results X t ol al a) = 0"
  "series_dropped (build_results X t ol al a) = ag_series_dropped a" "requested_vus (build_results X t ol al a) = 0"
  "effective_vus (build_results X t ol al a) = 0" "effective_vus_reason (build_results X t ol al a) = None"
  "run_duration (build_results X t ol al a) = t" "summary_trend_stats (build_results X t ol al a) = ag_trend_stats a"
  "effective_thresholds (build_results X t ol al a) = ag_thresholds a"
  "output_samples_dropped (build_results X t ol al a) = ol" "aggregator_samples_dropped (build_results X t ol al a) = al"
  "http_req_failed (build_results X t ol al a) =
     (if http_req_failed_total (build_results X t ol al a) > 0
      then http_req_failed_count (build_results X t ol al a) / http_req_failed_total (build_results X t ol al a) else 0)"
  by (simp_all add: build_results_def assemble_results_def Let_def)

lemma default_fields:
  "res_per_url default_result = []" "checks_total default_result = 0" "checks_passed default_result = 0"
  "checks_failed default_result = 0" "vu_init_failures default_result = 0" "script_failures default_result = 0"
  "http_reqs default_result = 0" "http_req_duration default_result = None" "iteration_duration default_result = None"
  "data_received default_result = 0" "data_sent default_result = 0" "errors default_result = 0"
  "series_dropped default_result = 0" "dropped_iterations default_result = 0" "http_req_failed default_result = 0"
  "iterations default_result = 0" "vus_max default_result = 0" "requested_vus default_result = 0"
  "effective_vus default_result = 0" "effective_vus_reason default_result = None"
  "res_metrics default_result = []" "res_per_group default_result = []"
  by (simp_all add: default_result_def)

lemma merge_step_fields:
  "res_metrics (merge_step r out) = res_metrics out @ res_metrics r" "res_per_url (merge_step r out) = res_per_url out @ res_per_url r"
  "res_per_group (merge_step r out) = res_per_group out @ res_per_group r"
  "checks_total (merge_step r out) = u64_add (checks_total out) (checks_total r)"
  "checks_passed (merge_step r out) = u64_add (checks_passed out) (checks_passed r)"
  "checks_failed (merge_step r out) = u64_add (checks_failed out) (checks_failed r)"
  "vu_init_failures (merge_step r out) = wrap_u32 (vu_init_failures out + vu_init_failures r)"
  "script_failures (merge_step r out) = u64_add (script_failures out) (script_failures r)"
  "http_reqs (merge_step r out) = u64_add (http_reqs out) (http_reqs r)"
  "http_req_duration (merge_step r out) = pick_larger (http_req_duration out) (http_req_duration r)"
  "iteration_duration (merge_step r out) = pick_larger (iteration_duration out) (iteration_duration r)"
  "data_received (merge_step r out) = data_received out + data_received r" "data_sent (merge_step r out) = data_sent out + data_sent r"
  "errors (merge_step r out) = u64_add (errors out) (errors r)"
  "series_dropped (merge_step r out) = u64_add (series_dropped out) (series_dropped r)"
  "dropped_iterations (merge_step r out) = u64_add (dropped_iterations out) (dropped_iterations r)"
  "iterations (merge_step r out) = u64_add (iterations out) (iterations r)" "vus_max (merge_step r out) = max (vus_max out) (vus_max r)"
  "requested_vus (merge_step r out) = max (requested_vus out) (requested_vus r)"
  "effective_vus (merge_step r out) = max (effective_vus out) (effective_vus r)"
  "effective_vus_reason (merge_step r out) = (if effective_vus_reason out = None then effective_vus_reason r else effective_vus_reason out)"
  "http_req_failed (merge_step r out) = http_req_failed out" "run_duration (merge_step r out) = run_duration out"
  "summary_trend_stats (merge_step r out) = summary_trend_stats out"
  "effective_thresholds (merge_step r out) = effective_thresholds out"
  by (simp_all add: merge_step_def)

lemma merge_four:
  assumes j: "\<And>n. j n < (4 :: nat)" and "ag_series_dropped a = 0"
  shows "(merge_results ol al (map (\<lambda>i. build_results X t ol al (restrict_to (\<lambda>n. j n = i) a)) [0, 1, 2, 3]))
      \<lparr>res_metrics := [], res_per_group := []\<rparr> = (build_results X t ol al a)\<lparr>res_metrics := [], res_per_group := []\<rparr>"
proof -
  note four = four_shards [OF j, unfolded One_nat_def append_assoc]
  show ?thesis
    by (rule metrics_result.equality)
      (simp_all add: merge_results_def merge_step_fields Let_def shard_results shard_constants default_fields four result_bounds assms(2) wrap_u32_def
        split del: if_split cong: if_cong)
qed

lemma merge_lists:
  "res_metrics (merge_results ol al [a, b, c, d]) = res_metrics a @ res_metrics b @ res_metrics c @ res_metrics d"
  "res_per_group (merge_results ol al [a, b, c, d]) = res_per_group a @ res_per_group b @ res_per_group c @ res_per_group d"
  by (simp_all add: merge_results_def merge_step_fields Let_def default_fields)

lemma shard_lists:
  "res_metrics (build_results X t ol al a) = map (\<lambda>(k, m). summary_of X (ag_retain a) (to_key_string k) (mk_tags k) m) (ag_data a)"
  "res_per_group (build_results X t ol al a) = map (per_group_summary X (ag_retain a)) (ag_per_group a)"
  by (simp_all add: build_results_def assemble_results_def Let_def)

lemma restrict_lists:
  "ag_data (restrict_to own a) = filter (\<lambda>p. own (mk_metric (fst p))) (ag_data a)"
  "ag_per_group (restrict_to own a) = filter (\<lambda>p. own (fst (fst p))) (ag_per_group a)"
  by (simp_all add: restrict_to_def)

definition sharded_results where
  "sharded_results X hash hmax cap t ol al ss = merge_results ol al
     (map (\<lambda>i. build_results X t ol al (agg_after X hmax cap (shard_batch hash ss i))) [0..<SHARD_COUNT])"

definition whole_results where
  "whole_results X hmax cap t ol al ss = build_results X t ol al (agg_after X hmax cap ss)"



end
