(* ===== verification/Threshold_Eval.thy ===== *)
theory Threshold_Eval
  imports Metric_Result
begin

text \<open>
  Evaluation of thresholds against results, \<^verbatim>\<open>crates/tropel-metrics/src/thresholds.rs\<close>: the value a
  clause reads, compound expressions, the final verdicts and the abort check.

  Durations are nanoseconds. \<^verbatim>\<open>tropel_sdk::parse_duration\<close> is not part of the sources: it is the
  parameter \<open>pd\<close>. The parse cache is left out, since it returns what parsing returns.
\<close>

section \<open>Values\<close>

definition metric_base_name :: "string \<Rightarrow> string" where
  "metric_base_name key = (case find_char CHR ''{'' key of Some i \<Rightarrow> take i key | None \<Rightarrow> key)"

definition series_supports_percentile :: "'h metric_summary \<Rightarrow> string \<Rightarrow> bool" where
  "series_supports_percentile m stat =
     (if stat = ''min'' \<or> stat = ''max'' then sum_type m = MTrend \<or> sum_type m = MGauge else sum_type m = MTrend)"

definition distribution_stats :: "string list" where
  "distribution_stats = [''min'', ''max'', ''p50'', ''median'', ''med'', ''p90'', ''p95'', ''p99'']"

definition percentile_guard_fails :: "'h metric_summary list \<Rightarrow> string option \<Rightarrow> bool" where
  "percentile_guard_fails matched stat =
     (case stat of
        None \<Rightarrow> False
      | Some s \<Rightarrow>
          (s \<in> set distribution_stats \<or> parse_percentile s \<noteq> None) \<and> \<not> list_all (\<lambda>m. series_supports_percentile m s) matched)"

definition f64_maximum :: "f64 \<Rightarrow> f64 \<Rightarrow> f64" where "f64_maximum a b = (if f64_lt a b then b else a)"
definition f64_minimum :: "f64 \<Rightarrow> f64 \<Rightarrow> f64" where "f64_minimum a b = (if f64_lt b a then b else a)"

definition worst :: "rat list \<Rightarrow> f64" where "worst vs = fold (\<lambda>v a. f64_maximum a (Fin v)) vs NegInf"
definition least :: "rat list \<Rightarrow> f64" where "least vs = fold (\<lambda>v a. f64_minimum a (Fin v)) vs (Fin f64_max)"

definition secs :: "'h metrics_result \<Rightarrow> rat" where
  "secs r = of_nat (run_duration r) / 1000000000"

definition per_second :: "'h metrics_result \<Rightarrow> rat \<Rightarrow> rat" where
  "per_second r x = (if secs r > 0 then x / secs r else 0)"

definition counter_rate :: "'h metrics_result \<Rightarrow> 'h metric_summary list \<Rightarrow> rat" where
  "counter_rate r matched = per_second r (\<Sum>m \<leftarrow> matched. of_nat (sum_count m))"

definition merged_percentile :: "'h hdr \<Rightarrow> 'h metric_summary list \<Rightarrow> f64 \<Rightarrow> f64" where
  "merged_percentile X matched pct =
     (if matched \<noteq> [] \<and> list_all (\<lambda>m. sum_type m = MTrend \<and> sum_hist m \<noteq> None) matched
      then Fin (lh_percentile X (fold (\<lambda>m h. case sum_hist m of Some k \<Rightarrow> lh_merge X h k | None \<Rightarrow> h) matched (lh_new X)) pct)
      else worst (map (\<lambda>m. percentile_value X m pct) matched))"

definition matches :: "string \<Rightarrow> (string \<times> string) list \<Rightarrow> 'h metric_summary \<Rightarrow> bool" where
  "matches n filters m \<longleftrightarrow> metric_base_name (sum_key m) = n \<and> list_all (\<lambda>f. f \<in> set (sum_tags m)) filters"

definition pooled_mean :: "'h metrics_result \<Rightarrow> 'h metric_summary list \<Rightarrow> rat" where
  "pooled_mean r matched =
     (if list_all (\<lambda>m. sum_type m = MCounter) matched then counter_rate r matched
      else (let s = (\<Sum>m \<leftarrow> matched. sum_sum m); n = (\<Sum>m \<leftarrow> matched. of_nat (sum_count m))
            in if n > 0 then s / n else 0))"

definition aggregate_matches ::
  "'h hdr \<Rightarrow> 'h metrics_result \<Rightarrow> string \<Rightarrow> (string \<times> string) list \<Rightarrow> string option \<Rightarrow> f64 option" where
  "aggregate_matches X r n filters stat =
     (let matched = filter (matches n filters) (res_metrics r) in
      if matched = [] \<or> percentile_guard_fails matched stat then None
      else (case stat of
              None \<Rightarrow> Some (worst (map sum_mean matched))
            | Some s \<Rightarrow>
                if s = ''avg'' then Some (Fin (pooled_mean r matched))
                else if s = ''min'' then Some (least (map sum_min matched))
                else if s = ''max'' then Some (worst (map sum_max matched))
                else if s = ''p50'' \<or> s = ''median'' \<or> s = ''med'' then Some (merged_percentile X matched (Fin 50))
                else if s = ''p90'' then Some (merged_percentile X matched (Fin 90))
                else if s = ''p95'' then Some (merged_percentile X matched (Fin 95))
                else if s = ''p99'' then Some (merged_percentile X matched (Fin 99))
                else (case parse_percentile s of
                        Some pct \<Rightarrow> Some (merged_percentile X matched pct)
                      | None \<Rightarrow>
                          if s = ''count'' then Some (Fin (\<Sum>m \<leftarrow> matched. of_nat (sum_count m)))
                          else if s = ''rate'' then Some (Fin (pooled_mean r matched))
                          else if s = ''sum'' then Some (Fin (\<Sum>m \<leftarrow> matched. sum_sum m))
                          else if s = ''value'' \<or> s = ''last''
                          then (if list_all (\<lambda>m. sum_type m = MTrend \<or> sum_type m = MGauge) matched
                                then Some (worst (map sum_last matched)) else None)
                          else None)))"

definition duration_value :: "'h hdr \<Rightarrow> 'h metric_summary \<Rightarrow> string option \<Rightarrow> rat option" where
  "duration_value X d stat =
     (case stat of
        None \<Rightarrow> Some (sum_mean d)
      | Some s \<Rightarrow>
          if s = ''avg'' then Some (sum_mean d)
          else if s = ''min'' then Some (sum_min d)
          else if s = ''max'' then Some (sum_max d)
          else if s = ''p50'' \<or> s = ''median'' \<or> s = ''med'' then Some (sum_p50 d)
          else if s = ''p90'' then Some (sum_p90 d)
          else if s = ''p95'' then Some (sum_p95 d)
          else if s = ''p99'' then Some (sum_p99 d)
          else if s = ''count'' then Some (of_nat (sum_count d))
          else if s = ''value'' \<or> s = ''last'' then Some (sum_last d)
          else if s = ''sum'' then Some (sum_sum d)
          else if s = ''rate'' then Some (if sum_count d > 0 then sum_sum d / of_nat (sum_count d) else 0)
          else map_option (percentile_value X d) (parse_percentile s))"

definition checks_value :: "'h metrics_result \<Rightarrow> string option \<Rightarrow> rat option" where
  "checks_value r stat =
     (case stat of
        None \<Rightarrow> Some (of_nat (checks_total r))
      | Some s \<Rightarrow>
          if s = ''passed'' then Some (of_nat (checks_passed r))
          else if s = ''failed'' then Some (of_nat (checks_failed r))
          else if s = ''rate'' \<or> s = ''pass_rate''
          then Some (if checks_total r > 0 then of_nat (checks_passed r) / of_nat (checks_total r) else 0)
          else if s = ''count'' then Some (of_nat (checks_total r))
          else None)"

definition counter_value :: "'h metrics_result \<Rightarrow> rat \<Rightarrow> string option \<Rightarrow> rat option" where
  "counter_value r tot stat =
     (if stat = Some ''rate'' \<or> stat = Some ''avg'' then Some (per_second r tot)
      else if stat = Some ''count'' \<or> stat = None then Some tot
      else None)"

definition get_metric_value :: "'h hdr \<Rightarrow> 'h metrics_result \<Rightarrow> string \<Rightarrow> string option \<Rightarrow> f64 option" where
  "get_metric_value X r n stat =
     (if n = ''http_reqs'' then map_option Fin (counter_value r (of_nat (http_reqs r)) stat)
      else if n = ''errors''
      then (case aggregate_matches X r ''errors'' [] stat of
              Some v \<Rightarrow> Some v
            | None \<Rightarrow> map_option Fin (counter_value r (of_nat (errors r)) stat))
      else if n = ''checks'' \<or> n = ''checks.total'' then map_option Fin (checks_value r stat)
      else if n = ''http_req_duration''
      then (case http_req_duration r of None \<Rightarrow> None | Some d \<Rightarrow> map_option Fin (duration_value X d stat))
      else if n = ''http_req_failed''
      then (if stat \<in> {None, Some ''rate'', Some ''avg'', Some ''value'', Some ''last''} then Some (Fin (http_req_failed r)) else None)
      else if n = ''data_received'' \<or> n = ''data_sent''
      then (let tot = (if n = ''data_received'' then data_received r else data_sent r) in
            if stat \<in> {None, Some ''count'', Some ''sum''} then Some (Fin tot)
            else if stat \<in> {Some ''rate'', Some ''avg''} then Some (Fin (per_second r tot))
            else None)
      else aggregate_matches X r n [] stat)"

section \<open>Evaluation\<close>

type_synonym verdict = "(bool \<times> f64 \<times> f64) option"

definition compare_values :: "string \<Rightarrow> f64 \<Rightarrow> f64 \<Rightarrow> bool option" where
  "compare_values op a t =
     (if op = ''<'' then Some (f64_lt a t)
      else if op = ''<='' then Some (f64_le a t)
      else if op = ''>'' then Some (f64_lt t a)
      else if op = ''>='' then Some (f64_le t a)
      else if op = ''=='' \<or> op = ''==='' then Some (f64_lt (f64_abs (f64_sub a t)) (Fin f64_epsilon))
      else if op = ''!='' then Some (f64_lt (Fin f64_epsilon) (f64_abs (f64_sub a t)))
      else None)"

definition evaluate_clause ::
  "'h hdr \<Rightarrow> 'h metrics_result \<Rightarrow> string \<Rightarrow> f64 \<Rightarrow> string \<Rightarrow> (string \<times> string) list \<Rightarrow> string option \<Rightarrow> verdict" where
  "evaluate_clause X r op threshold nm filters stat =
     (if op = [] then Some (False, Fin 0, Fin 0)
      else (case (if filters \<noteq> [] then aggregate_matches X r nm filters stat else get_metric_value X r nm stat) of
              None \<Rightarrow> None
            | Some actual \<Rightarrow>
                (case compare_values op actual threshold of
                   Some passed \<Rightarrow> Some (passed, actual, threshold)
                 | None \<Rightarrow> Some (False, Fin 0, threshold))))"

text \<open>The two nested loops over the groups of an expression and the clauses of a group.\<close>

definition clause_step :: "verdict \<Rightarrow> bool \<times> bool \<times> f64 \<times> f64 \<Rightarrow> bool \<times> bool \<times> f64 \<times> f64" where
  "clause_step v g =
     (case (v, g) of
        (Some (p, a, t), (passed, had, pair)) \<Rightarrow> (passed \<and> p, True, a, t)
      | (None, (passed, had, pair)) \<Rightarrow> (False, had, pair))"

definition eval_group :: "verdict list \<Rightarrow> bool \<times> bool \<times> f64 \<times> f64" where
  "eval_group vs = fold clause_step vs (True, False, Fin 0, Fin 0)"

definition group_step :: "verdict list \<Rightarrow> bool \<times> bool \<times> f64 \<times> f64 \<Rightarrow> bool \<times> bool \<times> f64 \<times> f64" where
  "group_step vs acc =
     (case (eval_group vs, acc) of
        ((passed, had, pair), (any_passed, any_data, deciding)) \<Rightarrow>
          (any_passed \<or> passed, any_data \<or> had, if (passed \<or> had) \<and> \<not> any_passed then pair else deciding))"

definition eval_groups :: "verdict list list \<Rightarrow> verdict" where
  "eval_groups gs =
     (case fold group_step gs (False, False, Fin 0, Fin 0) of
        (passed, data, a, t) \<Rightarrow> if data then Some (passed, a, t) else None)"

primrec evaluate :: "'h hdr \<Rightarrow> 'h metrics_result \<Rightarrow> parsed_threshold \<Rightarrow> verdict" where
  "evaluate X r (Compound e gs) = eval_groups (map (map (evaluate X r)) gs)"
| "evaluate X r (Single e op threshold nm filters stat) = evaluate_clause X r op threshold nm filters stat"

definition evaluate_single_threshold_opt :: "'h hdr \<Rightarrow> string \<Rightarrow> 'h metrics_result \<Rightarrow> verdict" where
  "evaluate_single_threshold_opt X e r = evaluate X r (parse_threshold e)"

record threshold_result =
  tr_name :: string
  tr_expression :: string
  tr_passed :: bool
  tr_no_data :: bool
  tr_actual :: f64
  tr_threshold :: f64
  tr_abort_on_fail :: bool
  tr_delay_abort_eval :: "nat option"

definition threshold_verdict ::
  "'h hdr \<Rightarrow> (string \<Rightarrow> nat option) \<Rightarrow> 'h metrics_result \<Rightarrow> string \<times> threshold_config \<Rightarrow> threshold_result" where
  "threshold_verdict X pd r p =
     (let c = snd p; v = evaluate_single_threshold_opt X (th_expression c) r in
      \<lparr>tr_name = fst p, tr_expression = th_expression c,
       tr_passed = (case v of Some (passed, _, _) \<Rightarrow> passed | None \<Rightarrow> False), tr_no_data = (v = None),
       tr_actual = (case v of Some (_, a, _) \<Rightarrow> a | None \<Rightarrow> Fin 0),
       tr_threshold = (case v of Some (_, _, t) \<Rightarrow> t | None \<Rightarrow> Fin 0),
       tr_abort_on_fail = th_abort_on_fail c,
       tr_delay_abort_eval = Option.bind (th_delay_abort_eval c) pd\<rparr>)"

definition evaluate_thresholds ::
  "'h hdr \<Rightarrow> (string \<Rightarrow> nat option) \<Rightarrow> (string \<times> threshold_config) list \<Rightarrow> 'h metrics_result \<Rightarrow> threshold_result list" where
  "evaluate_thresholds X pd ts r = sort_key tr_name (map (threshold_verdict X pd r) ts)"

fun check_abort_on_fail ::
  "'h hdr \<Rightarrow> (string \<Rightarrow> nat option) \<Rightarrow> (string \<times> threshold_config) list \<Rightarrow> 'h metrics_result \<Rightarrow> nat \<Rightarrow> bool" where
  "check_abort_on_fail X pd [] r elapsed = False"
| "check_abort_on_fail X pd ((n, c) # ts) r elapsed =
     (if \<not> th_abort_on_fail c then check_abort_on_fail X pd ts r elapsed
      else if (case Option.bind (th_delay_abort_eval c) pd of Some delay \<Rightarrow> elapsed < delay | None \<Rightarrow> False)
      then check_abort_on_fail X pd ts r elapsed
      else (case evaluate_single_threshold_opt X (th_expression c) r of
              Some (passed, _, _) \<Rightarrow> if \<not> passed then True else check_abort_on_fail X pd ts r elapsed
            | None \<Rightarrow> check_abort_on_fail X pd ts r elapsed))"

section \<open>Compound expressions\<close>

lemma eval_group_snoc: "eval_group (vs @ [v]) = clause_step v (eval_group vs)"
  by (simp add: eval_group_def)

lemma eval_group_verdict:
  "fst (eval_group vs) = list_all (\<lambda>v. \<exists>p. v = Some (True, p)) vs"
  "fst (snd (eval_group vs)) = list_ex (\<lambda>v. v \<noteq> None) vs"
proof (induction vs rule: rev_induct)
  case (snoc v vs)
  show "fst (eval_group (vs @ [v])) = list_all (\<lambda>v. \<exists>p. v = Some (True, p)) (vs @ [v])"
    "fst (snd (eval_group (vs @ [v]))) = list_ex (\<lambda>v. v \<noteq> None) (vs @ [v])"
    using snoc by (auto simp: eval_group_snoc clause_step_def split: option.splits prod.splits)
qed (simp_all add: eval_group_def)

lemma eval_groups_verdict:
  "fst (fold group_step gs acc) = (fst acc \<or> list_ex (\<lambda>vs. fst (eval_group vs)) gs)"
  "fst (snd (fold group_step gs acc)) = (fst (snd acc) \<or> list_ex (\<lambda>vs. fst (snd (eval_group vs))) gs)"
  by (induction gs arbitrary: acc) (auto simp: group_step_def split: prod.splits)

text \<open>
  C28. A compound expression means what it says. It has no verdict exactly when no clause has data;
  otherwise it passes exactly when, in some group between \<^verbatim>\<open>||\<close>, every clause between \<^verbatim>\<open>&&\<close> has data
  and passes. A clause without data never helps an expression to pass, nor does it hide a passing group.
\<close>

theorem compound_semantics:
  "evaluate X r (Compound e gs) =
     (if list_all (list_all (\<lambda>c. evaluate X r c = None)) gs then None
      else Some (list_ex (list_all (\<lambda>c. \<exists>a t. evaluate X r c = Some (True, a, t))) gs,
             snd (snd (fold group_step (map (map (evaluate X r)) gs) (False, False, Fin 0, Fin 0)))))"
proof -
  let ?vs = "map (map (evaluate X r)) gs" and ?z = "(False, False, Fin 0, Fin 0)"
  have "fst (fold group_step ?vs ?z) = list_ex (list_all (\<lambda>c. \<exists>a t. evaluate X r c = Some (True, a, t))) gs"
    by (simp add: eval_groups_verdict eval_group_verdict list_ex_iff list_all_iff)
  moreover have "fst (snd (fold group_step ?vs ?z)) = (\<not> list_all (list_all (\<lambda>c. evaluate X r c = None)) gs)"
    by (simp add: eval_groups_verdict eval_group_verdict list_ex_iff list_all_iff)
  ultimately show ?thesis by (auto simp: eval_groups_def split: prod.splits)
qed

section \<open>Values that are never invented\<close>

definition plain_stats :: "string list" where
  "plain_stats = [''rate'', ''avg'', ''count'', ''passed'', ''failed'', ''pass_rate'', ''value'', ''last'', ''sum'', ''min'', ''max'']"

lemma plain_not_percentile: "parse_percentile s \<noteq> None \<Longrightarrow> s \<notin> set plain_stats"
proof -
  have "list_all (\<lambda>x. parse_percentile x = None) plain_stats" by code_simp
  then show "parse_percentile s \<noteq> None \<Longrightarrow> s \<notin> set plain_stats" by (auto simp: list_all_iff)
qed

lemma aggregate_percentile_trend:
  assumes "aggregate_matches X r n filters (Some s) = Some v" "parse_percentile s \<noteq> None"
  shows "list_all (\<lambda>m. matches n filters m \<longrightarrow> sum_type m = MTrend) (res_metrics r)"
proof -
  have "s \<noteq> ''min'' \<and> s \<noteq> ''max''" using plain_not_percentile [OF assms(2)] by (simp add: plain_stats_def)
  with assms show ?thesis
    by (auto simp: aggregate_matches_def Let_def percentile_guard_fails_def series_supports_percentile_def list_all_iff
        split: if_splits)
qed

text \<open>
  A percentile is only ever read from a distribution. If a clause with a percentile statistic has
  a verdict from a known operator, then either it is about the request duration headline (or the
  unscoped \<^verbatim>\<open>errors\<close> family, whose series are then trends) or every series it matches is a trend: the
  zeros that counters, rates and gauges report as percentiles cannot let a threshold pass.
\<close>

theorem percentile_needs_trend:
  assumes "evaluate_clause X r op t n filters (Some s) = Some (passed, a, t')" "op \<noteq> []" "parse_percentile s \<noteq> None"
    and "filters \<noteq> [] \<or> n \<noteq> ''http_req_duration''"
  shows "list_all (\<lambda>m. matches n filters m \<longrightarrow> sum_type m = MTrend) (res_metrics r)"
proof (cases "filters = []")
  case False
  with assms obtain v where "aggregate_matches X r n filters (Some s) = Some v"
    by (auto simp: evaluate_clause_def split: option.splits)
  with assms(3) show ?thesis by (rule aggregate_percentile_trend [rotated])
next
  case True
  with assms obtain v where v: "get_metric_value X r n (Some s) = Some v"
    by (auto simp: evaluate_clause_def split: option.splits)
  have "s \<notin> set plain_stats" using assms(3) by (rule plain_not_percentile)
  then have "aggregate_matches X r n [] (Some s) = Some v"
    using v assms(4) True
    by (auto simp: plain_stats_def get_metric_value_def counter_value_def checks_value_def Let_def split: if_splits option.splits)
  with assms(3) True show ?thesis using aggregate_percentile_trend by blast
qed

definition series_summary :: "string \<Rightarrow> metric_type \<Rightarrow> nat \<Rightarrow> rat \<Rightarrow> rat \<Rightarrow> 'h metric_summary" where
  "series_summary key t n s p =
     \<lparr>sum_key = key, sum_tags = [], sum_type = t, sum_count = n, sum_sum = s, sum_mean = (if t = MCounter then 1 else s / of_nat n),
      sum_min = 0, sum_max = p, sum_p50 = p, sum_p90 = p, sum_p95 = p, sum_p99 = p, sum_last = 0, sum_rate = 0, sum_hist = None\<rparr>"

definition latency_demo :: "(nat option \<times> nat list) metrics_result" where
  "latency_demo = default_result\<lparr>res_metrics := [series_summary ''latency'' MTrend 4 400 120]\<rparr>"

theorem percentile_needs_trend_witness:
  "evaluate_clause exact_store latency_demo ''<'' (Fin 500) ''latency'' [] (Some ''p(95)'') = Some (True, Fin 120, Fin 500)
   \<and> list_all (\<lambda>m. matches ''latency'' [] m \<longrightarrow> sum_type m = MTrend) (res_metrics latency_demo)"
proof
  show eval: "evaluate_clause exact_store latency_demo ''<'' (Fin 500) ''latency'' [] (Some ''p(95)'') = Some (True, Fin 120, Fin 500)"
    by code_simp
  have "parse_percentile ''p(95)'' \<noteq> None" by code_simp
  from percentile_needs_trend [OF eval _ this]
  show "list_all (\<lambda>m. matches ''latency'' [] m \<longrightarrow> sum_type m = MTrend) (res_metrics latency_demo)" by simp
qed

lemma merged_population:
  assumes laws: "hdr_laws X quant population grows"
  shows "population (fold (\<lambda>m h. case sum_hist m of Some k \<Rightarrow> lh_merge X h k | None \<Rightarrow> h) ms h0)
    = population h0 + (\<Sum>m \<leftarrow> ms. case sum_hist m of Some k \<Rightarrow> population k | None \<Rightarrow> {#})"
  by (induction ms arbitrary: h0) (auto simp: merge_population [OF laws] ac_simps split: option.split)

text \<open>
  A percentile over several series is that of all their samples: when every matched trend keeps
  its histogram, the value is read from one histogram whose population is the sum of theirs.
\<close>

theorem merged_percentile_exact:
  assumes "hdr_laws X quant population grows" and "ms \<noteq> []"
    and "list_all (\<lambda>m. sum_type m = MTrend \<and> sum_hist m \<noteq> None) ms"
  shows "\<exists>h. population h = (\<Sum>m \<leftarrow> ms. population (the (sum_hist m))) \<and> merged_percentile X ms pct = Fin (lh_percentile X h pct)"
proof -
  let ?h = "fold (\<lambda>m h. case sum_hist m of Some k \<Rightarrow> lh_merge X h k | None \<Rightarrow> h) ms (lh_new X)"
  have "(\<Sum>m \<leftarrow> ms. case sum_hist m of Some k \<Rightarrow> population k | None \<Rightarrow> {#}) = (\<Sum>m \<leftarrow> ms. population (the (sum_hist m)))"
    using assms(3) by (intro arg_cong [where f = sum_list] map_cong) (auto simp: list_all_iff)
  then have "population ?h = (\<Sum>m \<leftarrow> ms. population (the (sum_hist m)))"
    using merged_population [OF assms(1), of ms "lh_new X"] hdr_lawsD(1) [OF assms(1)] by (simp add: lh_new_def)
  with assms(2,3) show ?thesis by (auto simp: merged_percentile_def)
qed

theorem merged_percentile_exact_witness:
  "\<exists>h. (mset \<circ> snd) h = {#3000, 1000#}
     \<and> merged_percentile exact_store [(series_summary ''a'' MTrend 1 1 1)\<lparr>sum_hist := Some (None, [1000])\<rparr>,
          (series_summary ''b'' MTrend 1 3 3)\<lparr>sum_hist := Some (None, [3000])\<rparr>] (Fin 50) = Fin (lh_percentile exact_store h (Fin 50))"
  using merged_percentile_exact [OF exact_store_laws, of "[(series_summary ''a'' MTrend 1 1 1)\<lparr>sum_hist := Some (None, [1000])\<rparr>,
          (series_summary ''b'' MTrend 1 3 3)\<lparr>sum_hist := Some (None, [3000])\<rparr>]" "Fin 50"]
  by (simp add: series_summary_def)

section \<open>Verdicts\<close>

definition breaches :: "'h hdr \<Rightarrow> (string \<Rightarrow> nat option) \<Rightarrow> 'h metrics_result \<Rightarrow> nat \<Rightarrow> string \<times> threshold_config \<Rightarrow> bool" where
  "breaches X pd r elapsed p \<longleftrightarrow> th_abort_on_fail (snd p)
     \<and> (case Option.bind (th_delay_abort_eval (snd p)) pd of Some delay \<Rightarrow> delay \<le> elapsed | None \<Rightarrow> True)
     \<and> (case evaluate_single_threshold_opt X (th_expression (snd p)) r of Some (passed, _, _) \<Rightarrow> \<not> passed | None \<Rightarrow> False)"

lemma check_abort_iff: "check_abort_on_fail X pd ts r elapsed \<longleftrightarrow> list_ex (breaches X pd r elapsed) ts"
proof (induction ts)
  case (Cons p ts)
  then show ?case by (cases p) (auto simp: breaches_def split: option.splits)
qed simp

text \<open>
  C29. A run is aborted exactly when some threshold marked \<^verbatim>\<open>abortOnFail\<close>, past its grace period, has a
  definite breach: its final verdict would be a failure with data. A threshold without data never aborts.
\<close>

theorem abort_iff_breach:
  "check_abort_on_fail X pd ts r elapsed \<longleftrightarrow>
     list_ex (\<lambda>v. tr_abort_on_fail v \<and> \<not> tr_passed v \<and> \<not> tr_no_data v
        \<and> (case tr_delay_abort_eval v of Some delay \<Rightarrow> delay \<le> elapsed | None \<Rightarrow> True)) (evaluate_thresholds X pd ts r)"
    (is "_ \<longleftrightarrow> list_ex ?P _")
proof -
  have "breaches X pd r elapsed p \<longleftrightarrow> ?P (threshold_verdict X pd r p)" for p
    by (auto simp: breaches_def threshold_verdict_def Let_def split: option.splits)
  then show ?thesis by (simp add: check_abort_iff evaluate_thresholds_def list_ex_iff)
qed

section \<open>Findings\<close>

text \<open>
  A bare \<^verbatim>\<open>errors\<close> threshold does not bound the number of errors. With one thousand errors in one
  counter series, the expression \<^verbatim>\<open>errors < 10\<close> passes, because the mean of the series is compared.
\<close>

theorem bare_errors_passes:
  "evaluate_single_threshold_opt exact_store ''errors < 10''
     (default_result\<lparr>res_metrics := [series_summary ''errors'' MCounter 1000 1000 0], errors := 1000\<rparr>)
   = Some (True, Fin 1, Fin 10)"
  by code_simp

text \<open>
  A tag filter with a space in its value passes validation but always fails: whatever the results,
  the verdict is a failure with data, so with \<^verbatim>\<open>abortOnFail\<close> the run is aborted at the first check.
\<close>

theorem spaced_tag_always_fails:
  "validate_expression ''checks{check:status is 200}.rate > 0.9'' = Inr ()
   \<and> evaluate_single_threshold_opt X ''checks{check:status is 200}.rate > 0.9'' r = Some (False, Fin 0, Fin 0)
   \<and> check_abort_on_fail X pd [(n, \<lparr>th_expression = ''checks{check:status is 200}.rate > 0.9'', th_abort_on_fail = True,
         th_delay_abort_eval = None\<rparr>)] r elapsed"
proof -
  have "validate_expression ''checks{check:status is 200}.rate > 0.9'' = Inr ()" by code_simp
  moreover have "parse_threshold ''checks{check:status is 200}.rate > 0.9''
     = Single ''checks{check:status is 200}.rate > 0.9'' ''is'' (Fin 0) ''checks'' [] None" by code_simp
  then have "evaluate_single_threshold_opt X ''checks{check:status is 200}.rate > 0.9'' r = Some (False, Fin 0, Fin 0)"
    by (simp add: evaluate_single_threshold_opt_def evaluate_clause_def get_metric_value_def checks_value_def compare_values_def)
  ultimately show ?thesis by simp
qed

end
