(* ===== verification/Rps.thy ===== *)
theory Rps
  imports Floats
begin

text \<open>
  The global request-rate limiter, \<^verbatim>\<open>crates/tropel-http/src/rps.rs\<close>: the interval a rate gives
  (\<^verbatim>\<open>RpsLimiter::new\<close>) and the compare-exchange loop of \<^verbatim>\<open>acquire\<close>, run by any number of callers.
  One step of a caller is one access to the clock or to the atomic \<^verbatim>\<open>next_slot_ns\<close>; the weak
  compare-exchange may fail spuriously, which an event chooses. Times are nanoseconds since
  \<^verbatim>\<open>base\<close>; an \<^verbatim>\<open>f64\<close> is the exact number it denotes.
\<close>

section \<open>The limiter\<close>

record rps_limiter =
  interval :: nat
  next_slot_ns :: nat

definition max_interval :: nat where "max_interval = (u64_max div 1000000000) * 1000000000"

text \<open>\<^verbatim>\<open>Duration::from_secs_f64\<close> rounds to the nearest nanosecond, ties to even.\<close>

definition round_half_even :: "rat \<Rightarrow> nat" where
  "round_half_even x =
     (let n = nat \<lfloor>x\<rfloor>; r = x - of_int \<lfloor>x\<rfloor>
      in if r < 1 / 2 then n else if 1 / 2 < r then n + 1 else if even n then n else n + 1)"

fun rps_new :: "f64 \<Rightarrow> rps_limiter" where
  "rps_new (Fin rate) =
     (let i = (if 0 < rate then
                 (let secs = 1 / rate in
                  if of_nat max_interval / 1000000000 < secs then max_interval
                  else round_half_even (secs * 1000000000))
               else 0)
      in \<lparr>interval = i, next_slot_ns = 0\<rparr>)"
| "rps_new _ = \<lparr>interval = 0, next_slot_ns = 0\<rparr>"

definition sat_add :: "nat \<Rightarrow> nat \<Rightarrow> nat" where "sat_add a b = min u64_max (a + b)"

section \<open>One caller of acquire\<close>

text \<open>
  The program points of \<^verbatim>\<open>acquire\<close>: before the zero-interval test, at the top of the loop, holding
  \<^verbatim>\<open>now_ns\<close>, holding \<^verbatim>\<open>now_ns\<close> and \<^verbatim>\<open>slot\<close>, asleep until a deadline with a claim, and returned (with
  the claim, if it made one).
\<close>

datatype rps_pc = REnter | RNow | RLoad nat | RCas nat nat | RSleep nat nat | RStarted "nat option"

definition acquire_step :: "bool \<Rightarrow> nat \<Rightarrow> rps_limiter \<Rightarrow> rps_pc \<Rightarrow> rps_limiter \<times> rps_pc" where
  "acquire_step spurious t l p =
     (case p of
        REnter \<Rightarrow> (l, if interval l = 0 then RStarted None else RNow)
      | RNow \<Rightarrow> (l, RLoad (wrap_u64 t))
      | RLoad now_ns \<Rightarrow> (l, RCas now_ns (next_slot_ns l))
      | RCas now_ns slot \<Rightarrow>
          (let interval_ns = wrap_u64 (interval l); claim = max slot now_ns;
               next_slot = sat_add claim interval_ns; wait_ns = claim - now_ns in
           if next_slot_ns l = slot \<and> \<not> spurious then
             (l\<lparr>next_slot_ns := next_slot\<rparr>,
              if 0 < wait_ns then RSleep (t + wait_ns) claim else RStarted (Some claim))
           else (l, RNow))
      | RSleep deadline claim \<Rightarrow> (l, if deadline \<le> t then RStarted (Some claim) else p)
      | RStarted _ \<Rightarrow> (l, p))"

section \<open>All the callers\<close>

record rps_world =
  rps_clock :: nat
  limiter :: rps_limiter
  callers :: "rps_pc list"
  claims :: "(nat \<times> nat) list"

text \<open>\<open>claims\<close> is a ghost: the claims won so far with their callers, newest first.\<close>

datatype rps_event = Tick nat | Run nat bool

definition won :: "rps_pc \<Rightarrow> rps_pc \<Rightarrow> nat option" where
  "won p q =
     (case p of
        RCas _ _ \<Rightarrow> (case q of RSleep _ c \<Rightarrow> Some c | RStarted c \<Rightarrow> c | _ \<Rightarrow> None)
      | _ \<Rightarrow> None)"

fun rps_apply :: "rps_event \<Rightarrow> rps_world \<Rightarrow> rps_world" where
  "rps_apply (Tick d) w = w\<lparr>rps_clock := rps_clock w + d\<rparr>"
| "rps_apply (Run i spurious) w =
     (if i < length (callers w) then
        (let p = callers w ! i; (l, q) = acquire_step spurious (rps_clock w) (limiter w) p
         in w\<lparr>limiter := l, callers := (callers w)[i := q],
              claims := (case won p q of None \<Rightarrow> claims w | Some c \<Rightarrow> (i, c) # claims w)\<rparr>)
      else w)"

definition rps_run :: "rps_event list \<Rightarrow> rps_world \<Rightarrow> rps_world" where
  "rps_run = fold rps_apply"

definition rps_init :: "f64 \<Rightarrow> nat \<Rightarrow> rps_world" where
  "rps_init rate n = \<lparr>rps_clock = 0, limiter = rps_new rate, callers = replicate n REnter, claims = []\<rparr>"

fun is_started :: "rps_pc \<Rightarrow> bool" where
  "is_started (RStarted _) = True" | "is_started _ = False"

definition started :: "rps_world \<Rightarrow> nat" where
  "started w = length (filter is_started (callers w))"

section \<open>Claims are spaced\<close>

text \<open>A history of claims, newest first, each at least the interval after the one before it.\<close>

fun spaced :: "nat \<Rightarrow> nat list \<Rightarrow> bool" where
  "spaced I [] = True"
| "spaced I [c] \<longleftrightarrow> c \<le> u64_max"
| "spaced I (c # d # cs) \<longleftrightarrow> c \<le> u64_max \<and> sat_add d I \<le> c \<and> spaced I (d # cs)"

lemma spaced_Cons: "spaced I (c # cs) \<longleftrightarrow> c \<le> u64_max \<and> (cs \<noteq> [] \<longrightarrow> sat_add (hd cs) I \<le> c) \<and> spaced I cs"
  by (cases cs) auto

lemma spaced_le_hd: "spaced I cs \<Longrightarrow> x \<in> set cs \<Longrightarrow> x \<le> hd cs"
proof (induction cs)
  case (Cons c cs)
  then show ?case by (cases cs) (fastforce simp: spaced_Cons sat_add_def)+
qed simp

lemma spaced_count:
  "spaced I cs \<Longrightarrow> t < u64_max \<Longrightarrow> length (filter (\<lambda>c. c \<le> t) cs) * I \<le> t + I"
proof (induction cs arbitrary: t)
  case (Cons c cs)
  show ?case
  proof (cases "c \<le> t \<and> cs \<noteq> []")
    case True
    then have step: "hd cs + I \<le> t" and sp: "spaced I cs"
      using Cons.prems by (auto simp: spaced_Cons sat_add_def)
    have "filter (\<lambda>c. c \<le> t) cs = filter (\<lambda>c. c \<le> t - I) cs"
      using spaced_le_hd [OF sp] step by (intro filter_cong) force+
    then show ?thesis using Cons.IH [OF sp, of "t - I"] step Cons.prems(2) True by simp
  next
    case False
    then show ?thesis using Cons.IH [of t] Cons.prems by (auto simp: spaced_Cons)
  qed
qed simp

section \<open>The invariant\<close>

fun pc_ok :: "nat \<Rightarrow> (nat \<times> nat) list \<Rightarrow> nat \<Rightarrow> rps_pc \<Rightarrow> bool" where
  "pc_ok t cs i REnter \<longleftrightarrow> i \<notin> fst ` set cs"
| "pc_ok t cs i RNow \<longleftrightarrow> i \<notin> fst ` set cs"
| "pc_ok t cs i (RLoad n) \<longleftrightarrow> i \<notin> fst ` set cs \<and> n \<le> t \<and> n \<le> u64_max"
| "pc_ok t cs i (RCas n s) \<longleftrightarrow> i \<notin> fst ` set cs \<and> n \<le> t \<and> n \<le> u64_max"
| "pc_ok t cs i (RSleep dl c) \<longleftrightarrow> (i, c) \<in> set cs \<and> c \<le> dl"
| "pc_ok t cs i (RStarted None) \<longleftrightarrow> False"
| "pc_ok t cs i (RStarted (Some c)) \<longleftrightarrow> (i, c) \<in> set cs \<and> c \<le> t"

definition limiter_ok :: "rps_limiter \<Rightarrow> nat list \<Rightarrow> bool" where
  "limiter_ok l cs \<longleftrightarrow> 0 < interval l \<and> interval l \<le> u64_max \<and> next_slot_ns l \<le> u64_max \<and>
     spaced (interval l) cs \<and> (cs \<noteq> [] \<longrightarrow> sat_add (hd cs) (interval l) \<le> next_slot_ns l)"

definition rps_inv :: "rps_world \<Rightarrow> bool" where
  "rps_inv w \<longleftrightarrow> limiter_ok (limiter w) (map snd (claims w)) \<and> distinct (map fst (claims w)) \<and>
     (\<forall>i < length (callers w). pc_ok (rps_clock w) (claims w) i (callers w ! i))"

lemma pc_ok_mono: "pc_ok t cs i p \<Longrightarrow> t \<le> t' \<Longrightarrow> pc_ok t' cs i p"
  by (induction t cs i p rule: pc_ok.induct) auto

lemma pc_ok_other: "pc_ok t cs i p \<Longrightarrow> i \<noteq> j \<Longrightarrow> pc_ok t ((j, c) # cs) i p"
  by (induction t cs i p rule: pc_ok.induct) auto

lemma acquire_step_ok:
  assumes l: "limiter_ok l (map snd cs)" and p: "pc_ok t cs i p"
    and s: "acquire_step b t l p = (l', q)"
    and cs': "cs' = (case won p q of None \<Rightarrow> cs | Some c \<Rightarrow> (i, c) # cs)"
  shows "limiter_ok l' (map snd cs') \<and> interval l' = interval l \<and> pc_ok t cs' i q"
proof (cases p)
  case (RCas n slot)
  have w: "wrap_u64 (interval l) = interval l" using l by (simp add: limiter_ok_def wrap_u64_id)
  show ?thesis
  proof (cases "next_slot_ns l = slot \<and> \<not> b")
    case True
    then have q: "q = (if n < slot then RSleep (t + (slot - n)) (max slot n) else RStarted (Some (max slot n)))"
      and l': "l' = l\<lparr>next_slot_ns := sat_add (max slot n) (interval l)\<rparr>"
      using s RCas w by (auto simp: acquire_step_def Let_def split: if_splits)
    have cs: "cs' = (i, max slot n) # cs" using cs' RCas q by (simp add: won_def)
    have "limiter_ok l' (map snd cs')"
      using l p RCas True unfolding cs l' by (auto simp: limiter_ok_def spaced_Cons sat_add_def)
    moreover have "pc_ok t cs' i q" using p RCas unfolding cs q by auto
    ultimately show ?thesis using l' by simp
  next
    case False
    then show ?thesis using s RCas cs' l p by (auto simp: acquire_step_def Let_def won_def)
  qed
next
  case (RNow)
  then show ?thesis using s cs' l p
    by (auto simp: acquire_step_def won_def wrap_u64_def u64_max_def intro: less_imp_le_nat
             dest: order.strict_trans1 [OF mod_less_eq_dividend])
next
  case (RStarted c)
  then show ?thesis using s cs' l p by (auto simp: acquire_step_def won_def)
next
  case (RSleep d c)
  then show ?thesis using s cs' l p by (auto simp: acquire_step_def won_def split: if_splits)
qed (use s cs' l p in \<open>auto simp: acquire_step_def won_def limiter_ok_def\<close>)

lemma won_owner: "pc_ok t cs i p \<Longrightarrow> won p q = Some c \<Longrightarrow> i \<notin> fst ` set cs"
  by (cases p) (auto simp: won_def)

lemma rps_apply_inv:
  assumes "rps_inv w"
  shows "rps_inv (rps_apply e w) \<and> interval (limiter (rps_apply e w)) = interval (limiter w)"
proof (cases e)
  case (Tick d)
  then show ?thesis using assms by (auto simp: rps_inv_def intro: pc_ok_mono)
next
  case (Run i b)
  show ?thesis
  proof (cases "i < length (callers w)")
    case True
    let ?p = "callers w ! i"
    obtain l' q where s: "acquire_step b (rps_clock w) (limiter w) ?p = (l', q)" by fastforce
    define cs' where "cs' = (case won ?p q of None \<Rightarrow> claims w | Some c \<Rightarrow> (i, c) # claims w)"
    have p: "pc_ok (rps_clock w) (claims w) i ?p" and l: "limiter_ok (limiter w) (map snd (claims w))"
      using assms True by (auto simp: rps_inv_def)
    note ok = acquire_step_ok [OF l p s cs'_def]
    have "pc_ok (rps_clock w) cs' j (callers w ! j)" if "j < length (callers w)" "j \<noteq> i" for j
      using that assms pc_ok_other [of _ _ j _ i] by (auto simp: rps_inv_def cs'_def split: option.split)
    moreover have "distinct (map fst cs')"
      using assms won_owner [OF p] by (auto simp: rps_inv_def cs'_def split: option.split)
    moreover have "rps_apply e w = w\<lparr>limiter := l', callers := (callers w)[i := q], claims := cs'\<rparr>"
      using Run True s by (simp add: cs'_def)
    ultimately show ?thesis using ok True by (simp add: rps_inv_def nth_list_update)
  qed (use Run assms in auto)
qed

lemma rps_run_inv:
  "rps_inv w \<Longrightarrow> rps_inv (rps_run evs w) \<and> interval (limiter (rps_run evs w)) = interval (limiter w)"
proof (induction evs arbitrary: w)
  case (Cons e evs)
  then show ?case using rps_apply_inv [of w e] by (simp add: rps_run_def)
qed (simp add: rps_run_def)

lemma round_half_even_le:
  assumes pos: "0 \<le> x" and x: "x \<le> of_nat n"
  shows "round_half_even x \<le> n"
proof -
  from x have f: "\<lfloor>x\<rfloor> \<le> int n" by (metis floor_mono floor_of_nat)
  show ?thesis
  proof (cases "\<lfloor>x\<rfloor> = int n")
    case True
    then have "x - of_int \<lfloor>x\<rfloor> \<le> 0" using x by simp
    then show ?thesis using True by (simp add: round_half_even_def Let_def)
  next
    case False
    then have "nat \<lfloor>x\<rfloor> + 1 \<le> n" using f pos by (simp add: nat_less_iff Suc_le_eq)
    then show ?thesis by (simp add: round_half_even_def Let_def)
  qed
qed

lemma rps_new_interval: "interval (rps_new rate) \<le> max_interval"
proof (cases rate)
  case (Fin r)
  then show ?thesis by (auto simp: Let_def intro!: round_half_even_le)
qed auto

lemma rps_init_inv: "0 < interval (rps_new rate) \<Longrightarrow> rps_inv (rps_init rate n)"
proof -
  assume "0 < interval (rps_new rate)"
  moreover have "max_interval \<le> u64_max" by (simp add: max_interval_def)
  moreover have "next_slot_ns (rps_new rate) = 0" by (cases rate) (simp_all add: Let_def)
  ultimately show ?thesis using rps_new_interval [of rate]
    by (auto simp: rps_inv_def rps_init_def limiter_ok_def)
qed

section \<open>The rate is never exceeded\<close>

lemma started_bound:
  assumes "rps_inv w"
  shows "started w \<le> length (filter (\<lambda>c. c \<le> rps_clock w) (map snd (claims w)))"
proof -
  let ?S = "{i. i < length (callers w) \<and> is_started (callers w ! i)}"
  let ?C = "filter (\<lambda>x. snd x \<le> rps_clock w) (claims w)"
  have "started w = card ?S" by (simp add: started_def length_filter_conv_card)
  also have "?S \<subseteq> fst ` set ?C"
  proof
    fix i assume "i \<in> ?S"
    then have i: "i < length (callers w)" and "is_started (callers w ! i)" by auto
    then obtain o' where "callers w ! i = RStarted o'" by (cases "callers w ! i") auto
    moreover have "pc_ok (rps_clock w) (claims w) i (callers w ! i)" using assms i by (simp add: rps_inv_def)
    ultimately show "i \<in> fst ` set ?C" by (cases o') force+
  qed
  then have "card ?S \<le> card (fst ` set ?C)" by (intro card_mono) auto
  also have "\<dots> \<le> length ?C" by (metis card_image_le card_length finite_set le_trans)
  also have "\<dots> = length (filter (\<lambda>c. c \<le> rps_clock w) (map snd (claims w)))"
    by (simp add: filter_map comp_def)
  finally show ?thesis .
qed

text \<open>
  C34. However the callers and the clock interleave, the number of requests that have started by time
  \<open>t\<close> is at most \<open>t\<close> divided by the interval, plus one: the configured rate is a cap over any run.
\<close>

theorem rps_rate_bound:
  assumes "rps_clock (rps_run evs (rps_init rate n)) < u64_max"
  shows "started (rps_run evs (rps_init rate n)) * interval (rps_new rate)
         \<le> rps_clock (rps_run evs (rps_init rate n)) + interval (rps_new rate)"
proof (cases "interval (rps_new rate) = 0")
  case False
  let ?w = "rps_run evs (rps_init rate n)"
  have inv: "rps_inv ?w" and I: "interval (limiter ?w) = interval (rps_new rate)"
    using rps_run_inv [OF rps_init_inv, of rate evs n] False by (auto simp: rps_init_def)
  then have "spaced (interval (rps_new rate)) (map snd (claims ?w))"
    by (simp add: rps_inv_def limiter_ok_def)
  from spaced_count [OF this assms] started_bound [OF inv]
  show ?thesis by (meson le_trans mult_le_mono1)
qed simp

section \<open>No caller is locked out\<close>

definition solo :: "nat \<Rightarrow> rps_event list \<Rightarrow> bool" where
  "solo i evs \<longleftrightarrow> list_all (\<lambda>e. case e of Tick _ \<Rightarrow> True | Run j b \<Rightarrow> j = i \<and> \<not> b) evs"

definition can_finish :: "nat \<Rightarrow> nat \<Rightarrow> rps_world \<Rightarrow> bool" where
  "can_finish k i w \<longleftrightarrow> (\<exists>evs. solo i evs \<and> length evs \<le> k \<and> is_started (callers (rps_run evs w) ! i))"

lemma can_finish_step:
  "can_finish k i (rps_apply e w) \<Longrightarrow> solo i [e] \<Longrightarrow> can_finish (Suc k) i w"
  unfolding can_finish_def
  by (elim exE) (rule_tac x = "e # evs" in exI, auto simp: solo_def rps_run_def)

lemma can_finish_now: "is_started (callers w ! i) \<Longrightarrow> can_finish k i w"
  unfolding can_finish_def by (rule exI [of _ "[]"]) (simp add: solo_def rps_run_def)

lemma can_finish_mono: "can_finish k i w \<Longrightarrow> k \<le> m \<Longrightarrow> can_finish m i w"
  unfolding can_finish_def by (meson le_trans)

lemma run_self [simp]:
  "i < length (callers w) \<Longrightarrow> callers (rps_apply (Run i b) w) ! i = snd (acquire_step b (rps_clock w) (limiter w) (callers w ! i))"
  "i < length (callers w) \<Longrightarrow> limiter (rps_apply (Run i b) w) = fst (acquire_step b (rps_clock w) (limiter w) (callers w ! i))"
  by (auto split: prod.split simp: Let_def)

lemma apply_keeps [simp]: "length (callers (rps_apply e w)) = length (callers w)"
  by (cases e) (auto split: prod.split simp: Let_def)

lemma finish_sleep:
  assumes "i < length (callers w)" "callers w ! i = RSleep d c"
  shows "can_finish 2 i w"
  unfolding numeral_2_eq_2
  by (rule can_finish_step [of _ _ "Tick d"], rule can_finish_step [of _ _ "Run i False"], rule can_finish_now)
     (use assms in \<open>auto simp: solo_def acquire_step_def simp del: rps_apply.simps(2)\<close>)

lemma finish_fresh_cas:
  assumes "i < length (callers w)" "callers w ! i = RCas n (next_slot_ns (limiter w))"
  shows "can_finish 3 i w"
proof -
  let ?w = "rps_apply (Run i False) w"
  have "is_started (callers ?w ! i) \<or> (\<exists>d c. callers ?w ! i = RSleep d c)"
    using assms by (auto simp: acquire_step_def Let_def simp del: rps_apply.simps(2))
  then have "can_finish 2 i ?w"
    using finish_sleep [of i ?w] assms(1) can_finish_now by (metis apply_keeps)
  then show ?thesis using can_finish_step [of 2 i "Run i False" w] by (simp add: solo_def)
qed

lemma finish_via:
  assumes "i < length (callers w)"
    and "can_finish k i (rps_apply (Run i False) w)"
  shows "can_finish (Suc k) i w"
  using can_finish_step [OF assms(2)] by (simp add: solo_def)

lemma finish_load: "i < length (callers w) \<Longrightarrow> callers w ! i = RLoad n \<Longrightarrow> can_finish 4 i w"
  using finish_via [of i w 3, OF _ finish_fresh_cas [of i _ n]]
  by (simp add: acquire_step_def del: rps_apply.simps(2))

lemma finish_now: "i < length (callers w) \<Longrightarrow> callers w ! i = RNow \<Longrightarrow> can_finish 5 i w"
  using finish_via [of i w 4, OF _ finish_load [of i _ "wrap_u64 (rps_clock w)"]]
  by (simp add: acquire_step_def del: rps_apply.simps(2))

lemma finish_any:
  assumes i: "i < length (callers w)"
  shows "can_finish 6 i w"
proof (cases "callers w ! i")
  case REnter
  let ?w = "rps_apply (Run i False) w"
  have "is_started (callers ?w ! i) \<or> callers ?w ! i = RNow"
    using i REnter by (simp add: acquire_step_def del: rps_apply.simps(2))
  then have "can_finish 5 i ?w" using finish_now [of i ?w] i can_finish_now by (metis apply_keeps)
  then show ?thesis using finish_via [OF i, of 5] by simp
next
  case (RCas n slot)
  let ?w = "rps_apply (Run i False) w"
  show ?thesis
  proof (cases "slot = next_slot_ns (limiter w)")
    case True
    then show ?thesis using finish_fresh_cas [OF i] RCas by (auto intro: can_finish_mono)
  next
    case False
    then have "callers ?w ! i = RNow"
      using i RCas by (simp add: acquire_step_def Let_def del: rps_apply.simps(2))
    then show ?thesis using finish_now [of i ?w] i finish_via [OF i, of 5] by (simp del: rps_apply.simps(2))
  qed
qed (use i in \<open>auto intro: can_finish_now can_finish_mono [OF finish_sleep]
       can_finish_mono [OF finish_load] can_finish_mono [OF finish_now]\<close>)

text \<open>
  C35. From every reachable state every caller can finish within six steps of its own and of the clock:
  no other caller, wherever it stopped, can lock it out of the compare-exchange loop.
\<close>

theorem rps_always_finishes:
  assumes "i < n"
  shows "\<exists>es. solo i es \<and> length es \<le> 6 \<and>
           is_started (callers (rps_run es (rps_run evs (rps_init rate n))) ! i)"
proof -
  have "length (callers (rps_run es w)) = length (callers w)" for es w
    by (induction es arbitrary: w) (simp_all add: rps_run_def)
  then have "i < length (callers (rps_run evs (rps_init rate n)))"
    using assms by (simp add: rps_init_def)
  from finish_any [OF this] show ?thesis by (simp add: can_finish_def)
qed

text \<open>
  Two callers of a limiter at one request a second: the first starts at once, the second is
  asleep until its claim, one second later.
\<close>

definition two_callers :: "rps_event list" where
  "two_callers = [Tick 5, Run 0 False, Run 1 False, Run 0 False, Run 1 False, Run 0 False, Run 1 False,
     Run 0 False, Run 1 False, Run 1 False, Run 1 False, Run 1 False]"

theorem rps_rate_bound_witness:
  "rps_clock (rps_run two_callers (rps_init (Fin 1) 2)) < u64_max \<and>
   started (rps_run two_callers (rps_init (Fin 1) 2)) = 1 \<and>
   callers (rps_run two_callers (rps_init (Fin 1) 2)) ! 1 = RSleep 1000000005 1000000005 \<and>
   started (rps_run two_callers (rps_init (Fin 1) 2)) * interval (rps_new (Fin 1))
     \<le> rps_clock (rps_run two_callers (rps_init (Fin 1) 2)) + interval (rps_new (Fin 1))"
proof -
  have 1: "rps_clock (rps_run two_callers (rps_init (Fin 1) 2)) < u64_max" by code_simp
  have 2: "started (rps_run two_callers (rps_init (Fin 1) 2)) = 1" by code_simp
  have 3: "callers (rps_run two_callers (rps_init (Fin 1) 2)) ! 1 = RSleep 1000000005 1000000005" by code_simp
  from 1 2 3 rps_rate_bound [OF 1] show ?thesis by blast
qed

theorem rps_always_finishes_witness:
  "\<exists>es. solo 1 es \<and> length es \<le> 6 \<and>
     is_started (callers (rps_run es (rps_run two_callers (rps_init (Fin 1) 2))) ! 1)"
  using rps_always_finishes [of 1 2 two_callers "Fin 1"] by simp

end
