(* ===== verification/Civil_Date.thy ===== *)
theory Civil_Date
  imports Prelude
begin

text \<open>
  Calendar dates of the cookie jar, \<^verbatim>\<open>crates/tropel-http/src/vu_jar.rs\<close>: \<^verbatim>\<open>days_from_civil\<close> and
  \<^verbatim>\<open>civil_from_days\<close> and their round trips over the proleptic Gregorian calendar. Every \<^verbatim>\<open>i64\<close>
  division of the source truncates, which \<open>sdiv\<close> is. The day numbers the callers pass are at
  most \<open>2 ^ 63 div 86400\<close> in absolute value and the years have four digits, so no intermediate
  result leaves the range of \<^verbatim>\<open>i64\<close>.
\<close>

section \<open>The two conversions\<close>

definition days_from_civil :: "int \<Rightarrow> int \<Rightarrow> int \<Rightarrow> int" where
  "days_from_civil y0 m d =
     (let y = (if m \<le> 2 then y0 - 1 else y0);
          era = (if 0 \<le> y then y else y - 399) sdiv 400;
          yoe = y - era * 400;
          mp = (m + 9) smod 12;
          doy = (153 * mp + 2) sdiv 5 + d - 1;
          doe = yoe * 365 + yoe sdiv 4 - yoe sdiv 100 + doy
      in era * 146097 + doe - 719468)"

definition civil_from_days :: "int \<Rightarrow> int \<times> int \<times> int" where
  "civil_from_days z0 =
     (let z = z0 + 719468;
          era = (if 0 \<le> z then z else z - 146096) sdiv 146097;
          doe = z - era * 146097;
          yoe = (doe - doe sdiv 1460 + doe sdiv 36524 - doe sdiv 146096) sdiv 365;
          y = yoe + era * 400;
          doy = doe - (365 * yoe + yoe sdiv 4 - yoe sdiv 100);
          mp = (5 * doy + 2) sdiv 153;
          d = doy - (153 * mp + 2) sdiv 5 + 1;
          m = (if mp < 10 then mp + 3 else mp - 9)
      in (if m \<le> 2 then y + 1 else y, m, d))"

text \<open>The Gregorian calendar, which the source's comments name but do not define.\<close>

definition leap_year :: "int \<Rightarrow> bool" where
  "leap_year y \<longleftrightarrow> y mod 4 = 0 \<and> (y mod 100 \<noteq> 0 \<or> y mod 400 = 0)"

definition days_in_month :: "int \<Rightarrow> int \<Rightarrow> int" where
  "days_in_month y m =
     (if m = 2 then (if leap_year y then 29 else 28)
      else if m = 4 \<or> m = 6 \<or> m = 9 \<or> m = 11 then 30 else 31)"

definition valid_date :: "int \<Rightarrow> int \<Rightarrow> int \<Rightarrow> bool" where
  "valid_date y m d \<longleftrightarrow> 1 \<le> m \<and> m \<le> 12 \<and> 1 \<le> d \<and> d \<le> days_in_month y m"

section \<open>Floor division by an era\<close>

lemma era_floor: "0 < k \<Longrightarrow> (if 0 \<le> x then x else x - (k - 1)) sdiv k = x div (k::int)"
proof (cases "0 \<le> x")
  case False
  assume k: "0 < k"
  let ?r = "k - 1 - x mod k"
  have r: "?r div k = 0" using k pos_mod_sign [OF k, of x] pos_mod_bound [OF k, of x]
    by (intro div_pos_pos_trivial) linarith+
  have s: "k - 1 - x = ?r + (- (x div k)) * k"
    using div_mult_mod_eq [of x k] by (simp add: algebra_simps)
  have e: "(k - 1 - x) div k = - (x div k)" unfolding s using r k by (simp add: div_mult_self1 del: mult_minus_left)
  have "(x - (k - 1)) sdiv k = - ((k - 1 - x) div k)"
    using False k by (simp add: signed_divide_int_def sgn_if)
  then show ?thesis using False e by simp
qed (simp add: sdiv_nonneg)

lemma era400: "(if 0 \<le> x then x else x - 399) sdiv 400 = x div (400::int)"
  using era_floor [of 400 x] by (simp split: if_splits)

lemma era146097: "(if 0 \<le> x then x else x - 146096) sdiv 146097 = x div (146097::int)"
  using era_floor [of 146097 x] by (simp split: if_splits)

section \<open>Years within an era\<close>

text \<open>First day of a March-based year of the era, and the source's year estimate.\<close>

definition year_start :: "int \<Rightarrow> int" where
  "year_start y = 365 * y + y div 4 - y div 100"

definition year_end :: "int \<Rightarrow> int" where
  "year_end y = (if y = 399 then 146097 else year_start (y + 1))"

definition days_less_leap :: "int \<Rightarrow> int" where
  "days_less_leap n = n - n div 1460 + n div 36524 - n div 146096"

text \<open>Century, four-year cycle and year of a year of the era.\<close>

lemma era_split:
  assumes "0 \<le> y" "y < 400"
  obtains a q r where "y = 100 * a + 4 * q + r" "0 \<le> a" "a \<le> 3" "0 \<le> q" "q \<le> 24" "0 \<le> r" "r \<le> (3::int)"
proof (rule that)
  show "y = 100 * (y div 100) + 4 * (y mod 100 div 4) + y mod 100 mod 4" by simp
  show "0 \<le> y div 100" "y div 100 \<le> 3" using assms by auto
  have m: "0 \<le> y mod 100" "y mod 100 < 100" by simp_all
  then show "0 \<le> y mod 100 div 4" by (simp add: pos_imp_zdiv_nonneg_iff)
  from m(2) show "y mod 100 div 4 \<le> 24" by (simp add: zdiv_mono1 [of _ 99 4, simplified])
  show "0 \<le> y mod 100 mod 4" by simp
  have "y mod 100 mod 4 < 4" by (rule pos_mod_bound) simp
  then show "y mod 100 mod 4 \<le> 3" by linarith
qed

lemma split_div4: "0 \<le> r \<Longrightarrow> r \<le> 3 \<Longrightarrow> (100 * a + 4 * q + r) div 4 = 25 * a + (q::int)"
  by simp

lemma split_div100: "0 \<le> q \<Longrightarrow> q \<le> 24 \<Longrightarrow> 0 \<le> r \<Longrightarrow> r \<le> 3 \<Longrightarrow> (100 * a + 4 * q + r) div 100 = (a::int)"
  using div_mult_self3 [of 100 a "4 * q + r"] by (simp add: add.assoc div_pos_pos_trivial)

lemma year_start_split:
  "0 \<le> q \<Longrightarrow> q \<le> 24 \<Longrightarrow> 0 \<le> r \<Longrightarrow> r \<le> 3 \<Longrightarrow> year_start (100 * a + 4 * q + r) = 36524 * a + 1461 * q + 365 * r"
  by (simp add: year_start_def split_div4 split_div100)

lemma year_end_split:
  assumes "0 \<le> a" "a \<le> 3" "0 \<le> q" "q \<le> 24" "0 \<le> r" "r \<le> 3"
  shows "year_end (100 * a + 4 * q + r) =
    36524 * a + 1461 * q + 365 * r + (if r = 3 \<and> (q < 24 \<or> a = 3) then 366 else 365)"
proof -
  consider "r < 3" | "r = 3" "q < 24" | "r = 3" "q = 24" "a < 3" | "r = 3" "q = 24" "a = 3"
    using assms by linarith
  then show ?thesis
  proof cases
    case 1
    then have "year_end (100 * a + 4 * q + r) = year_start (100 * a + 4 * q + (r + 1))"
      using assms by (simp add: year_end_def add.assoc)
    then show ?thesis using 1 assms year_start_split [of q "r + 1" a] by simp
  next
    case 2
    then have "year_end (100 * a + 4 * q + r) = year_start (100 * a + 4 * (q + 1) + 0)"
      using assms by (auto simp: year_end_def algebra_simps)
    then show ?thesis using 2 assms year_start_split [of "q + 1" 0 a] by simp
  next
    case 3
    then have "year_end (100 * a + 4 * q + r) = year_start (100 * (a + 1) + 4 * 0 + 0)"
      using assms by (auto simp: year_end_def algebra_simps)
    then show ?thesis using 3 assms year_start_split [of 0 0 "a + 1"] by simp
  qed (simp add: year_end_def)
qed

lemma mod_small_cycle: "0 < x \<Longrightarrow> x \<le> k \<Longrightarrow> (k * a + x) mod k = 0 \<longleftrightarrow> x = (k::int)"
  by (cases "x = k") (simp_all add: mod_pos_pos_trivial)

lemma leap_split:
  assumes "0 \<le> a" "a \<le> 3" "0 \<le> q" "q \<le> 24" "0 \<le> r" "r \<le> (3::int)"
  shows "leap_year (100 * a + 4 * q + r + 1) \<longleftrightarrow> r = 3 \<and> (q < 24 \<or> a = 3)"
proof -
  let ?y = "100 * a + 4 * q + r + 1"
  have 4: "?y mod 4 = 0 \<longleftrightarrow> r = 3"
    using mod_small_cycle [of "r + 1" 4 "25 * a + q"] assms by (simp add: algebra_simps)
  have 100: "?y mod 100 = 0 \<longleftrightarrow> 4 * q + r + 1 = 100"
    using mod_small_cycle [of "4 * q + r + 1" 100 a] assms by (simp add: algebra_simps)
  have 400: "?y mod 400 = 0 \<longleftrightarrow> ?y = 400"
    using mod_small_cycle [of ?y 400 0] assms by (simp add: algebra_simps)
  show ?thesis unfolding leap_year_def 4 100 400 using assms by auto
qed

lemma year_length:
  assumes "0 \<le> y" "y < 400"
  shows "year_end y = year_start y + (if leap_year (y + 1) then 366 else 365)"
  by (rule era_split [OF assms]) (simp add: year_end_split year_start_split leap_split)

lemma year_of_day:
  assumes "0 \<le> y" "y < 400" "year_start y \<le> n" "n < year_end y"
  shows "days_less_leap n div 365 = y"
proof -
  obtain a q r where y: "y = 100 * a + 4 * q + r" and b: "0 \<le> a" "a \<le> 3" "0 \<le> q" "q \<le> 24" "0 \<le> r" "r \<le> 3"
    using era_split [OF assms(1,2)] by blast
  define k where "k = n - year_start y"
  have n: "n = 36524 * a + 1461 * q + 365 * r + k" using y b by (simp add: k_def year_start_split)
  have k: "0 \<le> k" "k \<le> 364 \<or> k = 365 \<and> r = 3 \<and> (q < 24 \<or> a = 3)"
    using assms(3,4) y b by (simp_all add: k_def year_start_split year_end_split split: if_splits) linarith
  have "n = (25 * a + q) * 1460 + (24 * a + q + 365 * r + k)" unfolding n by simp
  then have d1: "n div 1460 = 25 * a + q + (24 * a + q + 365 * r + k) div 1460" by simp
  define e where "e = (24 * a + q + 365 * r + k) div 1460"
  have e: "e = 1 \<and> 269 \<le> k \<or> e = 0 \<and> k \<le> 364"
  proof (cases "1460 \<le> 24 * a + q + 365 * r + k")
    case True
    then have "(24 * a + q + 365 * r + k - 1460) div 1460 = 0" using k b by (intro div_pos_pos_trivial) linarith+
    then have "e = 1" using div_add_self2 [of 1460 "24 * a + q + 365 * r + k - 1460"] by (simp add: e_def)
    then show ?thesis using True b by linarith
  next
    case False
    then have "e = 0" unfolding e_def using k b by (intro div_pos_pos_trivial) linarith+
    then show ?thesis using False k b by linarith
  qed
  show ?thesis
  proof (cases "n = 146096")
    case True
    then have "a = 3" "q = 24" "r = 3" using n k b by linarith+
    then show ?thesis using True y by (simp add: days_less_leap_def)
  next
    case False
    have rest: "0 \<le> 1461 * q + 365 * r + k" "1461 * q + 365 * r + k < 36524"
      using n k b False by linarith+
    have "n = a * 36524 + (1461 * q + 365 * r + k)" unfolding n by simp
    then have "n div 36524 = a" using rest by (simp add: div_pos_pos_trivial)
    moreover have "n div 146096 = 0" using n k b False by (intro div_pos_pos_trivial) linarith+
    ultimately have "days_less_leap n = y * 365 + (k - e)"
      unfolding days_less_leap_def d1 e_def [symmetric] y by (simp add: n)
    moreover have "(k - e) div 365 = 0" using e k by (intro div_pos_pos_trivial) linarith+
    ultimately show ?thesis by simp
  qed
qed


lemma year_exists:
  assumes "0 \<le> n" "n < 146097"
  obtains y where "0 \<le> y" "y < 400" "year_start y \<le> n" "n < year_end y"
proof -
  have "n < year_end (int k) \<Longrightarrow> k < 400 \<Longrightarrow> \<exists>j \<le> k. year_start (int j) \<le> n \<and> n < year_end (int j)" for k
  proof (induction k)
    case 0
    then show ?case using assms by (auto simp: year_start_def)
  next
    case (Suc k)
    show ?case
    proof (cases "n < year_end (int k)")
      case True
      then show ?thesis using Suc by (metis Suc_lessD le_SucI)
    next
      case False
      then have "year_start (int (Suc k)) \<le> n" using Suc.prems by (simp add: year_end_def add.commute)
      then show ?thesis using Suc.prems by blast
    qed
  qed
  from this [of 399] assms obtain j where "j \<le> 399" "year_start (int j) \<le> n" "n < year_end (int j)"
    by (auto simp: year_end_def)
  then show ?thesis using that [of "int j"] by simp
qed

section \<open>Months within a year\<close>

definition month_start :: "int \<Rightarrow> int" where "month_start mp = (153 * mp + 2) div 5"
definition march_month :: "int \<Rightarrow> int" where "march_month m = (m + 9) mod 12"
definition civil_month :: "int \<Rightarrow> int" where "civil_month mp = (if mp < 10 then mp + 3 else mp - 9)"

lemma months_upto: "1 \<le> m \<Longrightarrow> m \<le> 12 \<Longrightarrow> m \<in> {1, 2, 3, 4, 5, 6, 7, 8, 9, 10, 11, 12 :: int}"
  by (simp only: insert_iff empty_iff) presburger

lemma march_upto: "0 \<le> m \<Longrightarrow> m \<le> 11 \<Longrightarrow> m \<in> {0, 1, 2, 3, 4, 5, 6, 7, 8, 9, 10, 11 :: int}"
  by (simp only: insert_iff empty_iff) presburger

lemma month_of_day:
  assumes "1 \<le> m" "m \<le> 12" "1 \<le> d" "d \<le> days_in_month y m" "doy = month_start (march_month m) + d - 1"
  shows "(5 * doy + 2) div 153 = march_month m" "civil_month (march_month m) = m"
    "0 \<le> doy" "doy \<le> 364 \<or> doy = 365 \<and> m = 2 \<and> leap_year y"
proof -
  let ?mp = "march_month m"
  have "153 * ?mp \<le> 5 * doy + 2 \<and> 5 * doy + 2 < 153 * ?mp + 153 \<and> civil_month ?mp = m \<and>
        0 \<le> doy \<and> (doy \<le> 364 \<or> doy = 365 \<and> m = 2 \<and> leap_year y)"
    using months_upto [OF assms(1,2)] assms(3-5)
    by (elim insertE emptyE; simp add: month_start_def march_month_def civil_month_def days_in_month_def
             split: if_splits; linarith?)
  moreover from this have "(5 * doy + 2 - 153 * ?mp) div 153 = 0" by (intro div_pos_pos_trivial) auto
  ultimately show "(5 * doy + 2) div 153 = ?mp" "civil_month ?mp = m" "0 \<le> doy"
    "doy \<le> 364 \<or> doy = 365 \<and> m = 2 \<and> leap_year y"
    using div_mult_self3 [of 153 ?mp "5 * doy + 2 - 153 * ?mp"] by auto
qed

lemma day_of_month:
  assumes "0 \<le> doy" "doy \<le> 364 \<or> doy = 365 \<and> leap" "mp = (5 * doy + 2) div 153"
  shows "0 \<le> mp" "mp \<le> 11" "1 \<le> doy - month_start mp + 1"
    "doy - month_start mp + 1 \<le>
       (if mp = 11 then (if leap then 29 else 28) else if mp \<in> {1, 3, 6, 8} then 30 else 31)"
proof -
  have b: "153 * mp \<le> 5 * doy + 2" "5 * doy + 2 < 153 * mp + 153" using assms(3) by auto
  then show mp: "0 \<le> mp" "mp \<le> 11" using assms(1,2) by auto
  from march_upto [OF this] assms(2) b show "1 \<le> doy - month_start mp + 1"
    "doy - month_start mp + 1 \<le>
       (if mp = 11 then (if leap then 29 else 28) else if mp \<in> {1, 3, 6, 8} then 30 else 31)"
    by (elim insertE emptyE; clarsimp simp: month_start_def; linarith?)+
qed

lemma civil_month_facts:
  assumes "0 \<le> mp" "mp \<le> 11"
  shows "march_month (civil_month mp) = mp" "1 \<le> civil_month mp" "civil_month mp \<le> 12"
    "civil_month mp \<le> 2 \<longleftrightarrow> 10 \<le> mp"
    "days_in_month y (civil_month mp) =
       (if mp = 11 then (if leap_year y then 29 else 28) else if mp \<in> {1, 3, 6, 8} then 30 else 31)"
  using march_upto [OF assms]
  by (elim insertE emptyE; simp add: march_month_def civil_month_def days_in_month_def)+

section \<open>Round trips\<close>

lemma days_from_civil_floor:
  "days_from_civil y m d =
     (let y' = (if m \<le> 2 then y - 1 else y); yoe = y' mod 400 in
      y' div 400 * 146097 + year_start yoe + (month_start (march_month m) + d - 1) - 719468)"
  if "1 \<le> m"
proof -
  define y' where "y' = (if m \<le> 2 then y - 1 else y)"
  have yoe: "y' - y' div 400 * 400 = y' mod 400" by (simp add: minus_div_mult_eq_mod)
  show ?thesis using that
    unfolding days_from_civil_def Let_def y'_def [symmetric] era400 yoe
    by (simp add: year_start_def month_start_def march_month_def sdiv_nonneg smod_nonneg algebra_simps)
qed

lemma civil_from_days_floor:
  assumes n: "n = (z + 719468) mod 146097" and y: "0 \<le> y" "y < 400" "year_start y \<le> n" "n < year_end y"
    and k: "k = n - year_start y" and mp: "mp = (5 * k + 2) div 153"
  shows "civil_from_days z =
     (let m = civil_month mp; yy = y + (z + 719468) div 146097 * 400
      in (if m \<le> 2 then yy + 1 else yy, m, k - month_start mp + 1))"
proof -
  let ?z = "z + 719468"
  have doe: "?z - ?z div 146097 * 146097 = n" by (simp add: n minus_div_mult_eq_mod)
  have n0: "0 \<le> n" "0 \<le> k" using n k y by simp_all
  have "n div 1460 \<le> n" "n div 146096 \<le> n div 36524"
    using n0 zdiv_mono2 [of n 1 1460] zdiv_mono2 [of n 36524 146096] by simp_all
  then have pos: "0 \<le> days_less_leap n" by (simp add: days_less_leap_def)
  have yoe: "(n - n sdiv 1460 + n sdiv 36524 - n sdiv 146096) sdiv 365 = y"
    using year_of_day [OF y] pos n0 by (simp add: days_less_leap_def sdiv_nonneg)
  have "0 \<le> mp" using mp n0 by simp
  then show ?thesis using n0 y
    unfolding civil_from_days_def Let_def era146097 doe yoe
    by (simp add: sdiv_nonneg civil_month_def month_start_def year_start_def k mp [unfolded k year_start_def])
qed

lemma leap_year_era: "leap_year (y mod 400 + 1) \<longleftrightarrow> leap_year (y + 1)"
proof -
  have "(y mod 400 + 1) mod k = (y + 1) mod k" if "k dvd 400" for k
    using that by (metis mod_add_left_eq mod_mod_cancel)
  from this [of 4] this [of 100] this [of 400] show ?thesis by (simp add: leap_year_def)
qed

lemma year_in_era: "0 \<le> y \<Longrightarrow> y < 400 \<Longrightarrow> 0 \<le> year_start y \<and> year_end y \<le> 146097"
proof -
  assume "0 \<le> y" "y < 400"
  then show ?thesis
    by (rule era_split) (auto simp: year_end_split year_start_split split: if_splits)
qed

lemma civil_of_days_of_civil:
  assumes "valid_date y m d"
  shows "civil_from_days (days_from_civil y m d) = (y, m, d)"
proof -
  define y' where "y' = (if m \<le> 2 then y - 1 else y)"
  define k where "k = month_start (march_month m) + d - 1"
  note v = assms [unfolded valid_date_def]
  note mk = month_of_day [OF v [THEN conjunct1] _ _ _ k_def, of y] 
  have y0: "0 \<le> y' mod 400" "y' mod 400 < 400" by simp_all
  have leap: "leap_year (y' mod 400 + 1)" if "m = 2" "leap_year y"
    using that by (simp add: leap_year_era y'_def)
  have k: "0 \<le> k" "year_start (y' mod 400) + k < year_end (y' mod 400)"
    using mk(3,4) v leap year_length [OF y0] by auto
  have z: "days_from_civil y m d + 719468 = year_start (y' mod 400) + k + y' div 400 * 146097"
    using v by (simp add: days_from_civil_floor y'_def k_def Let_def)
  have n: "year_start (y' mod 400) + k = (days_from_civil y m d + 719468) mod 146097"
    "(days_from_civil y m d + 719468) div 146097 = y' div 400"
    using year_in_era [OF y0] k unfolding z by (simp_all add: div_pos_pos_trivial mod_pos_pos_trivial)
  have m: "civil_month (march_month m) = m" "march_month m = (5 * k + 2) div 153" using mk v by auto
  have start: "year_start (y' mod 400) \<le> year_start (y' mod 400) + k" using k by simp
  have kk: "k = year_start (y' mod 400) + k - year_start (y' mod 400)" by simp
  have "civil_from_days (days_from_civil y m d) =
      (if m \<le> 2 then y' + 1 else y', m, k - month_start (march_month m) + 1)"
    unfolding civil_from_days_floor [OF n(1) y0 start k(2) kk m(2)]
    by (simp only: Let_def n(2) m(1) mod_div_mult_eq)
  then show ?thesis by (simp add: y'_def k_def)
qed

lemma days_of_civil_of_days:
  "case civil_from_days z of (y, m, d) \<Rightarrow> valid_date y m d \<and> days_from_civil y m d = z"
proof -
  define n where "n = (z + 719468) mod 146097"
  define e where "e = (z + 719468) div 146097"
  have "0 \<le> n" "n < 146097" by (simp_all add: n_def)
  then obtain y where y: "0 \<le> y" "y < 400" "year_start y \<le> n" "n < year_end y" by (rule year_exists)
  define k where "k = n - year_start y"
  define mp where "mp = (5 * k + 2) div 153"
  have "0 \<le> k" "k \<le> 364 \<or> k = 365 \<and> leap_year (y + 1)"
    using y year_length [OF y(1,2)] by (auto simp: k_def split: if_splits)
  note dm = day_of_month [OF this mp_def]
  define yy where "yy = y + e * 400"
  have civil: "civil_from_days z =
      (let m = civil_month mp in (if m \<le> 2 then yy + 1 else yy, m, k - month_start mp + 1))"
    using civil_from_days_floor [OF n_def y k_def mp_def] by (simp add: yy_def e_def Let_def)
  have yy: "yy mod 400 = y" "yy div 400 = e" using y by (simp_all add: yy_def)
  have leap: "leap_year (y + 1) \<longleftrightarrow> leap_year (yy + 1)" using leap_year_era [of yy] by (simp add: yy)
  note bk = civil_month_facts [OF dm(1,2)]
  let ?y = "if civil_month mp \<le> 2 then yy + 1 else yy"
  have "z = e * 146097 + n - 719468" by (simp add: e_def n_def)
  then have "days_from_civil ?y (civil_month mp) (k - month_start mp + 1) = z"
    by (simp add: days_from_civil_floor Let_def yy k_def bk(1,2))
  moreover have "days_in_month ?y (civil_month mp) =
      (if mp = 11 then (if leap_year (y + 1) then 29 else 28) else if mp \<in> {1, 3, 6, 8} then 30 else 31)"
    using leap by (simp add: bk(4,5))
  with dm(3,4) bk(2,3) have "valid_date ?y (civil_month mp) (k - month_start mp + 1)"
    unfolding valid_date_def by presburger
  ultimately show ?thesis by (simp add: civil Let_def)
qed

text \<open>
  \<^verbatim>\<open>civil_from_days\<close> gives a valid Gregorian date that \<^verbatim>\<open>days_from_civil\<close> takes back to the day
  number, and the other way round for every valid date.
\<close>

theorem civil_days_roundtrip:
  "(case civil_from_days z of (y, m, d) \<Rightarrow> valid_date y m d \<and> days_from_civil y m d = z) \<and>
   (valid_date y m d \<longrightarrow> civil_from_days (days_from_civil y m d) = (y, m, d))"
  using days_of_civil_of_days [of z] civil_of_days_of_civil [of y m d] by simp

text \<open>29 February 2000, and the day of the Unix epoch.\<close>

theorem civil_days_roundtrip_witness:
  "valid_date 2000 2 29 \<and> days_from_civil 2000 2 29 = 11016 \<and> civil_from_days (days_from_civil 2000 2 29) = (2000, 2, 29) \<and>
   civil_from_days 0 = (1970, 1, 1)"
proof -
  have v: "valid_date 2000 2 29" by code_simp
  have d: "days_from_civil 2000 2 29 = 11016" by code_simp
  have z: "civil_from_days 0 = (1970, 1, 1)" by code_simp
  from v d z civil_days_roundtrip [of 0 2000 2 29] show ?thesis by blast
qed

end
