(* ===== verification/Cookie_Jar.thy ===== *)
theory Cookie_Jar
  imports Civil_Date Assoc "HOL-Library.List_Lexorder" "HOL-Library.Char_ord"
begin

text \<open>
  The per-VU cookie jar: the handle registry, the script verbs and the \<^verbatim>\<open>expires\<close> dates of
  \<^verbatim>\<open>crates/tropel-http/src/vu_jar.rs\<close>, the header parser they share with the client
  (\<^verbatim>\<open>parse_cookie_header_value\<close>), and the public-suffix rule of
  \<^verbatim>\<open>crates/tropel-variables/src/cookies.rs\<close>. The jar and the URL parser are those of \<^verbatim>\<open>reqwest\<close>:
  they are parameters, a jar being known by what it sends for a URL and by what a
  \<^verbatim>\<open>Set-Cookie\<close> line does to it.
\<close>

section \<open>Strings\<close>

fun split_once_str :: "string \<Rightarrow> string \<Rightarrow> (string \<times> string) option" where
  "split_once_str p [] = (if p = [] then Some ([], []) else None)"
| "split_once_str p (c # cs) =
     (if starts_with p (c # cs) then Some ([], drop (length p) (c # cs))
      else map_option (\<lambda>(a, b). (c # a, b)) (split_once_str p cs))"

text \<open>The padding of \<^verbatim>\<open>{:02}\<close> and \<^verbatim>\<open>{:04}\<close>: zeros after the sign, up to the width.\<close>

definition zero_pad :: "nat \<Rightarrow> int \<Rightarrow> string" where
  "zero_pad w i =
     (let ds = show_nat (nat \<bar>i\<bar>); sg = (if i < 0 then ''-'' else '''')
      in sg @ replicate (w - length sg - length ds) (CHR ''0'') @ ds)"

definition is_ascii_alphabetic :: "char \<Rightarrow> bool" where
  "is_ascii_alphabetic c \<longleftrightarrow>
     (let n = (of_char c :: nat) in (65 \<le> n \<and> n \<le> 90) \<or> (97 \<le> n \<and> n \<le> 122))"

definition is_ascii_digit :: "char \<Rightarrow> bool" where
  "is_ascii_digit c \<longleftrightarrow> (let n = (of_char c :: nat) in 48 \<le> n \<and> n \<le> 57)"

section \<open>The public-suffix rule\<close>

definition is_likely_public_suffix :: "string \<Rightarrow> bool" where
  "is_likely_public_suffix domain \<longleftrightarrow> CHR ''.'' \<notin> set (dropWhile (\<lambda>c. c = CHR ''.'') domain)"

fun find_map :: "('a \<Rightarrow> 'b option) \<Rightarrow> 'a list \<Rightarrow> 'b option" where
  "find_map f [] = None"
| "find_map f (x # xs) = (case f x of Some y \<Rightarrow> Some y | None \<Rightarrow> find_map f xs)"

definition domain_of_part :: "string \<Rightarrow> string option" where
  "domain_of_part part =
     (case split_once (CHR ''='') part of
        None \<Rightarrow> None
      | Some (n, v) \<Rightarrow> if to_ascii_lowercase (trim n) = ''domain'' then Some v else None)"

definition domain_attribute :: "string \<Rightarrow> string option" where
  "domain_attribute set_cookie = find_map domain_of_part (drop 1 (split_on (CHR '';'') set_cookie))"

text \<open>Lower-casing is that of ASCII: a host name is an ASCII name here.\<close>

definition set_cookie_is_acceptable :: "string \<Rightarrow> string \<Rightarrow> bool" where
  "set_cookie_is_acceptable set_cookie request_host =
     (case domain_attribute set_cookie of
        None \<Rightarrow> True
      | Some v \<Rightarrow>
          (let domain = to_ascii_lowercase (dropWhile (\<lambda>c. c = CHR ''.'') (trim v)) in
           if domain = [] then True
           else if \<not> is_likely_public_suffix domain then True
           else domain = to_ascii_lowercase (trim request_host)))"

section \<open>RFC 1123 dates\<close>

datatype jar_error = Bad_expires string | Bad_url string | Refused string string | Jar_panic string

definition MONTHS :: "string list" where
  "MONTHS = [''Jan'', ''Feb'', ''Mar'', ''Apr'', ''May'', ''Jun'', ''Jul'', ''Aug'', ''Sep'', ''Oct'', ''Nov'', ''Dec'']"

definition WEEKDAYS :: "string list" where
  "WEEKDAYS = [''Sun'', ''Mon'', ''Tue'', ''Wed'', ''Thu'', ''Fri'', ''Sat'']"

fun position :: "'a \<Rightarrow> 'a list \<Rightarrow> nat option" where
  "position x [] = None"
| "position x (y # ys) = (if y = x then Some 0 else map_option Suc (position x ys))"

text \<open>
  \<^verbatim>\<open>zone.split_at(1)\<close> panics when byte 1 is not a character boundary, that is when the first
  character takes more than one byte; such a character begins with a byte of at least 128.
\<close>

definition parse_zone :: "string \<Rightarrow> jar_error + int option" where
  "parse_zone zone =
     (if zone = [] then Inr None
      else if list_all is_ascii_alphabetic zone \<and> length zone \<le> 5 then Inr (Some 0)
      else if 128 \<le> (of_char (hd zone) :: nat) then Inl (Jar_panic zone)
      else
        (let digits = tl zone;
             offset = (\<lambda>sign :: int.
               if length digits \<noteq> 4 \<or> \<not> list_all is_ascii_digit digits then None
               else case (parse_i64 (take 2 digits), parse_i64 (drop 2 digits)) of
                      (Some hours, Some mins) \<Rightarrow> Some (sign * (hours * 3600 + mins * 60))
                    | _ \<Rightarrow> None)
         in Inr (if hd zone = CHR ''+'' then offset 1
                 else if hd zone = CHR ''-'' then offset (- 1)
                 else None)))"

definition parse_hms :: "string \<Rightarrow> (int \<times> int \<times> int) option" where
  "parse_hms time =
     (case split_on (CHR '':'') time of
        [h, m, s] \<Rightarrow>
          (case (parse_i64 h, parse_i64 m, parse_i64 s) of
             (Some hh, Some mm, Some ss) \<Rightarrow>
               if hh > 23 \<or> mm > 59 \<or> ss > 60 then None else Some (hh, mm, ss)
           | _ \<Rightarrow> None)
      | _ \<Rightarrow> None)"

definition parse_day :: "string \<Rightarrow> string \<Rightarrow> string \<Rightarrow> (int \<times> int \<times> int) option" where
  "parse_day day month year =
     (if length day \<noteq> 2 \<or> length year \<noteq> 4 then None
      else case (parse_i64 day, parse_i64 year, position month MONTHS) of
             (Some d, Some y, Some m) \<Rightarrow>
               if 1 \<le> d \<and> d \<le> 31 then Some (y, int m + 1, d) else None
           | _ \<Rightarrow> None)"

text \<open>The last expression is \<^verbatim>\<open>i64\<close> arithmetic, which wraps in a release build.\<close>

definition parse_rfc1123 :: "string \<Rightarrow> jar_error + int" where
  "parse_rfc1123 s0 =
     (let s = trim s0; bad = Bad_expires s0 in
      case split_once_str '', '' s of
        None \<Rightarrow> Inl bad
      | Some (weekday, rest) \<Rightarrow>
          if weekday \<notin> set WEEKDAYS then Inl bad
          else
            (case split_on (CHR '' '') rest of
               [day, month, year, time, zone] \<Rightarrow>
                 (case (parse_day day month year, parse_hms time) of
                    (Some (y, m, d), Some (hh, mm, ss)) \<Rightarrow>
                      bindE (bindE (parse_zone zone) (ok_or bad)) (\<lambda>offset.
                        Inr (wrap_i64 (days_from_civil y m d * 86400 + hh * 3600 + mm * 60 + ss - offset)))
                  | _ \<Rightarrow> Inl bad)
             | _ \<Rightarrow> Inl bad))"

definition format_imf_fixdate :: "int \<Rightarrow> string" where
  "format_imf_fixdate epoch =
     (let days = epoch div 86400; secs = epoch mod 86400; (y, m, d) = civil_from_days days;
          weekday = WEEKDAYS ! nat ((days + 4) mod 7)
      in weekday @ '', '' @ zero_pad 2 d @ '' '' @ (MONTHS ! nat (m - 1)) @ '' '' @ zero_pad 4 y @ '' '' @
         zero_pad 2 (secs sdiv 3600) @ '':'' @ zero_pad 2 (secs smod 3600 sdiv 60) @ '':'' @
         zero_pad 2 (secs smod 60) @ '' GMT'')"

section \<open>The registry\<close>

text \<open>Clients are known by the address of their allocation.\<close>

type_synonym 'jar registry = "(nat \<times> 'jar) list"

definition register_vu_jar :: "nat \<Rightarrow> 'jar \<Rightarrow> 'jar registry \<Rightarrow> 'jar registry" where
  "register_vu_jar key jar reg = upsert key (\<lambda>_. jar) jar reg"

definition unregister_vu_jar :: "nat \<Rightarrow> 'jar registry \<Rightarrow> 'jar registry" where
  "unregister_vu_jar key reg = filter (\<lambda>(k, _). k \<noteq> key) reg"

definition vu_jar_for_client :: "nat \<Rightarrow> 'jar registry \<Rightarrow> 'jar option" where
  "vu_jar_for_client key reg = map_of reg key"

definition registered_jar_count :: "'jar registry \<Rightarrow> nat" where
  "registered_jar_count reg = length reg"

section \<open>The script verbs\<close>

record k6_cookie_options =
  opt_domain :: "string option"
  opt_path :: "string option"
  opt_expires :: "string option"
  opt_max_age :: "int option"
  opt_secure :: "bool option"
  opt_http_only :: "bool option"

definition parse_cookie_header_value :: "string \<Rightarrow> (string \<times> string) list" where
  "parse_cookie_header_value v =
     List.map_filter (\<lambda>pair. map_option (\<lambda>(n, x). (trim n, trim x)) (split_once (CHR ''='') pair))
       (filter (\<lambda>s. s \<noteq> []) (map trim (split_on (CHR '';'') v)))"

definition nonempty :: "string option \<Rightarrow> string option" where
  "nonempty v = (case v of Some (c # cs) \<Rightarrow> v | _ \<Rightarrow> None)"

definition attribute :: "string \<Rightarrow> string option \<Rightarrow> string" where
  "attribute key v = (case v of None \<Rightarrow> [] | Some x \<Rightarrow> ''; '' @ key @ ''='' @ x)"

definition build_set_cookie :: "string \<Rightarrow> string \<Rightarrow> k6_cookie_options \<Rightarrow> jar_error + string" where
  "build_set_cookie cookie v opts =
     bindE (case nonempty (opt_expires opts) of
              None \<Rightarrow> Inr None
            | Some e \<Rightarrow> bindE (parse_rfc1123 e) (\<lambda>epoch. Inr (Some (format_imf_fixdate epoch))))
       (\<lambda>expires. Inr
          (cookie @ ''='' @ v @ attribute ''Path'' (nonempty (opt_path opts)) @
           attribute ''Domain'' (nonempty (opt_domain opts)) @ attribute ''Expires'' expires @
           attribute ''Max-Age'' (map_option show_int (opt_max_age opts)) @
           (if opt_secure opts = Some True then ''; Secure'' else []) @
           (if opt_http_only opts = Some True then ''; HttpOnly'' else [])))"

text \<open>
  The verbs over a jar: \<open>sends jar url\<close> is the value of the \<^verbatim>\<open>Cookie\<close> header, if any,
  \<open>add jar line url\<close> the jar after \<^verbatim>\<open>add_cookie_str\<close>, \<open>parse\<close> the URL parser and \<open>host\<close> the
  URL's host.
\<close>

definition cookies_for_url ::
    "(string \<Rightarrow> jar_error + 'url) \<Rightarrow> ('jar \<Rightarrow> 'url \<Rightarrow> string option) \<Rightarrow> 'jar \<Rightarrow> string \<Rightarrow>
     jar_error + (string \<times> string list) list" where
  "cookies_for_url parse sends jar url =
     bindE (parse url) (\<lambda>u. Inr
       (case sends jar u of
          None \<Rightarrow> []
        | Some header \<Rightarrow>
            fold (\<lambda>(n, v). btree_upsert n (\<lambda>vs. vs @ [v]) []) (parse_cookie_header_value header) []))"

definition set_cookie ::
    "(string \<Rightarrow> jar_error + 'url) \<Rightarrow> ('url \<Rightarrow> string option) \<Rightarrow> ('jar \<Rightarrow> string \<Rightarrow> 'url \<Rightarrow> 'jar) \<Rightarrow>
     'jar \<Rightarrow> string \<Rightarrow> string \<Rightarrow> string \<Rightarrow> k6_cookie_options \<Rightarrow> jar_error + 'jar" where
  "set_cookie parse host add jar url cookie v opts =
     bindE (parse url) (\<lambda>u.
     bindE (build_set_cookie cookie v opts) (\<lambda>line.
       let h = (case host u of Some h \<Rightarrow> h | None \<Rightarrow> []) in
       if \<not> set_cookie_is_acceptable line h then Inl (Refused cookie h)
       else Inr (add jar line u)))"

definition delete_cookie ::
    "(string \<Rightarrow> jar_error + 'url) \<Rightarrow> ('jar \<Rightarrow> string \<Rightarrow> 'url \<Rightarrow> 'jar) \<Rightarrow> 'jar \<Rightarrow> string \<Rightarrow> string \<Rightarrow> jar_error + 'jar" where
  "delete_cookie parse add jar url cookie =
     bindE (parse url) (\<lambda>u. Inr (add jar (cookie @ ''=; Max-Age=-1'') u))"

definition clear_cookies ::
    "(string \<Rightarrow> jar_error + 'url) \<Rightarrow> ('jar \<Rightarrow> 'url \<Rightarrow> string option) \<Rightarrow> ('jar \<Rightarrow> string \<Rightarrow> 'url \<Rightarrow> 'jar) \<Rightarrow>
     'jar \<Rightarrow> string \<Rightarrow> jar_error + 'jar" where
  "clear_cookies parse sends add jar url =
     bindE (cookies_for_url parse sends jar url) (\<lambda>m.
     bindE (parse url) (\<lambda>u. Inr
       (fold (\<lambda>(n, _) j. add j (n @ ''=; Max-Age=-1'') u) m jar)))"

section \<open>Printing and reading back a date\<close>

lemma show_nat_lt10: "n < 10 \<Longrightarrow> show_nat n = [digit_char n]"
  by (simp add: show_nat.simps)

lemma show_nat_step: "10 \<le> n \<Longrightarrow> show_nat n = show_nat (n div 10) @ [digit_char (n mod 10)]"
  by (subst show_nat.simps) simp

lemma digit_char_0: "digit_char 0 = CHR ''0''" by code_simp

lemma replicate_small: "replicate 2 x = [x, x]" "replicate 3 x = [x, x, x]"
  by (simp_all add: eval_nat_numeral)

lemma zero_pad2: "0 \<le> i \<Longrightarrow> i < 100 \<Longrightarrow> zero_pad 2 i = [digit_char (nat i div 10), digit_char (nat i mod 10)]"
  by (cases "nat i < 10")
     (simp_all add: zero_pad_def show_nat_lt10 show_nat_step digit_char_0 numeral_2_eq_2 abs_if div_less nat_less_iff)

lemma zero_pad4:
  assumes "0 \<le> i" "i < 10000"
  shows "zero_pad 4 i = map digit_char [nat i div 10 div 10 div 10, nat i div 10 div 10 mod 10, nat i div 10 mod 10, nat i mod 10]"
proof -
  define n where "n = nat i"
  have i: "nat \<bar>i\<bar> = n" "\<not> i < 0" "n < 10000" using assms by (auto simp: n_def)
  consider "n < 10" | "10 \<le> n" "n < 100" | "100 \<le> n" "n < 1000" | "1000 \<le> n" by linarith
  then show ?thesis unfolding zero_pad_def i(1) n_def [symmetric] using i(2,3)
    by cases (simp_all add: show_nat_lt10 show_nat_step digit_char_0 replicate_small div_mult2_eq [symmetric])
qed

lemma parse_digits_list:
  "list_all (\<lambda>d. d < 10) ds \<Longrightarrow> ds \<noteq> [] \<Longrightarrow> parse_digits (map digit_char ds) = Some (fold (\<lambda>d a. a * 10 + d) ds 0)"
proof -
  have "list_all (\<lambda>d. d < 10) ds \<Longrightarrow> digits_acc a (map digit_char ds) = Some (fold (\<lambda>d a. a * 10 + d) ds a)" for a
    by (induction ds arbitrary: a) auto
  then show "list_all (\<lambda>d. d < 10) ds \<Longrightarrow> ds \<noteq> [] \<Longrightarrow> ?thesis" by (simp add: parse_digits_def)
qed

lemma parse_pad2:
  assumes "0 \<le> i" "i < 100"
  shows "parse_i64 (zero_pad 2 i) = Some i"
proof -
  have "parse_digits (zero_pad 2 i) = Some (nat i)"
    using parse_digits_list [of "[nat i div 10, nat i mod 10]"] assms by (simp add: zero_pad2 nat_less_iff less_mult_imp_div_less)
  from parse_signed_digits [OF this, of i64_min i64_max] assms show ?thesis by (simp add: i64_bounds)
qed

lemma parse_pad4:
  assumes "0 \<le> i" "i < 10000"
  shows "parse_i64 (zero_pad 4 i) = Some i"
proof -
  let ?n = "nat i"
  have "?n div 10 div 10 div 10 < 10" using assms by (simp add: div_mult2_eq [symmetric] less_mult_imp_div_less nat_less_iff)
  then have "parse_digits (zero_pad 4 i) =
      Some (((?n div 10 div 10 div 10 * 10 + ?n div 10 div 10 mod 10) * 10 + ?n div 10 mod 10) * 10 + ?n mod 10)"
    unfolding zero_pad4 [OF assms] by (subst parse_digits_list) simp_all
  also have "\<dots> = Some ?n" by (simp only: div_mult_mod_eq)
  finally have "parse_digits (zero_pad 4 i) = Some ?n" .
  from parse_signed_digits [OF this, of i64_min i64_max] assms show ?thesis by (simp add: i64_bounds)
qed

lemma pad_length: "0 \<le> i \<Longrightarrow> i < 100 \<Longrightarrow> length (zero_pad 2 i) = 2" "0 \<le> i \<Longrightarrow> i < 10000 \<Longrightarrow> length (zero_pad 4 i) = 4"
  by (simp_all add: zero_pad2 zero_pad4)

lemma pad_no_sep: "c \<in> {CHR '' '', CHR '':''} \<Longrightarrow> 0 \<le> i \<Longrightarrow> c \<notin> set (zero_pad w i)"
  using show_nat_char_range [of c "nat \<bar>i\<bar>"] by (auto simp: zero_pad_def Let_def)

lemma month_name:
  assumes "1 \<le> m" "m \<le> 12"
  shows "position (MONTHS ! nat (m - 1)) MONTHS = Some (nat (m - 1))" "CHR '' '' \<notin> set (MONTHS ! nat (m - 1))"
  using months_upto [OF assms] by (elim insertE emptyE; simp add: MONTHS_def)+

lemma weekday_cases: "k < 7 \<Longrightarrow> WEEKDAYS ! k \<in> {''Sun'', ''Mon'', ''Tue'', ''Wed'', ''Thu'', ''Fri'', ''Sat''}"
proof -
  assume "k < 7"
  then have "k = 0 \<or> k = 1 \<or> k = 2 \<or> k = 3 \<or> k = 4 \<or> k = 5 \<or> k = 6" by linarith
  then show ?thesis by (auto simp: WEEKDAYS_def)
qed

lemma weekday_facts:
  assumes "k < 7"
  shows "WEEKDAYS ! k \<in> set WEEKDAYS" "split_once_str '', '' (WEEKDAYS ! k @ '', '' @ rest) = Some (WEEKDAYS ! k, rest)"
    "WEEKDAYS ! k \<noteq> []" "\<not> is_ws (hd (WEEKDAYS ! k))"
  using weekday_cases [OF assms]
  by (elim insertE emptyE; simp add: WEEKDAYS_def starts_with_def is_ws_def)+

lemma parse_day_formatted:
  assumes "valid_date y m d" "0 \<le> y" "y \<le> 9999"
  shows "parse_day (zero_pad 2 d) (MONTHS ! nat (m - 1)) (zero_pad 4 y) = Some (y, m, d)"
proof -
  have "1 \<le> m" "m \<le> 12" "1 \<le> d" "d \<le> 31"
    using assms(1) by (auto simp: valid_date_def days_in_month_def split: if_splits)
  then show ?thesis using assms(2,3)
    by (simp add: parse_day_def pad_length parse_pad2 parse_pad4 month_name)
qed

lemma parse_hms_formatted:
  assumes "0 \<le> h" "h \<le> 23" "0 \<le> mi" "mi \<le> 59" "0 \<le> s" "s \<le> 59"
  shows "parse_hms (zero_pad 2 h @ '':'' @ zero_pad 2 mi @ '':'' @ zero_pad 2 s) = Some (h, mi, s)"
  using assms by (simp add: parse_hms_def split_on_append split_on_absent pad_no_sep parse_pad2)

lemma secs_split:
  assumes "0 \<le> t" "t < 86400"
  shows "0 \<le> t sdiv 3600" "t sdiv 3600 \<le> 23" "0 \<le> t smod 3600 sdiv 60" "t smod 3600 sdiv 60 \<le> 59"
    "0 \<le> t smod 60" "t smod 60 \<le> 59" "t sdiv 3600 * 3600 + t smod 3600 sdiv 60 * 60 + t smod 60 = (t::int)"
proof -
  have d: "t sdiv 3600 = t div 3600" "t smod 3600 sdiv 60 = t mod 3600 div 60" "t smod 60 = t mod 60"
    using assms by (simp_all add: sdiv_nonneg smod_nonneg)
  have m: "t mod 3600 mod 60 = t mod 60" by (simp add: mod_mod_cancel)
  have b: "0 \<le> t mod 3600" "t mod 3600 < 3600" "t mod 60 < 60" by simp_all
  show "0 \<le> t sdiv 3600" "t sdiv 3600 \<le> 23" "0 \<le> t smod 3600 sdiv 60" "0 \<le> t smod 60" "t smod 60 \<le> 59"
    using assms b by (simp_all add: d pos_imp_zdiv_nonneg_iff)
  show "t smod 3600 sdiv 60 \<le> 59" using zdiv_mono1 [of "t mod 3600" 3599 60] b by (simp add: d)
  show "t sdiv 3600 * 3600 + t smod 3600 sdiv 60 * 60 + t smod 60 = t"
    using div_mult_mod_eq [of t 3600] div_mult_mod_eq [of "t mod 3600" 60] unfolding d m by linarith
qed

text \<open>
  C36. Printing an instant of the years 0 to 9999 as an \<^verbatim>\<open>Expires\<close> date and parsing it gives the instant
  back.
\<close>

theorem rfc1123_roundtrip:
  assumes e: "in_i64 epoch" and y: "case civil_from_days (epoch div 86400) of (y, _) \<Rightarrow> 0 \<le> y \<and> y \<le> 9999"
  shows "parse_rfc1123 (format_imf_fixdate epoch) = Inr epoch"
proof -
  obtain yy m d where c: "civil_from_days (epoch div 86400) = (yy, m, d)" by (cases "civil_from_days (epoch div 86400)")
  have v: "valid_date yy m d" and days: "days_from_civil yy m d = epoch div 86400"
    using days_of_civil_of_days [of "epoch div 86400"] by (simp_all add: c)
  let ?t = "epoch mod 86400"
  define k where "k = nat ((epoch div 86400 + 4) mod 7)"
  have k: "k < 7" unfolding k_def by (simp add: nat_less_iff)
  define time where "time = zero_pad 2 (?t sdiv 3600) @ '':'' @ zero_pad 2 (?t smod 3600 sdiv 60) @ '':'' @ zero_pad 2 (?t smod 60)"
  define rest where "rest = zero_pad 2 d @ '' '' @ (MONTHS ! nat (m - 1)) @ '' '' @ zero_pad 4 yy @ '' '' @ time @ '' GMT''"
  have f: "format_imf_fixdate epoch = WEEKDAYS ! k @ '', '' @ rest"
    by (simp add: format_imf_fixdate_def c k_def time_def rest_def Let_def)
  have "\<not> is_ws (last ''GMT'')" by code_simp
  then have trim: "trim (format_imf_fixdate epoch) = format_imf_fixdate epoch"
    using weekday_facts(3,4) [OF k] by (intro trim_id) (simp add: f rest_def)
  have t: "0 \<le> ?t" "?t < 86400" by simp_all
  have md: "1 \<le> m" "m \<le> 12" "0 \<le> d" using v by (simp_all add: valid_date_def)
  have "CHR '' '' \<notin> set time" using secs_split [OF t] by (simp add: time_def pad_no_sep)
  then have split: "split_on (CHR '' '') rest = [zero_pad 2 d, MONTHS ! nat (m - 1), zero_pad 4 yy, time, ''GMT'']"
    using md y by (simp add: rest_def split_on_append split_on_absent pad_no_sep month_name c)
  have zone: "parse_zone ''GMT'' = Inr (Some 0)" by code_simp
  have "parse_hms time = Some (?t sdiv 3600, ?t smod 3600 sdiv 60, ?t smod 60)"
    unfolding time_def by (rule parse_hms_formatted) (use secs_split [OF t] in auto)
  moreover have "parse_day (zero_pad 2 d) (MONTHS ! nat (m - 1)) (zero_pad 4 yy) = Some (yy, m, d)"
    using parse_day_formatted [OF v] y by (simp add: c)
  moreover have "epoch div 86400 * 86400 + ?t sdiv 3600 * 3600 + ?t smod 3600 sdiv 60 * 60 + ?t smod 60 - 0 = epoch"
    using secs_split(7) [OF t] div_mult_mod_eq [of epoch 86400] by linarith
  ultimately show ?thesis unfolding parse_rfc1123_def trim Let_def
    unfolding f weekday_facts(2) [OF k]
    using weekday_facts(1) [OF k] by (simp add: split zone days wrap_i64_id [OF e])
qed

text \<open>Midnight of 29 February 2000.\<close>

theorem rfc1123_roundtrip_witness:
  "format_imf_fixdate 951782400 = ''Tue, 29 Feb 2000 00:00:00 GMT'' \<and>
   parse_rfc1123 (format_imf_fixdate 951782400) = Inr 951782400"
proof -
  have 1: "in_i64 951782400" by code_simp
  have 2: "case civil_from_days (951782400 div 86400) of (y, _) \<Rightarrow> 0 \<le> y \<and> y \<le> 9999" by code_simp
  have 3: "format_imf_fixdate 951782400 = ''Tue, 29 Feb 2000 00:00:00 GMT''" by code_simp
  from 3 rfc1123_roundtrip [OF 1 2] show ?thesis by simp
qed

section \<open>The domain a script asks for\<close>

text \<open>What the rule says of a requested domain, whatever line carries it.\<close>

definition scope_ok :: "string option \<Rightarrow> string \<Rightarrow> bool" where
  "scope_ok domain request_host \<longleftrightarrow>
     (case domain of
        None \<Rightarrow> True
      | Some v \<Rightarrow>
          (let d = to_ascii_lowercase (dropWhile (\<lambda>c. c = CHR ''.'') (trim v))
           in d = [] \<or> CHR ''.'' \<in> set d \<or> d = to_ascii_lowercase (trim request_host)))"

definition cookie_attrs :: "k6_cookie_options \<Rightarrow> string option \<Rightarrow> string list" where
  "cookie_attrs opts expires =
     (let attr = (\<lambda>key v. case v of None \<Rightarrow> [] | Some x \<Rightarrow> [key @ ''='' @ x]) in
      attr ''Path'' (nonempty (opt_path opts)) @ attr ''Domain'' (nonempty (opt_domain opts)) @
      attr ''Expires'' expires @ attr ''Max-Age'' (map_option show_int (opt_max_age opts)) @
      (if opt_secure opts = Some True then [''Secure''] else []) @
      (if opt_http_only opts = Some True then [''HttpOnly''] else []))"

lemma lower_char_dot [simp]: "lower_char c = CHR ''.'' \<longleftrightarrow> c = CHR ''.''"
proof
  assume a: "lower_char c = CHR ''.''"
  then have "of_char (lower_char c) = (46 :: nat)" by simp
  then show "c = CHR ''.''" using a by (cases "65 \<le> (of_char c :: nat) \<and> (of_char c :: nat) \<le> 90") (auto simp: lower_char_def Let_def)
qed (simp add: lower_char_def)

lemma dropWhile_lower:
  "dropWhile (\<lambda>c. c = CHR ''.'') (to_ascii_lowercase (dropWhile (\<lambda>c. c = CHR ''.'') s)) =
   to_ascii_lowercase (dropWhile (\<lambda>c. c = CHR ''.'') s)"
proof (rule dropWhile_hd)
  let ?d = "dropWhile (\<lambda>c. c = CHR ''.'') s"
  show "to_ascii_lowercase ?d = [] \<or> hd (to_ascii_lowercase ?d) \<noteq> CHR ''.''"
    using hd_dropWhile [of "\<lambda>c. c = CHR ''.''" s] by (cases ?d) (simp_all add: to_ascii_lowercase_def)
qed

lemma acceptable_scope:
  "set_cookie_is_acceptable line h \<longleftrightarrow> scope_ok (domain_attribute line) h"
  by (auto simp: set_cookie_is_acceptable_def scope_ok_def is_likely_public_suffix_def Let_def dropWhile_lower
           split: option.split)

lemma split_attrs:
  assumes "CHR '';'' \<notin> set a" "list_all (\<lambda>p. CHR '';'' \<notin> set p) ps"
  shows "split_on (CHR '';'') (a @ concat (map (\<lambda>p. ''; '' @ p) ps)) = a # map (\<lambda>p. CHR '' '' # p) ps"
  using assms
proof (induction ps arbitrary: a)
  case (Cons p ps)
  then have "split_on (CHR '';'') ((CHR '' '' # p) @ concat (map (\<lambda>p. ''; '' @ p) ps)) = (CHR '' '' # p) # map (\<lambda>p. CHR '' '' # p) ps"
    by (intro Cons.IH) simp_all
  then show ?case using split_on_append [OF Cons.prems(1)] by simp
qed (simp add: split_on_absent)

lemma find_map_append: "find_map f (xs @ ys) = (case find_map f xs of Some y \<Rightarrow> Some y | None \<Rightarrow> find_map f ys)"
  by (induction xs) (simp_all split: option.split)

lemma lower_d: "lower_char (CHR ''D'') = CHR ''d''" by code_simp

lemma part_domain:
  "domain_of_part (CHR '' '' # ''Path='' @ x) = None" "domain_of_part (CHR '' '' # ''Expires='' @ x) = None"
  "domain_of_part (CHR '' '' # ''Max-Age='' @ x) = None" "domain_of_part (CHR '' '' # ''Domain='' @ x) = Some x"
  "domain_of_part '' Secure'' = None" "domain_of_part '' HttpOnly'' = None"
  unfolding domain_of_part_def
  by (simp_all add: trim_def trim_start_def trim_end_def is_ws_def to_ascii_lowercase_def lower_d)
     (simp_all add: lower_char_def)

lemma domain_of_attrs:
  "find_map domain_of_part (map (\<lambda>p. CHR '' '' # p) (cookie_attrs opts expires)) = nonempty (opt_domain opts)"
  by (simp add: cookie_attrs_def find_map_append part_domain [simplified] split: option.split)

lemma build_set_cookie_line:
  "build_set_cookie cookie v opts = Inr line \<longleftrightarrow>
   (\<exists>expires. line = (cookie @ ''='' @ v) @ concat (map (\<lambda>p. ''; '' @ p) (cookie_attrs opts expires)) \<and>
      (case nonempty (opt_expires opts) of
         None \<Rightarrow> expires = None
       | Some e \<Rightarrow> \<exists>epoch. parse_rfc1123 e = Inr epoch \<and> expires = Some (format_imf_fixdate epoch)))"
proof -
  have "cookie @ ''='' @ v @ attribute ''Path'' (nonempty (opt_path opts)) @
           attribute ''Domain'' (nonempty (opt_domain opts)) @ attribute ''Expires'' expires @
           attribute ''Max-Age'' (map_option show_int (opt_max_age opts)) @
           (if opt_secure opts = Some True then ''; Secure'' else []) @
           (if opt_http_only opts = Some True then ''; HttpOnly'' else []) =
        (cookie @ ''='' @ v) @ concat (map (\<lambda>p. ''; '' @ p) (cookie_attrs opts expires))" for expires
    unfolding cookie_attrs_def attribute_def Let_def
    by (simp split: option.split)
  then show ?thesis
    unfolding build_set_cookie_def by (cases "nonempty (opt_expires opts)") auto
qed

lemma zero_pad_chars: "c \<in> set (zero_pad w i) \<Longrightarrow> c = CHR ''-'' \<or> (48 \<le> (of_char c :: nat) \<and> (of_char c :: nat) \<le> 57)"
  using show_nat_char_range [of c "nat \<bar>i\<bar>"] by (auto simp: zero_pad_def Let_def split: if_splits)

lemma zero_pad_no_semi: "CHR '';'' \<notin> set (zero_pad w i)"
  using zero_pad_chars [of "CHR '';''" w i] by auto

lemma show_int_no_semi: "CHR '';'' \<notin> set (show_int i)"
  using show_nat_char_range [of "CHR '';''"] by (auto simp: show_int_def)

lemma fixdate_no_semi: "CHR '';'' \<notin> set (format_imf_fixdate epoch)"
proof -
  obtain y m d where c: "civil_from_days (epoch div 86400) = (y, m, d)" by (cases "civil_from_days (epoch div 86400)")
  have "1 \<le> m" "m \<le> 12" using days_of_civil_of_days [of "epoch div 86400"] by (simp_all add: c valid_date_def)
  from months_upto [OF this] have m: "CHR '';'' \<notin> set (MONTHS ! nat (m - 1))"
    by (elim insertE emptyE; simp add: MONTHS_def)
  have "nat ((epoch div 86400 + 4) mod 7) < 7" by (simp add: nat_less_iff)
  from weekday_cases [OF this] have "CHR '';'' \<notin> set (WEEKDAYS ! nat ((epoch div 86400 + 4) mod 7))"
    by (elim insertE emptyE; simp)
  then show ?thesis by (simp add: format_imf_fixdate_def c m zero_pad_no_semi Let_def)
qed

definition no_semi :: "string option \<Rightarrow> bool" where
  "no_semi v = (case v of None \<Rightarrow> True | Some x \<Rightarrow> CHR '';'' \<notin> set x)"

lemma cookie_attrs_no_semi:
  assumes "no_semi (opt_path opts)" "no_semi (opt_domain opts)" "no_semi expires"
  shows "list_all (\<lambda>p. CHR '';'' \<notin> set p) (cookie_attrs opts expires)"
proof -
  have n: "nonempty v = Some x \<Longrightarrow> v = Some x" for v x
    by (auto simp: nonempty_def split: option.splits list.splits)
  show ?thesis using assms
    by (auto simp: cookie_attrs_def no_semi_def Let_def show_int_no_semi split: option.split dest!: n)
qed


text \<open>
  A jar that is the list of the lines it was given, every URL parsing to itself and being its own
  host: a cookie for all of \<^verbatim>\<open>.com\<close> is refused, and one for the host's parent domain is stored.
\<close>

definition toy_opts :: "string \<Rightarrow> k6_cookie_options" where
  "toy_opts d = \<lparr>opt_domain = Some d, opt_path = Some ''/'', opt_expires = None, opt_max_age = Some 60,
     opt_secure = Some True, opt_http_only = None\<rparr>"

definition toy_set :: "string \<Rightarrow> jar_error + string list" where
  "toy_set d = set_cookie Inr Some (\<lambda>jar line u. line # jar) [] ''api.example.com'' ''sid'' ''1'' (toy_opts d)"


section \<open>Clearing, the registry, and accepted oddities\<close>

lemma clear_expires_each:
  assumes "parse url = Inr u"
  shows "clear_cookies parse sends (\<lambda>jar line u. jar @ [(line, u)]) lines url =
    bindE (cookies_for_url parse sends lines url) (\<lambda>m. Inr (lines @ map (\<lambda>(n, _). (n @ ''=; Max-Age=-1'', u)) m))"
proof -
  have "fold (\<lambda>(n, _) j. j @ [(n @ ''=; Max-Age=-1'', u)]) m lines = lines @ map (\<lambda>(n, _). (n @ ''=; Max-Age=-1'', u)) m"
    for m :: "(string \<times> string list) list" and lines
    by (induction m arbitrary: lines) auto
  then show ?thesis using assms by (simp add: clear_cookies_def)
qed

lemma registry_laws:
  "vu_jar_for_client k (register_vu_jar k j reg) = Some j"
  "k \<noteq> k' \<Longrightarrow> vu_jar_for_client k (register_vu_jar k' j reg) = vu_jar_for_client k reg"
  "vu_jar_for_client k (unregister_vu_jar k reg) = None"
  "k \<noteq> k' \<Longrightarrow> vu_jar_for_client k (unregister_vu_jar k' reg) = vu_jar_for_client k reg"
  by (induction reg) (auto simp: vu_jar_for_client_def register_vu_jar_def unregister_vu_jar_def)

lemma registry_pairs:
  assumes "k \<notin> fst ` set reg"
  shows "unregister_vu_jar k (register_vu_jar k j reg) = reg"
proof -
  have "filter (\<lambda>(x, _). x \<noteq> k) reg = reg" using assms by (intro filter_True) force
  then show ?thesis using assms by (simp add: unregister_vu_jar_def register_vu_jar_def upsert_absent)
qed

lemma second_domain_unseen: "set_cookie_is_acceptable ''sid=leaked; Domain=example.com; Domain=com'' ''evil.com''"
  by code_simp

lemma suffix_with_dot_accepted: "set_cookie_is_acceptable ''sid=leaked; Domain=com.'' ''evil.com''"
  by code_simp

lemma february_31_accepted:
  "parse_rfc1123 ''Mon, 31 Feb 2000 00:00:00 GMT'' = parse_rfc1123 ''Thu, 02 Mar 2000 00:00:00 GMT''"
  by code_simp

lemma negative_hour_accepted:
  "parse_rfc1123 ''Sat, 01 Jan 2000 -5:00:00 GMT'' = parse_rfc1123 ''Fri, 31 Dec 1999 19:00:00 GMT''"
  by code_simp

lemma multibyte_zone_panics:
  "parse_rfc1123 (''Sat, 01 Jan 2000 00:00:00 '' @ [CHR 0xC3, CHR 0xA9]) = Inl (Jar_panic [CHR 0xC3, CHR 0xA9])"
  by code_simp

end
