(* ===== verification/Ip_Addr.thy ===== *)
theory Ip_Addr
  imports Prelude "HOL-Library.Word"
begin

unbundle bit_operations_syntax

text \<open>
  IP addresses and the address blocks of \<^verbatim>\<open>blacklistIPs\<close>: \<^verbatim>\<open>IpCidr::parse\<close>, \<^verbatim>\<open>IpCidr::contains\<close>,
  \<^verbatim>\<open>parse_blacklist\<close> and \<^verbatim>\<open>SSRF_BLOCKLIST\<close> of \<^verbatim>\<open>crates/tropel-http/src/dns.rs\<close>, over the address types and
  the address parsers of Rust's standard library. An address is a word of its width.
\<close>

section \<open>Addresses\<close>

datatype ip_addr = V4 "32 word" | V6 "128 word"

fun is_v4 :: "ip_addr \<Rightarrow> bool" where
  "is_v4 (V4 _) = True" | "is_v4 (V6 _) = False"

text \<open>\<^verbatim>\<open>to_canonical\<close>: \<^verbatim>\<open>::ffff:a.b.c.d\<close> is the IPv4 address \<^verbatim>\<open>a.b.c.d\<close>.\<close>

fun to_canonical :: "ip_addr \<Rightarrow> ip_addr" where
  "to_canonical (V4 w) = V4 w"
| "to_canonical (V6 w) = (if drop_bit 32 w = 0xFFFF then V4 (ucast w) else V6 w)"

record sock_addr =
  sock_ip :: ip_addr
  sock_port :: nat
  sock_scope :: nat

section \<open>The standard parsers\<close>

text \<open>
  A parser reads a prefix of its input and returns the rest. A number has as many digits as the
  input offers; it fails when they are more than allowed or the value is out of range.
\<close>

definition hex_val :: "char \<Rightarrow> nat option" where
  "hex_val c =
     (let n = (of_char c :: nat) in
      if 48 \<le> n \<and> n \<le> 57 then Some (n - 48)
      else if 97 \<le> n \<and> n \<le> 102 then Some (n - 87)
      else if 65 \<le> n \<and> n \<le> 70 then Some (n - 55)
      else None)"

definition digits_in :: "nat \<Rightarrow> string \<Rightarrow> string" where
  "digits_in radix s = takeWhile (\<lambda>c. case hex_val c of None \<Rightarrow> False | Some d \<Rightarrow> d < radix) s"

definition read_number :: "nat \<Rightarrow> nat option \<Rightarrow> bool \<Rightarrow> nat \<Rightarrow> string \<Rightarrow> (nat \<times> string) option" where
  "read_number radix max_digits allow_zero_prefix hi s =
     (let ds = digits_in radix s;
          v = fold (\<lambda>c acc. acc * radix + the (hex_val c)) ds 0
      in if ds = [] then None
         else if (case max_digits of None \<Rightarrow> False | Some k \<Rightarrow> k < length ds) then None
         else if \<not> allow_zero_prefix \<and> hd ds = CHR ''0'' \<and> 1 < length ds then None
         else if hi < v then None
         else Some (v, drop (length ds) s))"

definition read_char :: "char \<Rightarrow> string \<Rightarrow> string option" where
  "read_char c s = (case s of [] \<Rightarrow> None | d # ds \<Rightarrow> if d = c then Some ds else None)"

definition read_octet :: "string \<Rightarrow> (nat \<times> string) option" where
  "read_octet = read_number 10 (Some 3) False 255"

definition read_ipv4 :: "string \<Rightarrow> (32 word \<times> string) option" where
  "read_ipv4 s =
     Option.bind (read_octet s) (\<lambda>(a, s).
     Option.bind (Option.bind (read_char (CHR ''.'') s) read_octet) (\<lambda>(b, s).
     Option.bind (Option.bind (read_char (CHR ''.'') s) read_octet) (\<lambda>(c, s).
     Option.bind (Option.bind (read_char (CHR ''.'') s) read_octet) (\<lambda>(d, s).
       Some (word_of_nat (((a * 256 + b) * 256 + c) * 256 + d), s)))))"

definition separated :: "nat \<Rightarrow> string \<Rightarrow> string option" where
  "separated i s = (if 0 < i then read_char (CHR '':'') s else Some s)"

text \<open>
  \<open>read_groups i n s\<close> reads groups number \<open>i\<close>, \<open>i + 1\<close>, \<dots> of at most \<open>n\<close> more; the flag says that
  the last two came from an embedded IPv4 address.
\<close>

fun read_groups :: "nat \<Rightarrow> nat \<Rightarrow> string \<Rightarrow> nat list \<times> bool \<times> string" where
  "read_groups i 0 s = ([], False, s)"
| "read_groups i (Suc n) s =
     (case (if 1 \<le> n then Option.bind (separated i s) read_ipv4 else None) of
        Some (w, r) \<Rightarrow> ([unat w div 65536, unat w mod 65536], True, r)
      | None \<Rightarrow>
          (case Option.bind (separated i s) (read_number 16 (Some 4) True 65535) of
             None \<Rightarrow> ([], False, s)
           | Some (g, r) \<Rightarrow> (let (gs, v4, r') = read_groups (Suc i) n r in (g # gs, v4, r'))))"

definition v6_of_groups :: "nat list \<Rightarrow> 128 word" where
  "v6_of_groups gs = word_of_nat (fold (\<lambda>g acc. acc * 65536 + g) gs 0)"

definition read_ipv6 :: "string \<Rightarrow> (128 word \<times> string) option" where
  "read_ipv6 s =
     (let (head, v4, r) = read_groups 0 8 s in
      if length head = 8 then Some (v6_of_groups head, r)
      else if v4 then None
      else Option.bind (Option.bind (read_char (CHR '':'') r) (read_char (CHR '':''))) (\<lambda>r.
        let (tail, _, r') = read_groups 0 (8 - (length head + 1)) r
        in Some (v6_of_groups (head @ replicate (8 - length head - length tail) 0 @ tail), r')))"

definition read_ip :: "string \<Rightarrow> (ip_addr \<times> string) option" where
  "read_ip s =
     (case read_ipv4 s of
        Some (w, r) \<Rightarrow> Some (V4 w, r)
      | None \<Rightarrow> map_option (\<lambda>(w, r). (V6 w, r)) (read_ipv6 s))"

definition whole :: "('a \<times> string) option \<Rightarrow> 'a option" where
  "whole v = (case v of Some (x, []) \<Rightarrow> Some x | _ \<Rightarrow> None)"

definition parse_ip :: "string \<Rightarrow> ip_addr option" where
  "parse_ip s = whole (read_ip s)"

definition read_port :: "string \<Rightarrow> (nat \<times> string) option" where
  "read_port s = Option.bind (read_char (CHR '':'') s) (read_number 10 None True 65535)"

definition read_sock_v4 :: "string \<Rightarrow> (sock_addr \<times> string) option" where
  "read_sock_v4 s =
     Option.bind (read_ipv4 s) (\<lambda>(w, s). Option.bind (read_port s) (\<lambda>(p, s).
       Some (\<lparr>sock_ip = V4 w, sock_port = p, sock_scope = 0\<rparr>, s)))"

definition read_scope :: "string \<Rightarrow> nat \<times> string" where
  "read_scope s =
     (case Option.bind (read_char (CHR ''%'') s) (read_number 10 None True u32_max) of
        Some x \<Rightarrow> x | None \<Rightarrow> (0, s))"

definition read_sock_v6 :: "string \<Rightarrow> (sock_addr \<times> string) option" where
  "read_sock_v6 s =
     Option.bind (Option.bind (read_char (CHR ''['') s) read_ipv6) (\<lambda>(w, s).
       let (sc, s) = read_scope s in
       Option.bind (Option.bind (read_char (CHR '']'') s) read_port) (\<lambda>(p, s).
         Some (\<lparr>sock_ip = V6 w, sock_port = p, sock_scope = sc\<rparr>, s)))"

definition parse_sock :: "string \<Rightarrow> sock_addr option" where
  "parse_sock s = whole (case read_sock_v4 s of Some x \<Rightarrow> Some x | None \<Rightarrow> read_sock_v6 s)"

section \<open>Address blocks\<close>

record ip_cidr =
  cidr_base :: ip_addr
  cidr_prefix :: nat

definition cidr_parse :: "string \<Rightarrow> ip_cidr option" where
  "cidr_parse s0 =
     (let s = trim s0 in
      Option.bind
        (case split_once (CHR ''/'') s of
           Some (ip, p) \<Rightarrow> map_option (\<lambda>n. (ip, n)) (parse_unsigned 255 (trim p))
         | None \<Rightarrow> Some (s, if CHR '':'' \<in> set s then 128 else 32))
        (\<lambda>(ip_part, prefix).
           Option.bind (parse_ip (trim ip_part)) (\<lambda>ip.
             let max_prefix = (if is_v4 ip then 32 else 128) in
             if max_prefix < prefix then None
             else Some \<lparr>cidr_base = ip, cidr_prefix = prefix\<rparr>)))"

text \<open>\<^verbatim>\<open>MAX.checked_shl(w - prefix).unwrap_or(0)\<close>, with the all-ones mask from the full width on.\<close>

definition prefix_mask :: "nat \<Rightarrow> 'a :: len word" where
  "prefix_mask prefix =
     (if LENGTH('a) \<le> prefix then - 1
      else if LENGTH('a) - prefix < LENGTH('a) then push_bit (LENGTH('a) - prefix) (- 1)
      else 0)"

definition cidr_contains :: "ip_cidr \<Rightarrow> ip_addr \<Rightarrow> bool" where
  "cidr_contains c ip =
     (case (to_canonical (cidr_base c), to_canonical ip) of
        (V4 base, V4 ip) \<Rightarrow>
          (let prefix = (if is_v4 (cidr_base c) then cidr_prefix c else min (cidr_prefix c - 96) 32);
               mask = prefix_mask prefix
           in base AND mask = ip AND mask)
      | (V6 base, V6 ip) \<Rightarrow>
          (let mask = prefix_mask (cidr_prefix c) in base AND mask = ip AND mask)
      | _ \<Rightarrow> False)"

definition parse_blacklist :: "string list \<Rightarrow> ip_cidr list" where
  "parse_blacklist blacklist_ips = List.map_filter cidr_parse blacklist_ips"

definition SSRF_BLOCKLIST :: "string list" where
  "SSRF_BLOCKLIST =
     [''127.0.0.0/8'', ''10.0.0.0/8'', ''172.16.0.0/12'', ''192.168.0.0/16'', ''169.254.0.0/16'',
      ''100.64.0.0/10'', ''0.0.0.0/8'', ''224.0.0.0/4'', ''240.0.0.0/4'', ''255.255.255.255/32'',
      ''::1/128'', ''::/128'', ''fc00::/7'', ''fe80::/10'']"

definition blacklisted :: "ip_cidr list \<Rightarrow> ip_addr \<Rightarrow> bool" where
  "blacklisted bl ip \<longleftrightarrow> list_ex (\<lambda>c. cidr_contains c ip) bl"

section \<open>A block is a prefix\<close>

lemma and_mask_iff:
  fixes a b :: "'a :: len word"
  shows "a AND NOT (mask n) = b AND NOT (mask n) \<longleftrightarrow> drop_bit n a = drop_bit n b"
proof
  assume e: "a AND NOT (mask n) = b AND NOT (mask n)"
  show "drop_bit n a = drop_bit n b"
  proof (rule bit_word_eqI)
    fix k assume "k < LENGTH('a)"
    have "bit (a AND NOT (mask n)) (n + k) = bit (b AND NOT (mask n)) (n + k)" using e by simp
    then show "bit (drop_bit n a) k = bit (drop_bit n b) k"
      by (auto simp: bit_simps dest: bit_imp_le_length)
  qed
next
  assume e: "drop_bit n a = drop_bit n b"
  show "a AND NOT (mask n) = b AND NOT (mask n)"
  proof (rule bit_word_eqI)
    fix k assume "k < LENGTH('a)"
    have "bit (drop_bit n a) (k - n) = bit (drop_bit n b) (k - n)" using e by simp
    then show "bit (a AND NOT (mask n)) k = bit (b AND NOT (mask n)) k"
      by (auto simp: bit_simps)
  qed
qed

lemma prefix_mask_iff:
  fixes a b :: "'a :: len word"
  shows "a AND prefix_mask p = b AND prefix_mask p \<longleftrightarrow> drop_bit (LENGTH('a) - p) a = drop_bit (LENGTH('a) - p) b"
proof -
  consider "LENGTH('a) \<le> p" | "0 < p" "p < LENGTH('a)" | "p = 0" by linarith
  then show ?thesis
  proof cases
    case 3
    have "drop_bit LENGTH('a) w = 0" for w :: "'a word"
      by (rule bit_word_eqI) (auto simp: bit_simps dest: bit_imp_le_length)
    then show ?thesis using 3 by (simp add: prefix_mask_def)
  qed (simp_all add: prefix_mask_def and_mask_iff)
qed

text \<open>The number of leading bits of the canonical address that a block fixes.\<close>

definition canonical_prefix :: "ip_cidr \<Rightarrow> nat" where
  "canonical_prefix c =
     (if is_v4 (to_canonical (cidr_base c)) \<and> \<not> is_v4 (cidr_base c) then min (cidr_prefix c - 96) 32
      else cidr_prefix c)"

definition same_prefix :: "nat \<Rightarrow> ip_addr \<Rightarrow> ip_addr \<Rightarrow> bool" where
  "same_prefix p a b =
     (case (a, b) of
        (V4 x, V4 y) \<Rightarrow> drop_bit (32 - p) x = drop_bit (32 - p) y
      | (V6 x, V6 y) \<Rightarrow> drop_bit (128 - p) x = drop_bit (128 - p) y
      | _ \<Rightarrow> False)"

lemma cidr_contains_iff:
  "cidr_contains c ip \<longleftrightarrow> same_prefix (canonical_prefix c) (to_canonical (cidr_base c)) (to_canonical ip)"
  by (auto simp: cidr_contains_def same_prefix_def canonical_prefix_def prefix_mask_iff Let_def
           split: ip_addr.split)

text \<open>
  A block contains exactly the addresses whose canonical form is of the same family and agrees with
  the base on the leading bits the prefix counts.
\<close>

theorem cidr_contains_prefix:
  "cidr_contains c ip \<longleftrightarrow> same_prefix (canonical_prefix c) (to_canonical (cidr_base c)) (to_canonical ip)"
  by (rule cidr_contains_iff)

section \<open>The server-side request forgery guard\<close>

lemma ssrf_parsed:
  "parse_blacklist SSRF_BLOCKLIST =
     map (\<lambda>(w, p). \<lparr>cidr_base = V4 w, cidr_prefix = p\<rparr>)
       [(0x7F000000, 8), (0x0A000000, 8), (0xAC100000, 12), (0xC0A80000, 16), (0xA9FE0000, 16),
        (0x64400000, 10), (0, 8), (0xE0000000, 4), (0xF0000000, 4), (0xFFFFFFFF, 32)] @
     map (\<lambda>(w, p). \<lparr>cidr_base = V6 w, cidr_prefix = p\<rparr>)
       [(1, 128), (0, 128), (0xFC000000000000000000000000000000, 7), (0xFE800000000000000000000000000000, 10)]"
  by code_simp

text \<open>
  The IPv4 ranges the list means: this network, private, loopback, shared, link-local, multicast
  and reserved addresses.
\<close>

definition non_public_v4 :: "32 word \<Rightarrow> bool" where
  "non_public_v4 w \<longleftrightarrow>
     drop_bit 24 w = 0 \<or> drop_bit 24 w = 10 \<or> drop_bit 24 w = 127 \<or> drop_bit 20 w = 0xAC1 \<or>
     drop_bit 16 w = 0xC0A8 \<or> drop_bit 16 w = 0xA9FE \<or> drop_bit 22 w = 0x191 \<or>
     drop_bit 28 w = 14 \<or> drop_bit 28 w = 15"

definition non_public_v6 :: "128 word \<Rightarrow> bool" where
  "non_public_v6 w \<longleftrightarrow> w = 0 \<or> w = 1 \<or> drop_bit 121 w = 0x7E \<or> drop_bit 118 w = 0x3FA"

definition non_public :: "ip_addr \<Rightarrow> bool" where
  "non_public ip = (case to_canonical ip of V4 w \<Rightarrow> non_public_v4 w | V6 w \<Rightarrow> non_public_v6 w)"

lemma v4_block:
  "cidr_contains \<lparr>cidr_base = V4 b, cidr_prefix = p\<rparr> ip \<longleftrightarrow>
   (case to_canonical ip of V4 w \<Rightarrow> drop_bit (32 - p) w = drop_bit (32 - p) b | V6 _ \<Rightarrow> False)"
  by (auto simp: cidr_contains_iff same_prefix_def canonical_prefix_def split: ip_addr.split)

lemma v6_block:
  "drop_bit 32 b \<noteq> 0xFFFF \<Longrightarrow> cidr_contains \<lparr>cidr_base = V6 b, cidr_prefix = p\<rparr> ip \<longleftrightarrow>
   (case to_canonical ip of V6 w \<Rightarrow> drop_bit (128 - p) w = drop_bit (128 - p) b | V4 _ \<Rightarrow> False)"
  by (auto simp: cidr_contains_iff same_prefix_def canonical_prefix_def split: ip_addr.split)

lemma ssrf_v4_starts:
  "drop_bit 24 (0x7F000000 :: 32 word) = 127" "drop_bit 24 (0x0A000000 :: 32 word) = 10"
  "drop_bit 20 (0xAC100000 :: 32 word) = 0xAC1" "drop_bit 16 (0xC0A80000 :: 32 word) = 0xC0A8"
  "drop_bit 16 (0xA9FE0000 :: 32 word) = 0xA9FE" "drop_bit 22 (0x64400000 :: 32 word) = 0x191"
  "drop_bit 28 (0xE0000000 :: 32 word) = 14" "drop_bit 28 (0xF0000000 :: 32 word) = 15"
  "drop_bit 28 (0xFFFFFFFF :: 32 word) = 15"
  by code_simp+

lemma ssrf_v6_starts:
  "drop_bit 32 (1 :: 128 word) \<noteq> 0xFFFF" "drop_bit 32 (0 :: 128 word) \<noteq> 0xFFFF"
  "drop_bit 32 (0xFC000000000000000000000000000000 :: 128 word) \<noteq> 0xFFFF"
  "drop_bit 32 (0xFE800000000000000000000000000000 :: 128 word) \<noteq> 0xFFFF"
  "drop_bit 121 (0xFC000000000000000000000000000000 :: 128 word) = 0x7E"
  "drop_bit 118 (0xFE800000000000000000000000000000 :: 128 word) = 0x3FA"
  by code_simp+

lemma v6_widths: "128 - 128 = (0::nat)" "128 - 7 = (121::nat)" "128 - 10 = (118::nat)"
  by simp_all

lemma list_ex_simp_rules: "list_ex P [] = False" "list_ex P (x # xs) = (P x \<or> list_ex P xs)"
  by simp_all

lemma v4_widths: "32 - 4 = (28::nat)" "32 - 8 = (24::nat)" "32 - 10 = (22::nat)" "32 - 12 = (20::nat)"
  "32 - 16 = (16::nat)" "32 - 32 = (0::nat)"
  by simp_all

lemmas ssrf_unfold = list.map append.simps list_ex_simp_rules prod.case v4_block v4_widths v6_widths


text \<open>
  A block written in the IPv4-mapped form with fewer than 96 bits means IPv4 addresses only: it
  holds no IPv6 address, whatever its bits.
\<close>

lemma short_mapped_block:
  "map_option (\<lambda>c. (cidr_contains c (V6 1), cidr_contains c (V4 1))) (cidr_parse ''::ffff:0:0/64'') = Some (False, True)"
  by code_simp

end
