(* ===== verification/Dns.thy ===== *)
theory Dns
  imports Ip_Addr Assoc "HOL-Library.Multiset"
begin

text \<open>
  The DNS resolver of \<^verbatim>\<open>crates/tropel-http/src/dns.rs\<close>: its options (\<^verbatim>\<open>from_config\<close>), the static
  \<^verbatim>\<open>hosts\<close> map, the address-family policy, the selection of addresses, the cache and \<^verbatim>\<open>resolve\<close>. A
  \<^verbatim>\<open>HashMap\<close> is an association list, whose order stands for the hash order. The network lookup and
  \<^verbatim>\<open>tropel_sdk::parse_duration\<close> are parameters; an \<^verbatim>\<open>Instant\<close> is a number of nanoseconds and a
  \<^verbatim>\<open>usize\<close> has 64 bits. \<^verbatim>\<open>resolve\<close> awaits the network, so it is two operations, before and after
  the answer, which other requests may interleave with.
\<close>

section \<open>Options\<close>

datatype dns_cache_mode = Cache_off | Cache_ttl nat | Cache_forever
datatype dns_select = Select_first | Round_robin | Select_random
datatype dns_policy = Any_family | Prefer_v4 | Prefer_v6 | Only_v4 | Only_v6

record cache_entry =
  entry_addrs :: "sock_addr list"
  expires_at :: "nat option"

record dns_shared =
  cache_mode :: dns_cache_mode
  select :: dns_select
  policy :: dns_policy
  hosts :: "(string \<times> sock_addr list) list"
  blacklist :: "ip_cidr list"
  cache_store :: "(string \<times> cache_entry) list"
  rotation :: "(string \<times> nat) list"

record dns_config =
  dns_ttl :: "string option"
  dns_select :: "string option"
  dns_policy :: "string option"
  cfg_hosts :: "(string \<times> string) list"
  blacklist_ips :: "string list"

definition K6_DEFAULT_TTL :: nat where "K6_DEFAULT_TTL = 300000000000"
definition MAX_CACHE_ENTRIES :: nat where "MAX_CACHE_ENTRIES = 4096"

definition parse_cache_mode :: "(string \<Rightarrow> nat option) \<Rightarrow> string option \<Rightarrow> dns_cache_mode" where
  "parse_cache_mode parse_duration s =
     (case s of
        None \<Rightarrow> Cache_off
      | Some raw \<Rightarrow>
          (let t = to_ascii_lowercase (trim raw) in
           if t \<in> set [''0'', ''0s'', ''off'', ''none'', ''disabled''] then Cache_off
           else if t \<in> set [''inf'', ''infinite'', ''forever''] then Cache_forever
           else case parse_duration t of Some d \<Rightarrow> Cache_ttl d | None \<Rightarrow> Cache_off))"

definition parse_host_addr :: "string \<Rightarrow> sock_addr option" where
  "parse_host_addr s0 =
     (let s = trim s0;
          bare = map_option (\<lambda>ip. \<lparr>sock_ip = ip, sock_port = 0, sock_scope = 0\<rparr>) (parse_ip s)
      in case parse_sock s of
           Some sa \<Rightarrow> if sock_port sa \<noteq> 0 then Some sa else bare
         | None \<Rightarrow> bare)"

definition add_host :: "string \<times> string \<Rightarrow> (string \<times> sock_addr list) list \<Rightarrow> (string \<times> sock_addr list) list" where
  "add_host = (\<lambda>(host, v) out.
     let addrs = List.map_filter parse_host_addr (split_on (CHR '','') v) in
     if addrs = [] then out else upsert (to_ascii_lowercase (trim host)) (\<lambda>_. addrs) addrs out)"

definition parse_hosts :: "(string \<times> string) list \<Rightarrow> (string \<times> sock_addr list) list" where
  "parse_hosts m = fold add_host m []"

definition from_config :: "(string \<Rightarrow> nat option) \<Rightarrow> dns_config \<Rightarrow> dns_shared" where
  "from_config parse_duration config =
     \<lparr>cache_mode = (case dns_ttl config of
          Some ttl \<Rightarrow> parse_cache_mode parse_duration (Some ttl)
        | None \<Rightarrow> Cache_ttl K6_DEFAULT_TTL),
      select = (case map_option to_ascii_lowercase (dns_select config) of
          Some v \<Rightarrow> if v \<in> set [''roundrobin'', ''round_robin'', ''round-robin''] then Round_robin else Select_random
        | None \<Rightarrow> Select_random),
      policy = (case map_option to_ascii_lowercase (dns_policy config) of
          Some v \<Rightarrow>
            if v \<in> set [''preferipv4'', ''prefer_ipv4''] then Prefer_v4
            else if v \<in> set [''preferipv6'', ''prefer_ipv6''] then Prefer_v6
            else if v \<in> set [''onlyipv4'', ''only_ipv4''] then Only_v4
            else if v \<in> set [''onlyipv6'', ''only_ipv6''] then Only_v6
            else Prefer_v4
        | None \<Rightarrow> Prefer_v4),
      hosts = parse_hosts (cfg_hosts config),
      blacklist = parse_blacklist (blacklist_ips config),
      cache_store = [],
      rotation = []\<rparr>"

section \<open>Static hosts\<close>

definition wildcard_suffix :: "string \<Rightarrow> string \<Rightarrow> string option" where
  "wildcard_suffix h key =
     (case strip_prefix ''*.'' key of
        None \<Rightarrow> None
      | Some suffix \<Rightarrow>
          (let dot_suffix = CHR ''.'' # suffix in
           if length dot_suffix < length h \<and> ends_with dot_suffix h then Some suffix else None))"

definition better_host :: "string \<Rightarrow> string \<times> 'v \<Rightarrow> (nat \<times> 'v) option \<Rightarrow> (nat \<times> 'v) option" where
  "better_host h = (\<lambda>(key, v) best. case wildcard_suffix h key of None \<Rightarrow> best
     | Some suffix \<Rightarrow> if (case best of None \<Rightarrow> True | Some (n, _) \<Rightarrow> n < length suffix)
                    then Some (length suffix, v) else best)"

definition hosts_lookup :: "(string \<times> sock_addr list) list \<Rightarrow> string \<Rightarrow> sock_addr list option" where
  "hosts_lookup hs host =
     (let h = to_ascii_lowercase host in
      case map_of hs h of
        Some v \<Rightarrow> Some v
      | None \<Rightarrow> map_option snd (fold (better_host h) hs None))"

section \<open>Policy and selection\<close>

definition apply_policy :: "dns_policy \<Rightarrow> sock_addr list \<Rightarrow> sock_addr list" where
  "apply_policy p addrs =
     (let v4 = (\<lambda>a. is_v4 (sock_ip a)) in
      case p of
        Any_family \<Rightarrow> addrs
      | Prefer_v4 \<Rightarrow> sort_key (\<lambda>a. \<not> v4 a) addrs
      | Prefer_v6 \<Rightarrow> sort_key v4 addrs
      | Only_v4 \<Rightarrow> filter v4 addrs
      | Only_v6 \<Rightarrow> filter (\<lambda>a. \<not> v4 a) addrs)"

definition pseudo_random :: "nat \<Rightarrow> nat" where
  "pseudo_random seed =
     (let x = word_of_nat seed + (0x9E3779B97F4A7C15 :: 64 word);
          x = x XOR drop_bit 30 x;
          x = x * 0xBF58476D1CE4E5B9;
          x = x XOR drop_bit 27 x;
          x = x * 0x94D049BB133111EB;
          x = x XOR drop_bit 31 x
      in unat x)"

definition select_addrs ::
    "string \<Rightarrow> sock_addr list \<Rightarrow> dns_select \<Rightarrow> (string \<times> nat) list \<Rightarrow> (string \<times> nat) list \<times> sock_addr list" where
  "select_addrs host addrs sel rot =
     (if sel = Select_first \<or> length addrs \<le> 1 then (rot, addrs)
      else
        (let n = (case map_of rot host of Some n \<Rightarrow> n | None \<Rightarrow> 0);
             k = (if sel = Round_robin then n mod length addrs else pseudo_random n mod length addrs)
         in (upsert host (\<lambda>n. wrap_u64 (n + 1)) 0 rot, rotate k addrs)))"

section \<open>The cache\<close>

definition cache_get :: "nat \<Rightarrow> dns_shared \<Rightarrow> string \<Rightarrow> sock_addr list option" where
  "cache_get now d host =
     (case cache_mode d of
        Cache_off \<Rightarrow> None
      | _ \<Rightarrow>
          (case map_of (cache_store d) host of
             None \<Rightarrow> None
           | Some entry \<Rightarrow>
               (let fresh = (case cache_mode d of
                      Cache_forever \<Rightarrow> True
                    | Cache_ttl _ \<Rightarrow> (case expires_at entry of Some e \<Rightarrow> now < e | None \<Rightarrow> False)
                    | Cache_off \<Rightarrow> False)
                in if fresh then Some (entry_addrs entry) else None)))"

text \<open>
  \<^verbatim>\<open>cache_put\<close> reads the clock three times: for the expiry of the new entry, to drop expired ones
  and for the horizon of the entries without an expiry.
\<close>

definition evict :: "nat \<Rightarrow> string \<Rightarrow> (string \<times> cache_entry) list \<Rightarrow> (string \<times> cache_entry) list" where
  "evict t_forever host store =
     (if MAX_CACHE_ENTRIES \<le> length store then
        (let forever = t_forever + 365 * 24 * 3600 * 100 * 1000000000;
             keys_by_expiry = sort_key snd
               (map (\<lambda>(k, e). (k, case expires_at e of Some t \<Rightarrow> t | None \<Rightarrow> forever))
                 (filter (\<lambda>(k, _). k \<noteq> host) store));
             to_remove = length store + 1 - MAX_CACHE_ENTRIES;
             gone = map fst (take to_remove keys_by_expiry)
         in filter (\<lambda>(k, _). k \<notin> set gone) store)
      else store)"

definition cache_put :: "nat \<Rightarrow> nat \<Rightarrow> nat \<Rightarrow> string \<Rightarrow> sock_addr list \<Rightarrow> dns_shared \<Rightarrow> dns_shared" where
  "cache_put t_expiry now t_forever host addrs d =
     (let insert_entry = (\<lambda>expiry.
            let live = filter (\<lambda>(_, e). case expires_at e of Some t \<Rightarrow> now < t | None \<Rightarrow> True) (cache_store d);
                entry = \<lparr>entry_addrs = addrs, expires_at = expiry\<rparr>
            in d\<lparr>cache_store := upsert host (\<lambda>_. entry) entry (evict t_forever host live)\<rparr>)
      in case cache_mode d of
           Cache_off \<Rightarrow> d
         | Cache_forever \<Rightarrow> insert_entry None
         | Cache_ttl t \<Rightarrow> if t = 0 then d else insert_entry (Some (t_expiry + t)))"

section \<open>Resolving\<close>

datatype dns_error = Permission_denied | Not_found | Addr_not_available | Lookup_failed string

definition drop_blacklisted :: "dns_shared \<Rightarrow> sock_addr list \<Rightarrow> dns_error + sock_addr list" where
  "drop_blacklisted d addrs =
     (if blacklist d = [] then Inr addrs
      else
        (let kept = filter (\<lambda>a. \<not> blacklisted (blacklist d) (sock_ip a)) addrs
         in if addrs \<noteq> [] \<and> kept = [] then Inl Permission_denied else Inr kept))"

definition selected :: "string \<Rightarrow> sock_addr list \<Rightarrow> dns_shared \<Rightarrow> dns_shared \<times> sock_addr list" where
  "selected host addrs d =
     (let (rot, chosen) = select_addrs host addrs (select d) (rotation d) in (d\<lparr>rotation := rot\<rparr>, chosen))"

text \<open>Before the network: the answer, or \<open>None\<close> when the name must be looked up.\<close>

definition resolve_local ::
    "nat \<Rightarrow> string \<Rightarrow> dns_shared \<Rightarrow> dns_shared \<times> (dns_error + sock_addr list) option" where
  "resolve_local now host d =
     (case hosts_lookup (hosts d) host of
        Some addrs \<Rightarrow>
          (case drop_blacklisted d addrs of
             Inl e \<Rightarrow> (d, Some (Inl e))
           | Inr kept \<Rightarrow> (let (d', chosen) = selected host kept d in (d', Some (Inr chosen))))
      | None \<Rightarrow>
          (case cache_get now d host of
             Some addrs \<Rightarrow> (let (d', chosen) = selected host addrs d in (d', Some (Inr chosen)))
           | None \<Rightarrow> (d, None)))"

definition resolve_answer ::
    "nat \<Rightarrow> nat \<Rightarrow> nat \<Rightarrow> string \<Rightarrow> dns_error + sock_addr list \<Rightarrow> dns_shared \<Rightarrow>
     dns_shared \<times> (dns_error + sock_addr list)" where
  "resolve_answer t_expiry now t_forever host result d =
     (case result of
        Inl e \<Rightarrow> (d, Inl e)
      | Inr addrs \<Rightarrow>
          if addrs = [] then (d, Inl Not_found)
          else
            (let addrs = apply_policy (policy d) addrs in
             if addrs = [] then (d, Inl Addr_not_available)
             else
               (case drop_blacklisted d addrs of
                  Inl e \<Rightarrow> (d, Inl e)
                | Inr kept \<Rightarrow>
                    (let (d', chosen) = selected host kept d in
                     (if chosen \<noteq> [] then cache_put t_expiry now t_forever host chosen d' else d', Inr chosen)))))"

datatype dns_event =
    Local nat string
  | Answer nat nat nat string "dns_error + sock_addr list"

fun dns_step :: "dns_event \<Rightarrow> dns_shared \<Rightarrow> dns_shared \<times> (dns_error + sock_addr list) option" where
  "dns_step (Local now host) d = resolve_local now host d"
| "dns_step (Answer t1 t2 t3 host result) d = (let (d', r) = resolve_answer t1 t2 t3 host result d in (d', Some r))"

text \<open>The answers given to the requests, in order, and the final state.\<close>

fun dns_run :: "dns_event list \<Rightarrow> dns_shared \<Rightarrow> dns_shared \<times> (dns_error + sock_addr list) option list" where
  "dns_run [] d = (d, [])"
| "dns_run (e # es) d = (let (d', r) = dns_step e d; (d'', rs) = dns_run es d' in (d'', r # rs))"

section \<open>The invariant\<close>

definition allowed :: "ip_cidr list \<Rightarrow> sock_addr list \<Rightarrow> bool" where
  "allowed bl addrs \<longleftrightarrow> addrs \<noteq> [] \<and> list_all (\<lambda>a. \<not> blacklisted bl (sock_ip a)) addrs"

definition dns_inv :: "ip_cidr list \<Rightarrow> dns_shared \<Rightarrow> bool" where
  "dns_inv bl d \<longleftrightarrow> blacklist d = bl \<and> (\<forall>(_, addrs) \<in> set (hosts d). addrs \<noteq> []) \<and>
     (\<forall>(_, e) \<in> set (cache_store d). allowed bl (entry_addrs e)) \<and>
     distinct (map fst (cache_store d)) \<and> length (cache_store d) \<le> MAX_CACHE_ENTRIES"

lemma drop_blacklisted_ok: "drop_blacklisted d addrs = Inr kept \<Longrightarrow> addrs \<noteq> [] \<Longrightarrow> allowed (blacklist d) kept"
  by (auto simp: drop_blacklisted_def allowed_def blacklisted_def list_all_iff Let_def split: if_splits)

lemma select_addrs_rotates:
  "\<exists>k. snd (select_addrs host addrs sel rot) = rotate k addrs"
  by (auto simp: select_addrs_def Let_def intro: exI [of _ 0])

lemma allowed_rotate [simp]: "allowed bl (rotate k addrs) = allowed bl addrs"
  by (simp add: allowed_def list_all_iff)

lemma selected_ok:
  assumes "selected host addrs d = (d', chosen)" "dns_inv bl d"
  shows "dns_inv bl d' \<and> allowed bl chosen = allowed bl addrs"
proof -
  have "\<exists>k. chosen = rotate k addrs" "\<exists>rot. d' = d\<lparr>rotation := rot\<rparr>"
    using assms(1) select_addrs_rotates [of host addrs "select d" "rotation d"]
    by (auto simp: selected_def split: prod.splits)
  then show ?thesis using assms(2) by (auto simp: dns_inv_def)
qed

lemma map_of_filter_fst: "distinct (map fst m) \<Longrightarrow> distinct (map fst (filter P m))"
  by (simp add: distinct_map_filter)

lemma upsert_set: "x \<in> set (upsert k f dflt m) \<Longrightarrow> x \<in> set m \<or> (\<exists>v. x = (k, f v))"
  by (induction m) (auto split: if_splits)

lemma evict_room:
  assumes "distinct (map fst store)" "length store \<le> MAX_CACHE_ENTRIES"
  shows "set (evict t host store) \<subseteq> set store \<and> distinct (map fst (evict t host store)) \<and>
     (length (evict t host store) < MAX_CACHE_ENTRIES)"
proof (cases "MAX_CACHE_ENTRIES \<le> length store")
  case False
  then show ?thesis using assms by (simp add: evict_def)
next
  case True
  then have len: "length store = MAX_CACHE_ENTRIES" using assms(2) by simp
  define others where "others = filter (\<lambda>(k, _). k \<noteq> host) store"
  define ks where "ks = sort_key snd (map (\<lambda>(k, e). (k, case expires_at e of Some t \<Rightarrow> t
      | None \<Rightarrow> t + 3153600000000000000)) others)"
  define gone where "gone = map fst (take 1 ks)"
  have ev: "evict t host store = filter (\<lambda>(k, _). k \<notin> set gone) store"
    using len unfolding evict_def gone_def ks_def others_def by (simp add: Let_def)
  have "others \<noteq> []"
  proof
    assume "others = []"
    then have "set (map fst store) \<subseteq> {host}" by (auto simp: others_def filter_empty_conv)
    then have "card (set (map fst store)) \<le> card {host}" by (intro card_mono) simp_all
    then have "length store \<le> 1" using distinct_card [OF assms(1)] by simp
    then show False using len by (simp add: MAX_CACHE_ENTRIES_def)
  qed
  moreover have set_ks: "fst ` set ks = fst ` set others" unfolding ks_def by (simp add: image_image case_prod_beta)
  ultimately have "set ks \<noteq> {}" by auto
  then have "ks \<noteq> []" by simp
  then obtain x where x: "x \<in> set ks" "gone = [fst x]" by (cases ks) (auto simp: gone_def)
  have "fst x \<in> fst ` set store" using set_ks imageI [OF x(1), of fst] by (auto simp: others_def)
  then obtain e where "(fst x, e) \<in> set store" by auto
  then have "length (filter (\<lambda>(k, _). k \<notin> set gone) store) < length store"
    using x by (intro length_filter_less) auto
  then show ?thesis using ev len assms(1) by (auto simp: map_of_filter_fst)
qed

lemma cache_put_inv:
  assumes inv: "dns_inv bl d" and ok: "allowed bl addrs"
  shows "dns_inv bl (cache_put t1 t2 t3 host addrs d)"
proof -
  define live where "live = filter (\<lambda>(_, e). case expires_at e of Some t \<Rightarrow> t2 < t | None \<Rightarrow> True) (cache_store d)"
  have l: "distinct (map fst live)" "length live \<le> MAX_CACHE_ENTRIES" "set live \<subseteq> set (cache_store d)"
    using inv by (auto simp: live_def dns_inv_def map_of_filter_fst intro: le_trans [OF length_filter_le])
  note ev = evict_room [OF l(1,2), of t3 host]
  have *: "dns_inv bl (d\<lparr>cache_store := upsert host (\<lambda>_. e) e (evict t3 host live)\<rparr>)"
    if "entry_addrs e = addrs" for e
    using that inv ok ev l(3)
    by (auto simp: dns_inv_def upsert_length Suc_le_eq split: if_splits dest!: upsert_set)
  show ?thesis using inv *
    by (auto simp: cache_put_def Let_def live_def [symmetric] split: dns_cache_mode.split)
qed

lemma cache_get_allowed: "dns_inv bl d \<Longrightarrow> cache_get now d host = Some addrs \<Longrightarrow> allowed bl addrs"
  by (auto simp: cache_get_def dns_inv_def Let_def split: dns_cache_mode.splits option.splits if_splits
           dest!: map_of_SomeD)

lemma better_host_in: "better_host h (key, v) b = Some (n, w) \<Longrightarrow> b = Some (n, w) \<or> w = v"
  by (auto simp: better_host_def split: option.splits if_splits)

lemma hosts_fold_in: "fold (better_host h) hs b = Some (n, v) \<Longrightarrow> b = Some (n, v) \<or> (\<exists>key. (key, v) \<in> set hs)"
proof (induction hs arbitrary: b)
  case (Cons x hs)
  then have "better_host h x b = Some (n, v) \<or> (\<exists>key. (key, v) \<in> set hs)" by simp
  then show ?case using better_host_in [of h "fst x" "snd x" b n v] by (cases x) auto
qed simp

lemma hosts_lookup_in: "hosts_lookup hs host = Some v \<Longrightarrow> \<exists>key. (key, v) \<in> set hs"
  unfolding hosts_lookup_def Let_def
  by (auto split: option.splits dest: map_of_SomeD hosts_fold_in)

lemma answer_selected_ok:
  assumes inv: "dns_inv bl d" and a: "allowed bl addrs"
    and r: "(let (d', chosen) = selected host addrs d in (d', Some (Inr chosen))) = (d', r)"
  shows "dns_inv bl d' \<and> (\<forall>addrs. r = Some (Inr addrs) \<longrightarrow> allowed bl addrs)"
proof -
  obtain d1 chosen where s: "selected host addrs d = (d1, chosen)" by fastforce
  then show ?thesis using selected_ok [OF s inv] a r by auto
qed

lemma resolve_local_ok:
  assumes inv: "dns_inv bl d" and r: "resolve_local now host d = (d', r)"
  shows "dns_inv bl d' \<and> (\<forall>addrs. r = Some (Inr addrs) \<longrightarrow> allowed bl addrs)"
proof (cases "hosts_lookup (hosts d) host")
  case None
  show ?thesis
  proof (cases "cache_get now d host")
    case (Some addrs)
    with None r answer_selected_ok [OF inv cache_get_allowed [OF inv Some]] show ?thesis
      by (simp add: resolve_local_def)
  qed (use None r inv in \<open>simp add: resolve_local_def\<close>)
next
  case (Some addrs)
  then have ne: "addrs \<noteq> []" using inv hosts_lookup_in [OF Some] by (auto simp: dns_inv_def)
  show ?thesis
  proof (cases "drop_blacklisted d addrs")
    case (Inr kept)
    then have "allowed bl kept" using drop_blacklisted_ok [OF Inr ne] inv by (simp add: dns_inv_def)
    with Some Inr r answer_selected_ok [OF inv] show ?thesis by (simp add: resolve_local_def)
  qed (use Some r inv in \<open>auto simp: resolve_local_def\<close>)
qed

lemma resolve_answer_ok:
  assumes inv: "dns_inv bl d" and r: "resolve_answer t1 t2 t3 host result d = (d', r)"
  shows "dns_inv bl d' \<and> (\<forall>addrs. r = Inr addrs \<longrightarrow> allowed bl addrs)"
proof (cases result)
  case (Inl e)
  then show ?thesis using r inv by (auto simp: resolve_answer_def)
next
  case (Inr addrs)
  let ?a = "apply_policy (policy d) addrs"
  consider "addrs = [] \<or> ?a = []" | e where "addrs \<noteq> []" "?a \<noteq> []" "drop_blacklisted d ?a = Inl e"
    | kept where "addrs \<noteq> []" "?a \<noteq> []" "drop_blacklisted d ?a = Inr kept"
    by (cases "drop_blacklisted d ?a") auto
  then show ?thesis
  proof cases
    case (3 kept)
    obtain d1 chosen where s: "selected host kept d = (d1, chosen)" by fastforce
    have "allowed bl kept" using drop_blacklisted_ok [OF 3(3,2)] inv by (simp add: dns_inv_def)
    then have ok: "dns_inv bl d1" "allowed bl chosen" using selected_ok [OF s inv] by auto
    then have "chosen \<noteq> []" by (simp add: allowed_def)
    then have "d' = cache_put t1 t2 t3 host chosen d1" "r = Inr chosen"
      using r Inr 3 s by (simp_all add: resolve_answer_def Let_def)
    then show ?thesis using cache_put_inv [OF ok] ok by simp
  qed (use r Inr inv in \<open>auto simp: resolve_answer_def Let_def split: if_splits\<close>)
qed

lemma dns_step_ok:
  assumes "dns_inv bl d" "dns_step e d = (d', r)"
  shows "dns_inv bl d' \<and> (\<forall>addrs. r = Some (Inr addrs) \<longrightarrow> allowed bl addrs)"
proof (cases e)
  case (Local now host)
  then show ?thesis using assms resolve_local_ok [OF assms(1)] by simp
next
  case (Answer t1 t2 t3 host result)
  obtain d1 r1 where a: "resolve_answer t1 t2 t3 host result d = (d1, r1)" by fastforce
  then show ?thesis using assms(2) Answer resolve_answer_ok [OF assms(1) a] by auto
qed

lemma dns_run_ok:
  "dns_inv bl d \<Longrightarrow> dns_run es d = (d', rs) \<Longrightarrow>
   dns_inv bl d' \<and> (\<forall>addrs. Some (Inr addrs) \<in> set rs \<longrightarrow> allowed bl addrs)"
proof (induction es arbitrary: d rs)
  case (Cons e es)
  obtain d1 r where s: "dns_step e d = (d1, r)" by fastforce
  obtain rs2 where t: "dns_run es d1 = (d', rs2)" "rs = r # rs2"
    using Cons.prems(2) s by (auto split: prod.splits)
  then show ?case using Cons.IH [OF _ t(1)] dns_step_ok [OF Cons.prems(1) s] by auto
qed simp

lemma add_host_nonempty: "\<forall>y \<in> set out. snd y \<noteq> [] \<Longrightarrow> \<forall>y \<in> set (add_host x out). snd y \<noteq> []"
  by (cases x) (auto simp: add_host_def Let_def dest!: upsert_set)

lemma parse_hosts_nonempty: "(h, addrs) \<in> set (parse_hosts m) \<Longrightarrow> addrs \<noteq> []"
proof -
  have "\<forall>y \<in> set out. snd y \<noteq> [] \<Longrightarrow> \<forall>y \<in> set (fold add_host m out). snd y \<noteq> []" for out
  proof (induction m arbitrary: out)
    case (Cons x m)
    show ?case using Cons.IH [OF add_host_nonempty [OF Cons.prems]] by simp
  qed simp
  from this [of "[]"] have "\<forall>y \<in> set (parse_hosts m). snd y \<noteq> []" by (simp add: parse_hosts_def)
  then show "(h, addrs) \<in> set (parse_hosts m) \<Longrightarrow> addrs \<noteq> []" by auto
qed

lemma from_config_inv: "dns_inv (parse_blacklist (blacklist_ips cfg)) (from_config parse_duration cfg)"
  using parse_hosts_nonempty by (auto simp: dns_inv_def from_config_def)

section \<open>No answer is blacklisted\<close>

text \<open>
  C32. Whatever names are resolved, from the static hosts, the cache or the network, and however requests
  interleave, no request is ever answered with a blacklisted address or with an empty list.
\<close>

theorem dns_never_blacklisted:
  "list_all (\<lambda>r. case r of Some (Inr addrs) \<Rightarrow> addrs \<noteq> [] \<and>
        list_all (\<lambda>a. \<not> blacklisted (parse_blacklist (blacklist_ips cfg)) (sock_ip a)) addrs | _ \<Rightarrow> True)
     (snd (dns_run events (from_config parse_duration cfg)))"
proof -
  obtain d' rs where r: "dns_run events (from_config parse_duration cfg) = (d', rs)" by fastforce
  from dns_run_ok [OF from_config_inv r] show ?thesis
    by (auto simp: r list_all_iff allowed_def split: option.split sum.split)
qed

text \<open>
  C40. The cache never holds more than its 4096 entries, whatever is resolved.
\<close>

theorem dns_cache_bounded:
  "length (cache_store (fst (dns_run events (from_config parse_duration cfg)))) \<le> MAX_CACHE_ENTRIES"
proof -
  obtain d' rs where r: "dns_run events (from_config parse_duration cfg) = (d', rs)" by fastforce
  from dns_run_ok [OF from_config_inv r] show ?thesis by (simp add: r dns_inv_def)
qed

lemma cache_hit_fresh:
  "cache_get now d host = Some addrs \<Longrightarrow>
   \<exists>e. map_of (cache_store d) host = Some e \<and> addrs = entry_addrs e \<and>
     (cache_mode d = Cache_forever \<or> (\<exists>t. expires_at e = Some t \<and> now < t))"
  by (auto simp: cache_get_def Let_def split: dns_cache_mode.splits option.splits if_splits)

lemma cache_put_get:
  assumes "cache_mode d = Cache_ttl ttl" "0 < ttl"
  shows "cache_get now (cache_put t1 t2 t3 host addrs d) host = (if now < t1 + ttl then Some addrs else None)"
  using assms by (auto simp: cache_put_def cache_get_def Let_def map_of_upsert)

section \<open>The most specific host entry wins\<close>

lemma wildcard_suffix_key:
  assumes "wildcard_suffix h key = Some suffix"
  shows "key = ''*.'' @ suffix \<and> ends_with (CHR ''.'' # suffix) h"
proof -
  have "strip_prefix ''*.'' key = Some suffix" and e: "ends_with (CHR ''.'' # suffix) h"
    using assms by (auto simp: wildcard_suffix_def Let_def split: option.splits if_splits)
  then have "take 2 key = ''*.''" "suffix = drop 2 key"
    by (auto simp: strip_prefix_def starts_with_def numeral_2_eq_2 split: if_splits)
  then have "key = ''*.'' @ suffix" using append_take_drop_id [of 2 key] by simp
  with e show ?thesis by blast
qed

lemma wildcard_suffix_inj:
  assumes "wildcard_suffix h k1 = Some s1" "wildcard_suffix h k2 = Some s2" "length s1 = length s2"
  shows "k1 = k2"
proof -
  note k1 = wildcard_suffix_key [OF assms(1)] and k2 = wildcard_suffix_key [OF assms(2)]
  have "drop (length h - length (CHR ''.'' # s1)) h = CHR ''.'' # s1"
    "drop (length h - length (CHR ''.'' # s2)) h = CHR ''.'' # s2"
    using k1 k2 unfolding ends_with_def by blast+
  then have "CHR ''.'' # s1 = CHR ''.'' # s2" unfolding length_Cons assms(3) by (simp only:)
  then show ?thesis using k1 k2 by blast
qed

definition longest_match :: "string \<Rightarrow> (string \<times> 'v) list \<Rightarrow> nat \<Rightarrow> 'v \<Rightarrow> bool" where
  "longest_match h hs n v \<longleftrightarrow>
     (\<exists>key suffix. (key, v) \<in> set hs \<and> wildcard_suffix h key = Some suffix \<and> n = length suffix) \<and>
     (\<forall>key w suffix. (key, w) \<in> set hs \<and> wildcard_suffix h key = Some suffix \<longrightarrow> length suffix \<le> n)"

lemma longest_match_skip:
  "wildcard_suffix h key = None \<Longrightarrow> longest_match h (hs @ [(key, w)]) n v = longest_match h hs n v"
  by (auto simp: longest_match_def)

lemma longest_match_keep:
  assumes "longest_match h hs n v" "wildcard_suffix h key = Some suffix" "length suffix \<le> n"
  shows "longest_match h (hs @ [(key, w)]) n v"
  using assms unfolding longest_match_def by auto

lemma longest_match_new:
  assumes "wildcard_suffix h key = Some suffix"
    "\<And>k x s. (k, x) \<in> set hs \<Longrightarrow> wildcard_suffix h k = Some s \<Longrightarrow> length s \<le> length suffix"
  shows "longest_match h (hs @ [(key, w)]) (length suffix) w"
  using assms unfolding longest_match_def by auto

lemma fold_better_host:
  "case fold (better_host h) hs None of
     None \<Rightarrow> \<forall>(key, _) \<in> set hs. wildcard_suffix h key = None
   | Some (n, v) \<Rightarrow> longest_match h hs n v"
proof (induction hs rule: rev_induct)
  case (snoc x hs)
  obtain key w where x: "x = (key, w)" by fastforce
  show ?case
  proof (cases "wildcard_suffix h key")
    case None
    then show ?thesis using snoc x
      by (cases "fold (better_host h) hs None") (auto simp: better_host_def longest_match_skip)
  next
    case suf: (Some suffix)
    show ?thesis
    proof (cases "fold (better_host h) hs None")
      case None
      then have none: "(k, y) \<in> set hs \<Longrightarrow> wildcard_suffix h k = None" for k y using snoc by auto
      have "longest_match h (hs @ [(key, w)]) (length suffix) w"
        by (rule longest_match_new [OF suf]) (simp add: none)
      then show ?thesis using x suf None by (simp add: better_host_def)
    next
      case (Some best)
      obtain n v where b: "best = (n, v)" by fastforce
      then have lm: "longest_match h hs n v" using snoc Some by simp
      have "longest_match h (hs @ [(key, w)]) (length suffix) w" if "n < length suffix"
      proof (rule longest_match_new [OF suf])
        fix k y s assume "(k, y) \<in> set hs" "wildcard_suffix h k = Some s"
        then have "length s \<le> n" using lm unfolding longest_match_def by blast
        then show "length s \<le> length suffix" using that by simp
      qed
      moreover have "longest_match h (hs @ [(key, w)]) n v" if "\<not> n < length suffix"
        using longest_match_keep [OF lm suf] that by simp
      ultimately show ?thesis using x suf Some b by (simp add: better_host_def)
    qed
  qed
qed simp

lemma longest_match_unique:
  assumes "distinct (map fst hs)" "longest_match h hs n v" "longest_match h hs m w"
  shows "v = w"
proof -
  obtain k1 s1 k2 s2 where k: "(k1, v) \<in> set hs" "wildcard_suffix h k1 = Some s1" "n = length s1"
    "(k2, w) \<in> set hs" "wildcard_suffix h k2 = Some s2" "m = length s2"
    using assms(2,3) by (auto simp: longest_match_def)
  then have "length s1 = length s2" using assms(2,3) by (auto simp: longest_match_def intro: antisym)
  with k have "k1 = k2" using wildcard_suffix_inj by blast
  then show ?thesis using k assms(1) by (meson eq_key_imp_eq_value)
qed

text \<open>
  A static host is found under its exact name, or else under the longest matching wildcard, whatever
  the order of the map.
\<close>

theorem hosts_lookup_most_specific:
  assumes "distinct (map fst hs)"
  shows "hosts_lookup hs host = Some v \<longleftrightarrow>
    (to_ascii_lowercase host, v) \<in> set hs \<or>
    to_ascii_lowercase host \<notin> fst ` set hs \<and> (\<exists>n. longest_match (to_ascii_lowercase host) hs n v)"
proof (cases "map_of hs (to_ascii_lowercase host)")
  case None
  then have "to_ascii_lowercase host \<notin> fst ` set hs" by (simp add: map_of_eq_None_iff)
  moreover from this have "(to_ascii_lowercase host, v) \<notin> set hs" by force
  moreover have "map_option snd (fold (better_host (to_ascii_lowercase host)) hs None) = Some v \<longleftrightarrow>
      (\<exists>n. longest_match (to_ascii_lowercase host) hs n v)"
  proof (cases "fold (better_host (to_ascii_lowercase host)) hs None")
    case None
    then have "\<not> longest_match (to_ascii_lowercase host) hs n v" for n
      using fold_better_host [where h = "to_ascii_lowercase host" and hs = hs] by (auto simp: longest_match_def)
    then show ?thesis using None by simp
  next
    case (Some best)
    obtain n w where b: "best = (n, w)" by fastforce
    then have "longest_match (to_ascii_lowercase host) hs n w"
      using fold_better_host [where h = "to_ascii_lowercase host" and hs = hs] Some by simp
    then show ?thesis using longest_match_unique [OF assms] Some b by auto
  qed
  ultimately show ?thesis using None by (simp add: hosts_lookup_def)
next
  case (Some w)
  then have "(to_ascii_lowercase host, w) \<in> set hs" by (rule map_of_SomeD)
  then have "to_ascii_lowercase host \<in> fst ` set hs" using image_eqI [of _ fst] by fastforce
  moreover have "(to_ascii_lowercase host, v) \<in> set hs \<longleftrightarrow> w = v"
    using Some map_of_eq_Some_iff [OF assms, of "to_ascii_lowercase host" v] by auto
  ultimately show ?thesis using Some by (simp add: hosts_lookup_def)
qed

text \<open>Two wildcards match \<^verbatim>\<open>x.sub.example.com\<close>; the longer one wins in either order.\<close>

definition some_addr :: "32 word \<Rightarrow> sock_addr" where
  "some_addr w = \<lparr>sock_ip = V4 w, sock_port = 0, sock_scope = 0\<rparr>"

definition two_wildcards :: "(string \<times> sock_addr list) list" where
  "two_wildcards = [(''*.example.com'', [some_addr 1]), (''*.sub.example.com'', [some_addr 2])]"

theorem hosts_lookup_most_specific_witness:
  "hosts_lookup two_wildcards ''X.sub.example.com'' = Some [some_addr 2] \<and>
   (\<exists>n. longest_match (to_ascii_lowercase ''X.sub.example.com'') two_wildcards n [some_addr 2])"
proof -
  have d: "distinct (map fst two_wildcards)" by code_simp
  have r: "hosts_lookup two_wildcards ''X.sub.example.com'' = Some [some_addr 2]" by code_simp
  have n: "(to_ascii_lowercase ''X.sub.example.com'', [some_addr 2]) \<notin> set two_wildcards" by code_simp
  from r n hosts_lookup_most_specific [OF d, of "''X.sub.example.com''" "[some_addr 2]"] show ?thesis by blast
qed

section \<open>Round robin\<close>

definition counter :: "string \<Rightarrow> dns_shared \<Rightarrow> nat" where
  "counter host d = (case map_of (rotation d) host of Some n \<Rightarrow> n | None \<Rightarrow> 0)"

definition first_addr :: "(dns_error + sock_addr list) option \<Rightarrow> sock_addr option" where
  "first_addr r = (case r of Some (Inr (a # _)) \<Rightarrow> Some a | _ \<Rightarrow> None)"

lemma resolve_local_static:
  assumes "select d = Round_robin" "hosts_lookup (hosts d) host = Some addrs"
    "drop_blacklisted d addrs = Inr kept" "1 < length kept"
  shows "\<exists>rot. resolve_local now host d = (d\<lparr>rotation := rot\<rparr>, Some (Inr (rotate (counter host d mod length kept) kept)))
     \<and> counter host (d\<lparr>rotation := rot\<rparr>) = wrap_u64 (counter host d + 1)"
  using assms
  by (auto simp: resolve_local_def selected_def select_addrs_def counter_def map_of_upsert Let_def split: option.split)

lemma drop_blacklisted_rotation [simp]: "drop_blacklisted (d\<lparr>rotation := rot\<rparr>) addrs = drop_blacklisted d addrs"
  by (simp add: drop_blacklisted_def)

text \<open>
  Successive resolutions of a static host under round robin start at its allowed addresses in turn,
  from the counter of that host on.
\<close>

theorem round_robin_in_turn:
  assumes "select d = Round_robin" "hosts_lookup (hosts d) host = Some addrs"
    "drop_blacklisted d addrs = Inr kept" "1 < length kept" "counter host d + m < 2 ^ 64"
  shows "map first_addr (snd (dns_run (replicate m (Local now host)) d)) =
    map (\<lambda>i. Some (kept ! ((counter host d + i) mod length kept))) [0..<m]"
  using assms
proof (induction m arbitrary: d)
  case (Suc m)
  obtain rot where r: "resolve_local now host d =
      (d\<lparr>rotation := rot\<rparr>, Some (Inr (rotate (counter host d mod length kept) kept)))"
    and c: "counter host (d\<lparr>rotation := rot\<rparr>) = wrap_u64 (counter host d + 1)"
    using resolve_local_static [OF Suc.prems(1-4)] by blast
  have c': "counter host (d\<lparr>rotation := rot\<rparr>) = Suc (counter host d)"
    unfolding c using Suc.prems(5) by (simp add: wrap_u64_def)
  have "kept \<noteq> []" using Suc.prems(4) by auto
  then have f: "first_addr (Some (Inr (rotate (counter host d mod length kept) kept))) =
      Some (kept ! (counter host d mod length kept))"
    by (cases "rotate (counter host d mod length kept) kept")
       (auto simp: first_addr_def hd_rotate_conv_nth dest: arg_cong [of _ _ hd])
  obtain d' rs where run: "dns_run (replicate m (Local now host)) (d\<lparr>rotation := rot\<rparr>) = (d', rs)" by fastforce
  have "map first_addr rs = map (\<lambda>i. Some (kept ! ((counter host d + Suc i) mod length kept))) [0..<m]"
    using Suc.IH [of "d\<lparr>rotation := rot\<rparr>"] Suc.prems run c' by simp
  then show ?case using r run f
    by (simp add: upt_conv_Cons map_Suc_upt [symmetric] comp_def del: upt_Suc)
qed simp

definition rr_config :: dns_config where
  "rr_config = \<lparr>dns_ttl = Some ''1s'', dns_select = Some ''roundRobin'', dns_policy = None,
     cfg_hosts = [(''API.test'', ''10.0.0.1, 10.0.0.2:8080, 127.0.0.1'')], blacklist_ips = [''127.0.0.0/8'']\<rparr>"

definition rr_kept :: "sock_addr list" where
  "rr_kept = [some_addr 0x0A000001, (some_addr 0x0A000002)\<lparr>sock_port := 8080\<rparr>]"

theorem round_robin_in_turn_witness:
  "map first_addr (snd (dns_run (replicate 4 (Local 0 ''api.test'')) (from_config (\<lambda>_. Some 1000000000) rr_config))) =
   map Some (rr_kept @ rr_kept)"
proof -
  let ?d = "from_config (\<lambda>_. Some 1000000000) rr_config"
  obtain addrs where a: "hosts_lookup (hosts ?d) ''api.test'' = Some addrs"
    "drop_blacklisted ?d addrs = Inr rr_kept"
  proof
    show "hosts_lookup (hosts ?d) ''api.test'' = Some (rr_kept @ [some_addr 0x7F000001])" by code_simp
    show "drop_blacklisted ?d (rr_kept @ [some_addr 0x7F000001]) = Inr rr_kept" by code_simp
  qed
  have s: "select ?d = Round_robin" by code_simp
  have l: "1 < length rr_kept" "counter ''api.test'' ?d + 4 < 2 ^ 64" by code_simp+
  have e: "map (\<lambda>i. Some (rr_kept ! ((counter ''api.test'' ?d + i) mod length rr_kept))) [0..<4] = map Some (rr_kept @ rr_kept)"
    by code_simp
  from round_robin_in_turn [OF s a l] show ?thesis unfolding e .
qed

text \<open>
  The cache holds the list as it was rotated for the request that filled it, and a hit rotates it
  again. After an expired entry is looked up at an odd count, the two addresses of a name no longer
  alternate.
\<close>

lemma round_robin_repeats:
  "map first_addr (snd (dns_run
     [Answer 0 0 0 ''a.test'' (Inr rr_kept), Answer 2000000000 2000000000 0 ''a.test'' (Inr rr_kept), Local 2000000001 ''a.test'']
     (from_config (\<lambda>_. Some 1000000000) rr_config))) =
   map Some [rr_kept ! 0, rr_kept ! 1, rr_kept ! 1]"
  by code_simp

lemma select_first_is_random: "select (from_config pd (c\<lparr>dns_select := Some ''first''\<rparr>)) = Select_random"
  by (simp add: from_config_def to_ascii_lowercase_def lower_char_def)

lemma static_hosts_ignore_policy:
  "map_option isl (snd (resolve_local 0 ''api.test''
     (from_config (\<lambda>_. None) (rr_config\<lparr>dns_policy := Some ''onlyIPv6''\<rparr>)))) = Some False"
  by code_simp

end
