(* ===== verification/Proxy.thy ===== *)
theory Proxy
  imports Ip_Addr
begin

unbundle bit_operations_syntax

text \<open>
  Proxies: the bypass rules, the environment's settings and the candidates of a PAC script of
  \<^verbatim>\<open>crates/tropel-http/src/proxy.rs\<close>, and what \<^verbatim>\<open>build_client\<close> and \<^verbatim>\<open>build_proxy\<close> of \<^verbatim>\<open>client.rs\<close> make of
  them: the proxy a request to a host is sent through. The environment is a map from names to
  values; whether a proxy URL is valid is decided by \<^verbatim>\<open>reqwest\<close> and is a parameter. The credentials
  handed to \<^verbatim>\<open>reqwest\<close> do not affect the route and are left out.
\<close>

section \<open>Bypass rules\<close>

datatype bypass_rule = All | Host string | Subdomains string | Ip ip_addr | Cidr ip_addr nat

datatype bypass_error =
    Empty_entry | Bad_suffix string | Stray_wildcard string | Not_an_ip string string
  | Not_a_prefix string string | Prefix_too_long string nat

definition parse_bypass :: "string \<Rightarrow> bypass_error + bypass_rule" where
  "parse_bypass entry =
     (let raw = trim entry in
      if raw = [] then Inl Empty_entry
      else if raw = ''*'' then Inr All
      else
        (case strip_prefix ''*.'' raw of
           Some suffix \<Rightarrow>
             if suffix = [] \<or> CHR ''*'' \<in> set suffix then Inl (Bad_suffix raw)
             else Inr (Subdomains (to_ascii_lowercase suffix))
         | None \<Rightarrow>
             if CHR ''*'' \<in> set raw then Inl (Stray_wildcard raw)
             else
               (case split_once (CHR ''/'') raw of
                  Some (net, prefix) \<Rightarrow>
                    bindE (ok_or (Not_an_ip raw net) (parse_ip net)) (\<lambda>addr.
                    bindE (ok_or (Not_a_prefix raw prefix) (parse_unsigned 255 prefix)) (\<lambda>bits.
                      let mx = (if is_v4 addr then 32 else 128) in
                      if mx < bits then Inl (Prefix_too_long raw bits) else Inr (Cidr addr bits)))
                | None \<Rightarrow>
                    (case parse_ip raw of
                       Some addr \<Rightarrow> Inr (Ip addr)
                     | None \<Rightarrow> Inr (Host (to_ascii_lowercase raw))))))"

text \<open>The bytes of an address, the most significant first.\<close>

definition octets_of :: "nat \<Rightarrow> 'a :: len word \<Rightarrow> 8 word list" where
  "octets_of n w = map (\<lambda>i. ucast (drop_bit (8 * (n - 1 - i)) w)) [0..<n]"

definition prefix_eq :: "8 word list \<Rightarrow> 8 word list \<Rightarrow> nat \<Rightarrow> bool" where
  "prefix_eq a b bits =
     (let full = bits div 8; rest = bits mod 8 in
      if take full a \<noteq> take full b then False
      else if rest = 0 then True
      else (let mask = push_bit (8 - rest) (0xFF :: 8 word) in (a ! full) AND mask = (b ! full) AND mask))"

fun in_cidr :: "ip_addr \<Rightarrow> ip_addr \<Rightarrow> nat \<Rightarrow> bool" where
  "in_cidr (V4 a) (V4 n) bits = prefix_eq (octets_of 4 a) (octets_of 4 n) bits"
| "in_cidr (V6 a) (V6 n) bits = prefix_eq (octets_of 16 a) (octets_of 16 n) bits"
| "in_cidr _ _ bits = False"

definition rule_matches :: "bypass_rule \<Rightarrow> string \<Rightarrow> bool" where
  "rule_matches r host0 =
     (let host = to_ascii_lowercase (trim host0) in
      case r of
        All \<Rightarrow> True
      | Host want \<Rightarrow> host = want
      | Subdomains suffix \<Rightarrow>
          length suffix + 1 < length host \<and> ends_with suffix host \<and>
          host ! (length host - length suffix - 1) = CHR ''.''
      | Ip want \<Rightarrow> (case parse_ip host of Some a \<Rightarrow> a = want | None \<Rightarrow> False)
      | Cidr net bits \<Rightarrow> (case parse_ip host of Some a \<Rightarrow> in_cidr a net bits | None \<Rightarrow> False))"

definition parse_bypass_list :: "string list \<Rightarrow> bypass_error list + bypass_rule list" where
  "parse_bypass_list entries =
     (let (rules, errors) =
        fold (\<lambda>entry (rules, errors).
          case parse_bypass entry of
            Inr rule \<Rightarrow> (rules @ [rule], errors)
          | Inl e \<Rightarrow> (rules, errors @ [e])) entries ([], [])
      in if errors = [] then Inr rules else Inl errors)"

definition bypasses :: "bypass_rule list \<Rightarrow> string \<Rightarrow> bool" where
  "bypasses rules host \<longleftrightarrow> list_ex (\<lambda>r. rule_matches r host) rules"

section \<open>The environment\<close>

fun first_env :: "(string \<Rightarrow> 'a option) \<Rightarrow> string list \<Rightarrow> 'a option" where
  "first_env get [] = None"
| "first_env get (k # ks) = (case get k of Some v \<Rightarrow> Some v | None \<Rightarrow> first_env get ks)"

definition system_proxy_url :: "(string \<Rightarrow> string option) \<Rightarrow> string option" where
  "system_proxy_url env =
     first_env (\<lambda>k. Option.bind (env k) (\<lambda>v. let t = trim v in if t \<noteq> [] then Some t else None))
       [''HTTPS_PROXY'', ''https_proxy'', ''HTTP_PROXY'', ''http_proxy'']"

definition system_no_proxy :: "(string \<Rightarrow> string option) \<Rightarrow> string list" where
  "system_no_proxy env =
     (case first_env (\<lambda>k. Option.bind (env k) (\<lambda>v.
              let entries = filter (\<lambda>s. s \<noteq> []) (map trim (split_on (CHR '','') v))
              in if entries \<noteq> [] then Some entries else None)) [''NO_PROXY'', ''no_proxy''] of
        Some entries \<Rightarrow> entries | None \<Rightarrow> [])"

section \<open>The proxy of a client\<close>

datatype proxy_mode = Off | Fixed | System | Pac

text \<open>\<open>px_fixed_url\<close> is what \<^verbatim>\<open>fixed_url\<close> of the SDK makes of the host and the port.\<close>

record proxy_config =
  px_mode :: proxy_mode
  px_fixed_url :: "string option"
  px_bypass :: "string list"

datatype proxy_error = Bypass_list "bypass_error list" | Invalid_url string | No_host | Pac_unsupported

definition build_proxy ::
    "(string \<Rightarrow> string option) \<Rightarrow> (string \<Rightarrow> bool) \<Rightarrow> string \<Rightarrow> proxy_config \<Rightarrow> proxy_error + (string \<Rightarrow> string option)" where
  "build_proxy env valid_url url cfg =
     (let entries = px_bypass cfg @ (if px_mode cfg = System then system_no_proxy env else []) in
      case parse_bypass_list entries of
        Inl es \<Rightarrow> Inl (Bypass_list es)
      | Inr rules \<Rightarrow>
          if \<not> valid_url url then Inl (Invalid_url url)
          else if rules = [] then Inr (\<lambda>host. Some url)
          else Inr (\<lambda>host. if bypasses rules host then None else Some url))"

definition client_proxy ::
    "(string \<Rightarrow> string option) \<Rightarrow> (string \<Rightarrow> bool) \<Rightarrow> proxy_config \<Rightarrow> proxy_error + (string \<Rightarrow> string option)" where
  "client_proxy env valid_url cfg =
     (case px_mode cfg of
        Off \<Rightarrow> Inr (\<lambda>host. None)
      | Fixed \<Rightarrow> bindE (ok_or No_host (px_fixed_url cfg)) (\<lambda>url. build_proxy env valid_url url cfg)
      | System \<Rightarrow>
          (case system_proxy_url env of
             Some url \<Rightarrow> build_proxy env valid_url url cfg
           | None \<Rightarrow> Inr (\<lambda>host. None))
      | Pac \<Rightarrow> Inl Pac_unsupported)"

section \<open>PAC candidates\<close>

datatype pac_directive = Direct | Proxy string | Socks string

fun proxy_url :: "pac_directive \<Rightarrow> string option" where
  "proxy_url Direct = None"
| "proxy_url (Proxy target) = Some (''http://'' @ target)"
| "proxy_url (Socks target) = Some (''socks5://'' @ target)"

definition upper_char :: "char \<Rightarrow> char" where
  "upper_char c = (let n = (of_char c :: nat) in if 97 \<le> n \<and> n \<le> 122 then char_of (n - 32) else c)"

definition to_ascii_uppercase :: "string \<Rightarrow> string" where
  "to_ascii_uppercase s = map upper_char s"

definition parse_pac_directive :: "string \<Rightarrow> pac_directive option" where
  "parse_pac_directive directive =
     (if directive = [] then None
      else
        (case split_whitespace directive of
           [] \<Rightarrow> None
         | k # parts \<Rightarrow>
             (let keyword = to_ascii_uppercase k; target = (case parts of [] \<Rightarrow> None | t # _ \<Rightarrow> Some t) in
              if keyword = ''DIRECT'' then Some Direct
              else if keyword \<in> {''PROXY'', ''HTTP'', ''HTTPS''} then map_option Proxy target
              else if keyword \<in> {''SOCKS'', ''SOCKS4'', ''SOCKS5''} then map_option Socks target
              else None)))"

definition parse_pac_result :: "string \<Rightarrow> pac_directive list" where
  "parse_pac_result result = List.map_filter (\<lambda>c. parse_pac_directive (trim c)) (split_on (CHR '';'') result)"

record pac_decision =
  pd_candidates :: "pac_directive list"
  pd_current :: nat
  pd_decided_at :: nat

definition pac_new :: "nat \<Rightarrow> pac_directive list \<Rightarrow> pac_decision" where
  "pac_new now cs = \<lparr>pd_candidates = cs, pd_current = 0, pd_decided_at = now\<rparr>"

definition candidate :: "pac_decision \<Rightarrow> pac_directive option" where
  "candidate d = (if pd_current d < length (pd_candidates d) then Some (pd_candidates d ! pd_current d) else None)"

definition pac_advance :: "pac_decision \<Rightarrow> pac_decision \<times> pac_directive option" where
  "pac_advance d = (let d' = d\<lparr>pd_current := pd_current d + 1\<rparr> in (d', candidate d'))"

definition exhausted :: "pac_decision \<Rightarrow> bool" where
  "exhausted d \<longleftrightarrow> length (pd_candidates d) \<le> pd_current d"

definition is_stale :: "nat \<Rightarrow> nat \<Rightarrow> pac_decision \<Rightarrow> bool" where
  "is_stale now ttl d \<longleftrightarrow> ttl \<le> now - pd_decided_at d"

definition DEFAULT_PAC_TTL :: nat where "DEFAULT_PAC_TTL = 300000000000"

section \<open>Byte-wise and word-wise prefixes\<close>

lemma length_octets [simp]: "length (octets_of n w) = n"
  by (simp add: octets_of_def)

lemma bit_octets:
  "i < n \<Longrightarrow> bit (octets_of n w ! i) j \<longleftrightarrow> j < 8 \<and> bit w (8 * (n - 1 - i) + j)"
  by (auto simp: octets_of_def bit_simps)

lemma byte_eq_iff: "a = b \<longleftrightarrow> (\<forall>j < 8. bit a j = bit (b :: 8 word) j)"
  by (auto intro: bit_word_eqI)

lemma masked_eq_iff:
  fixes a b :: "8 word"
  assumes "0 < r" "r < 8"
  shows "a AND push_bit (8 - r) 0xFF = b AND push_bit (8 - r) 0xFF \<longleftrightarrow> (\<forall>j < 8. 8 - r \<le> j \<longrightarrow> bit a j = bit b j)"
proof -
  have "(0xFF :: 8 word) = - 1" by simp
  then have "bit (push_bit (8 - r) (0xFF :: 8 word)) j \<longleftrightarrow> 8 - r \<le> j" if "j < 8" for j
    using that by (simp only: bit_push_bit_iff) (auto simp: bit_minus_1_iff)
  then show ?thesis unfolding byte_eq_iff by (auto simp: bit_and_iff)
qed

text \<open>Bit number \<open>k\<close> of a byte string, counted from the front.\<close>

definition front_bit :: "8 word list \<Rightarrow> nat \<Rightarrow> bool" where
  "front_bit a k = bit (a ! (k div 8)) (7 - k mod 8)"

lemma front_bits_byte:
  assumes that: "r \<le> 8"
  shows "(\<forall>k. i * 8 \<le> k \<and> k < i * 8 + r \<longrightarrow> front_bit a k = front_bit b k) \<longleftrightarrow> (\<forall>j < 8. 8 - r \<le> j \<longrightarrow> bit (a ! i) j = bit (b ! i) j)"
proof
  assume l: "\<forall>k. i * 8 \<le> k \<and> k < i * 8 + r \<longrightarrow> front_bit a k = front_bit b k"
  show "\<forall>j < 8. 8 - r \<le> j \<longrightarrow> bit (a ! i) j = bit (b ! i) j"
  proof (intro allI impI)
    fix j :: nat assume j: "j < 8" "8 - r \<le> j"
    have "i * 8 \<le> i * 8 + (7 - j) \<and> i * 8 + (7 - j) < i * 8 + r" using j that by linarith
    with l have "front_bit a (i * 8 + (7 - j)) = front_bit b (i * 8 + (7 - j))" by blast
    moreover have "(i * 8 + (7 - j)) div 8 = i" by (rule div_nat_eqI) auto
    moreover have "(i * 8 + (7 - j)) mod 8 = 7 - j" by (simp only: mod_mult_self3) simp
    moreover have "7 - (7 - j) = j" using j by simp
    ultimately show "bit (a ! i) j = bit (b ! i) j" by (simp only: front_bit_def)
  qed
next
  assume r: "\<forall>j < 8. 8 - r \<le> j \<longrightarrow> bit (a ! i) j = bit (b ! i) j"
  show "\<forall>k. i * 8 \<le> k \<and> k < i * 8 + r \<longrightarrow> front_bit a k = front_bit b k"
  proof (intro allI impI)
    fix k assume k: "i * 8 \<le> k \<and> k < i * 8 + r"
    have "k div 8 = i" using k that by (intro div_nat_eqI) auto
    moreover have "k mod 8 < r" using k calculation div_mult_mod_eq [of k 8] by linarith
    ultimately show "front_bit a k = front_bit b k" using r that by (simp add: front_bit_def)
  qed
qed

lemma take_eq_front_bits:
  assumes "full \<le> length a" "length a = length b"
  shows "take full a = take full b \<longleftrightarrow> (\<forall>k < full * 8. front_bit a k = front_bit b k)"
proof -
  have "take full a = take full b \<longleftrightarrow> (\<forall>i < full. a ! i = b ! i)"
    using assms by (auto simp: list_eq_iff_nth_eq)
  also have "\<dots> \<longleftrightarrow> (\<forall>i < full. \<forall>k. i * 8 \<le> k \<and> k < i * 8 + 8 \<longrightarrow> front_bit a k = front_bit b k)"
    using front_bits_byte [of 8] by (simp add: byte_eq_iff)
  also have "\<dots> \<longleftrightarrow> (\<forall>k < full * 8. front_bit a k = front_bit b k)"
  proof (rule iffI; intro allI impI)
    fix k assume "\<forall>i < full. \<forall>k. i * 8 \<le> k \<and> k < i * 8 + 8 \<longrightarrow> front_bit a k = front_bit b k" "k < full * 8"
    moreover have "k div 8 * 8 \<le> k" "k < k div 8 * 8 + 8" by linarith+
    ultimately show "front_bit a k = front_bit b k" by (meson less_mult_imp_div_less)
  next
    fix i k assume "\<forall>k < full * 8. front_bit a k = front_bit b k" "i < full" "i * 8 \<le> k \<and> k < i * 8 + 8"
    moreover from this have "k < full * 8" by linarith
    ultimately show "front_bit a k = front_bit b k" by blast
  qed
  finally show ?thesis .
qed

lemma prefix_eq_front_bits:
  assumes "bits \<le> 8 * length a" "length a = length b"
  shows "prefix_eq a b bits \<longleftrightarrow> (\<forall>k < bits. front_bit a k = front_bit b k)"
proof -
  define full rest where "full = bits div 8" and "rest = bits mod 8"
  have b: "bits = full * 8 + rest" "rest < 8" by (simp_all add: full_def rest_def)
  have t: "take full a = take full b \<longleftrightarrow> (\<forall>k < full * 8. front_bit a k = front_bit b k)"
    using assms b by (intro take_eq_front_bits) auto
  have s: "(\<forall>k < bits. front_bit a k = front_bit b k) \<longleftrightarrow>
      (\<forall>k < full * 8. front_bit a k = front_bit b k) \<and> (\<forall>k. full * 8 \<le> k \<and> k < full * 8 + rest \<longrightarrow> front_bit a k = front_bit b k)"
    unfolding b(1) by (meson not_le trans_less_add1)
  show ?thesis
  proof (cases "rest = 0")
    case True
    then show ?thesis unfolding s by (simp add: prefix_eq_def Let_def full_def [symmetric] rest_def [symmetric] t)
  next
    case False
    then show ?thesis unfolding s front_bits_byte [OF less_imp_le [OF b(2)]]
      by (simp add: prefix_eq_def Let_def full_def [symmetric] rest_def [symmetric] t masked_eq_iff b(2))
  qed
qed

lemma front_bit_octets:
  "k < 8 * n \<Longrightarrow> front_bit (octets_of n w) k = bit w (8 * n - 1 - k)"
proof -
  assume k: "k < 8 * n"
  have "k = 8 * (k div 8) + k mod 8" "k mod 8 < 8" by simp_all
  then have e: "8 * (n - 1 - k div 8) + (7 - k mod 8) = 8 * n - 1 - k" using k by linarith
  have "k div 8 < n" using k by (simp add: less_mult_imp_div_less mult.commute)
  moreover have "7 - k mod 8 < 8" by simp
  ultimately show ?thesis unfolding front_bit_def bit_octets [OF \<open>k div 8 < n\<close>] e by blast
qed

lemma drop_bit_eq_leading:
  fixes x y :: "'a :: len word"
  assumes "p \<le> LENGTH('a)"
  shows "drop_bit (LENGTH('a) - p) x = drop_bit (LENGTH('a) - p) y \<longleftrightarrow> (\<forall>k < p. bit x (LENGTH('a) - 1 - k) = bit y (LENGTH('a) - 1 - k))"
proof
  assume e: "drop_bit (LENGTH('a) - p) x = drop_bit (LENGTH('a) - p) y"
  show "\<forall>k < p. bit x (LENGTH('a) - 1 - k) = bit y (LENGTH('a) - 1 - k)"
  proof (intro allI impI)
    fix k assume k: "k < p"
    have "bit (drop_bit (LENGTH('a) - p) x) (p - 1 - k) = bit (drop_bit (LENGTH('a) - p) y) (p - 1 - k)" using e by simp
    moreover have "LENGTH('a) - p + (p - 1 - k) = LENGTH('a) - 1 - k" using k assms by simp
    ultimately show "bit x (LENGTH('a) - 1 - k) = bit y (LENGTH('a) - 1 - k)" by (simp add: bit_drop_bit_eq)
  qed
next
  assume b: "\<forall>k < p. bit x (LENGTH('a) - 1 - k) = bit y (LENGTH('a) - 1 - k)"
  show "drop_bit (LENGTH('a) - p) x = drop_bit (LENGTH('a) - p) y"
  proof (rule bit_word_eqI)
    fix j assume "j < LENGTH('a)"
    show "bit (drop_bit (LENGTH('a) - p) x) j = bit (drop_bit (LENGTH('a) - p) y) j"
    proof (cases "j < p")
      case True
      then have "bit x (LENGTH('a) - 1 - (p - 1 - j)) = bit y (LENGTH('a) - 1 - (p - 1 - j))" using b [rule_format, of "p - 1 - j"] by linarith
      moreover have "LENGTH('a) - 1 - (p - 1 - j) = LENGTH('a) - p + j" using True assms by simp
      ultimately show ?thesis by (simp add: bit_drop_bit_eq)
    qed (use assms in \<open>auto simp: bit_drop_bit_eq dest: bit_imp_le_length\<close>)
  qed
qed

lemma in_cidr_iff:
  assumes "bits \<le> (if is_v4 net then 32 else 128)"
  shows "in_cidr addr net bits \<longleftrightarrow> same_prefix bits net addr"
proof -
  have v4: "prefix_eq (octets_of 4 a) (octets_of 4 n) bits \<longleftrightarrow> drop_bit (32 - bits) n = drop_bit (32 - bits) a"
    if "bits \<le> 32" for a n :: "32 word"
    using drop_bit_eq_leading [of bits n a] that by (auto simp: prefix_eq_front_bits front_bit_octets)
  have v6: "prefix_eq (octets_of 16 a) (octets_of 16 n) bits \<longleftrightarrow> drop_bit (128 - bits) n = drop_bit (128 - bits) a"
    if "bits \<le> 128" for a n :: "128 word"
    using drop_bit_eq_leading [of bits n a] that by (auto simp: prefix_eq_front_bits front_bit_octets)
  show ?thesis using assms by (cases addr; cases net) (simp_all add: same_prefix_def v4 v6)
qed

section \<open>What the rules mean\<close>

definition bypass_means :: "bypass_rule \<Rightarrow> string \<Rightarrow> bool" where
  "bypass_means r h =
     (case r of
        All \<Rightarrow> True
      | Host want \<Rightarrow> h = want
      | Subdomains suffix \<Rightarrow> (\<exists>sub. sub \<noteq> [] \<and> h = sub @ ''.'' @ suffix)
      | Ip want \<Rightarrow> parse_ip h = Some want
      | Cidr net bits \<Rightarrow> (\<exists>a. parse_ip h = Some a \<and> same_prefix bits net a))"

lemma subdomain_split:
  "length suffix + 1 < length h \<and> ends_with suffix h \<and> h ! (length h - length suffix - 1) = CHR ''.'' \<longleftrightarrow>
   (\<exists>sub. sub \<noteq> [] \<and> h = sub @ ''.'' @ suffix)"
proof
  assume l: "length suffix + 1 < length h \<and> ends_with suffix h \<and> h ! (length h - length suffix - 1) = CHR ''.''"
  then obtain front where f: "h = front @ suffix" by (metis append_take_drop_id ends_with_def)
  then have n: "front \<noteq> []" using l by auto
  moreover have "last front = CHR ''.''" using l f n by (simp add: nth_append last_conv_nth)
  ultimately have "h = butlast front @ ''.'' @ suffix" using f by (metis append.assoc append_butlast_last_id)
  moreover have "butlast front \<noteq> []" using l f by (cases front rule: rev_cases) auto
  ultimately show "\<exists>sub. sub \<noteq> [] \<and> h = sub @ ''.'' @ suffix" by blast
next
  assume "\<exists>sub. sub \<noteq> [] \<and> h = sub @ ''.'' @ suffix"
  then show "length suffix + 1 < length h \<and> ends_with suffix h \<and> h ! (length h - length suffix - 1) = CHR ''.''"
    by (auto simp: ends_with_def nth_append)
qed

lemma parse_bypass_bits: "parse_bypass e = Inr (Cidr net bits) \<Longrightarrow> bits \<le> (if is_v4 net then 32 else 128)"
  by (auto simp: parse_bypass_def Let_def split: if_splits option.splits)

lemma rule_matches_means:
  assumes "parse_bypass e = Inr r"
  shows "rule_matches r host \<longleftrightarrow> bypass_means r (to_ascii_lowercase (trim host))"
  using parse_bypass_bits [of e] assms
  by (cases r) (auto simp: rule_matches_def bypass_means_def Let_def subdomain_split [simplified] in_cidr_iff split: option.splits)

lemma parse_bypass_fold:
  "fold (\<lambda>entry (rules, errors). case parse_bypass entry of Inr rule \<Rightarrow> (rules @ [rule], errors) | Inl e \<Rightarrow> (rules, errors @ [e]))
     es (rs, er) =
   (rs @ List.map_filter (\<lambda>e. case parse_bypass e of Inr r \<Rightarrow> Some r | Inl _ \<Rightarrow> None) es,
    er @ List.map_filter (\<lambda>e. case parse_bypass e of Inl x \<Rightarrow> Some x | Inr _ \<Rightarrow> None) es)"
  by (induction es arbitrary: rs er) (auto simp: List.map_filter_simps split: sum.splits)

text \<open>All the mistakes of a list are reported, in order, and none means that every entry was read.\<close>

theorem parse_bypass_list_reports_all:
  "parse_bypass_list es =
     (let errors = List.map_filter (\<lambda>e. case parse_bypass e of Inl x \<Rightarrow> Some x | Inr _ \<Rightarrow> None) es in
      if errors = [] then Inr (List.map_filter (\<lambda>e. case parse_bypass e of Inr r \<Rightarrow> Some r | Inl _ \<Rightarrow> None) es)
      else Inl errors)"
  by (simp add: parse_bypass_list_def parse_bypass_fold)

lemma parse_bypass_list_ok:
  assumes "parse_bypass_list es = Inr rules"
  shows "set rules = {r. \<exists>e \<in> set es. parse_bypass e = Inr r}" "\<forall>e \<in> set es. \<exists>r. parse_bypass e = Inr r"
proof -
  have e: "List.map_filter (\<lambda>e. case parse_bypass e of Inl x \<Rightarrow> Some x | Inr _ \<Rightarrow> None) es = []"
    and r: "rules = List.map_filter (\<lambda>e. case parse_bypass e of Inr r \<Rightarrow> Some r | Inl _ \<Rightarrow> None) es"
    using assms by (simp_all add: parse_bypass_list_def parse_bypass_fold split: if_splits)
  show "set rules = {r. \<exists>e \<in> set es. parse_bypass e = Inr r}"
    unfolding r by (force simp: List.map_filter_def split: sum.splits)
  have "parse_bypass x \<noteq> Inl y" if "x \<in> set es" for x y
    using e that by (auto simp: List.map_filter_def filter_empty_conv)
  then show "\<forall>e \<in> set es. \<exists>r. parse_bypass e = Inr r" by (metis sum.exhaust)
qed

section \<open>Where a request goes\<close>

definition proxy_of :: "(string \<Rightarrow> string option) \<Rightarrow> proxy_config \<Rightarrow> string option" where
  "proxy_of env cfg =
     (case px_mode cfg of Fixed \<Rightarrow> px_fixed_url cfg | System \<Rightarrow> system_proxy_url env | _ \<Rightarrow> None)"

definition bypass_entries :: "(string \<Rightarrow> string option) \<Rightarrow> proxy_config \<Rightarrow> string list" where
  "bypass_entries env cfg = px_bypass cfg @ (if px_mode cfg = System then system_no_proxy env else [])"

lemma build_proxy_route:
  assumes "build_proxy env valid_url url cfg = Inr route"
  shows "\<forall>e \<in> set (bypass_entries env cfg). \<exists>r. parse_bypass e = Inr r"
    and "route host = (if \<exists>e \<in> set (bypass_entries env cfg). \<exists>r. parse_bypass e = Inr r \<and> bypass_means r (to_ascii_lowercase (trim host))
      then None else Some url)"
proof -
  obtain rules where rules: "parse_bypass_list (bypass_entries env cfg) = Inr rules"
    and route: "route = (\<lambda>host. if bypasses rules host then None else Some url)"
    using assms by (auto simp: build_proxy_def bypass_entries_def Let_def bypasses_def split: sum.splits if_splits)
  show "\<forall>e \<in> set (bypass_entries env cfg). \<exists>r. parse_bypass e = Inr r" by (rule parse_bypass_list_ok(2) [OF rules])
  have "bypasses rules host \<longleftrightarrow> (\<exists>e \<in> set (bypass_entries env cfg). \<exists>r. parse_bypass e = Inr r \<and> bypass_means r (to_ascii_lowercase (trim host)))"
    unfolding bypasses_def list_ex_iff parse_bypass_list_ok(1) [OF rules] using rule_matches_means by blast
  then show "route host = (if \<exists>e \<in> set (bypass_entries env cfg). \<exists>r. parse_bypass e = Inr r \<and> bypass_means r (to_ascii_lowercase (trim host))
      then None else Some url)" unfolding route by simp
qed



section \<open>PAC results\<close>

text \<open>A directive as a script writes it.\<close>

fun pac_text :: "pac_directive \<Rightarrow> string" where
  "pac_text Direct = ''DIRECT''"
| "pac_text (Proxy t) = ''PROXY '' @ t"
| "pac_text (Socks t) = ''SOCKS '' @ t"

definition pac_target :: "pac_directive \<Rightarrow> bool" where
  "pac_target d =
     (case d of Direct \<Rightarrow> True
      | Proxy t \<Rightarrow> t \<noteq> [] \<and> list_all (\<lambda>c. \<not> is_ws c \<and> c \<noteq> CHR '';'') t
      | Socks t \<Rightarrow> t \<noteq> [] \<and> list_all (\<lambda>c. \<not> is_ws c \<and> c \<noteq> CHR '';'') t)"

lemma split_ws_word: "list_all (\<lambda>c. \<not> is_ws c) s \<Longrightarrow> split_ws_acc w s = (if w @ s = [] then [] else [w @ s])"
  by (induction s arbitrary: w) auto

lemma is_ws_facts:
  "is_ws (CHR '' '')" "\<not> is_ws (CHR ''P'')" "\<not> is_ws (CHR ''R'')" "\<not> is_ws (CHR ''O'')" "\<not> is_ws (CHR ''X'')" "\<not> is_ws (CHR ''Y'')"
  "\<not> is_ws (CHR ''S'')" "\<not> is_ws (CHR ''C'')" "\<not> is_ws (CHR ''K'')" "\<not> is_ws (CHR ''D'')" "\<not> is_ws (CHR ''I'')" "\<not> is_ws (CHR ''E'')" "\<not> is_ws (CHR ''T'')"
  by code_simp+

lemma upper_keywords:
  "to_ascii_uppercase ''PROXY'' = ''PROXY''" "to_ascii_uppercase ''SOCKS'' = ''SOCKS''" "to_ascii_uppercase ''DIRECT'' = ''DIRECT''"
  by code_simp+

lemma pac_text_words:
  assumes "pac_target d"
  shows "parse_pac_directive (pac_text d) = Some d"
  using assms
proof (cases d)
  case Direct
  then show ?thesis by (simp add: parse_pac_directive_def split_whitespace_def is_ws_facts upper_keywords)
next
  case (Proxy t)
  then have "t \<noteq> []" "split_ws_acc [] t = [t]" using assms by (auto simp: pac_target_def split_ws_word list_all_iff)
  then show ?thesis using Proxy by (simp add: parse_pac_directive_def split_whitespace_def is_ws_facts upper_keywords)
next
  case (Socks t)
  then have "t \<noteq> []" "split_ws_acc [] t = [t]" using assms by (auto simp: pac_target_def split_ws_word list_all_iff)
  then show ?thesis using Socks by (simp add: parse_pac_directive_def split_whitespace_def is_ws_facts upper_keywords)
qed

lemma pac_text_trimmed:
  assumes "pac_target d"
  shows "trim (CHR '' '' # pac_text d) = pac_text d" "trim (pac_text d) = pac_text d" "CHR '';'' \<notin> set (pac_text d)"
proof -
  have e: "pac_text d \<noteq> [] \<and> \<not> is_ws (hd (pac_text d)) \<and> \<not> is_ws (last (pac_text d))"
    using assms by (cases d) (auto simp: pac_target_def is_ws_facts list_all_iff)
  then show t: "trim (pac_text d) = pac_text d" by (intro trim_id) simp
  have "trim_start (CHR '' '' # pac_text d) = trim_start (pac_text d)" by (simp add: trim_start_def is_ws_facts)
  then show "trim (CHR '' '' # pac_text d) = pac_text d" using t by (simp add: trim_def)
  show "CHR '';'' \<notin> set (pac_text d)" using assms by (cases d) (auto simp: pac_target_def list_all_iff)
qed

text \<open>
  Every candidate a script lists is kept, in order, with the usual separators.
\<close>

theorem pac_result_roundtrip:
  "ds \<noteq> [] \<Longrightarrow> list_all pac_target ds \<Longrightarrow> parse_pac_result (join ''; '' (map pac_text ds)) = ds"
proof -
  have tail: "List.map_filter (\<lambda>c. parse_pac_directive (trim c)) (split_on (CHR '';'') (CHR '' '' # join ''; '' (map pac_text ds))) = ds"
    if "ds \<noteq> []" "list_all pac_target ds" for ds
    using that
  proof (induction ds)
    case (Cons d ds)
    then have d: "pac_target d" "CHR '';'' \<notin> set (CHR '' '' # pac_text d)" using pac_text_trimmed(3) by auto
    show ?case
    proof (cases ds)
      case Nil
      then show ?thesis using d by (simp add: split_on_absent pac_text_trimmed(1) pac_text_words List.map_filter_simps del: split_on.simps)
    next
      case (Cons e es)
      then have "CHR '' '' # join ''; '' (map pac_text (d # ds)) = (CHR '' '' # pac_text d) @ CHR '';'' # (CHR '' '' # join ''; '' (map pac_text ds))" by simp
      then have "split_on (CHR '';'') (CHR '' '' # join ''; '' (map pac_text (d # ds))) =
          (CHR '' '' # pac_text d) # split_on (CHR '';'') (CHR '' '' # join ''; '' (map pac_text ds))"
        by (simp only: split_on_append [OF d(2)])
      then show ?thesis using d(1) Cons Cons.IH \<open>list_all pac_target (d # ds)\<close>
        by (simp only:) (simp add: List.map_filter_simps pac_text_trimmed(1) pac_text_words del: split_on.simps)
    qed
  qed simp
  assume ds: "ds \<noteq> []" "list_all pac_target ds"
  show "parse_pac_result (join ''; '' (map pac_text ds)) = ds"
  proof (cases ds)
    case (Cons d es)
    then have d: "pac_target d" using ds by simp
    show ?thesis
    proof (cases "es = []")
      case True
      then show ?thesis using d Cons by (simp add: parse_pac_result_def split_on_absent pac_text_trimmed pac_text_words List.map_filter_simps)
    next
      case False
      then have "join ''; '' (map pac_text ds) = pac_text d @ CHR '';'' # (CHR '' '' # join ''; '' (map pac_text es))"
        using Cons by (cases es) simp_all
      then show ?thesis using d Cons tail [OF False] ds
        by (simp only: parse_pac_result_def split_on_append [OF pac_text_trimmed(3) [OF d]])
           (simp add: List.map_filter_simps pac_text_trimmed(2) pac_text_words del: split_on.simps)
    qed
  qed (use ds in simp)
qed

text \<open>Failing over tries the candidates in order and ends when the last one has failed.\<close>

theorem pac_failover_in_order:
  "candidate (((fst \<circ> pac_advance) ^^ k) (pac_new now cs)) = (if k < length cs then Some (cs ! k) else None) \<and>
   (exhausted (((fst \<circ> pac_advance) ^^ k) (pac_new now cs)) \<longleftrightarrow> length cs \<le> k)"
proof -
  have "((fst \<circ> pac_advance) ^^ k) (pac_new now cs) = \<lparr>pd_candidates = cs, pd_current = k, pd_decided_at = now\<rparr>"
    by (induction k) (simp_all add: pac_new_def pac_advance_def Let_def)
  then show ?thesis by (simp add: candidate_def exhausted_def)
qed

section \<open>Entries that match nothing\<close>

text \<open>The host of a URL with an IPv6 address has brackets, so address rules never match it.\<close>

lemma bracketed_host_missed:
  "parse_bypass ''::1'' = Inr (Ip (V6 1)) \<and> \<not> rule_matches (Ip (V6 1)) ''[::1]'' \<and>
   parse_bypass ''::/0'' = Inr (Cidr (V6 0) 0) \<and> \<not> rule_matches (Cidr (V6 0) 0) ''[::1]''"
  by code_simp

lemma dotted_entry_matches_nothing:
  "parse_bypass ''.example.com'' = Inr (Host ''.example.com'') \<and> \<not> rule_matches (Host ''.example.com'') ''a.example.com'' \<and>
   \<not> rule_matches (Host ''.example.com'') ''example.com''"
  by code_simp

end
