(* ===== verification/Pacing.thy ===== *)
theory Pacing
  imports Exec_Config
begin

text \<open>
  Think time between iterations, \<^verbatim>\<open>crates/tropel-engine/src/pacing.rs\<close>. Durations are nanoseconds. The
  duration parser of the SDK is the parameter \<open>pd\<close>, the random number drawn from \<open>0..=n\<close> is \<open>rnd n\<close>,
  and a stop signal is the time it takes to come, if it comes.
\<close>

section \<open>The pause\<close>

record think_time_config =
  tt_iteration_pacing :: "string option"
  tt_delay :: "string option"
  tt_min_delay :: "string option"
  tt_max_delay :: "string option"

fun extract_think_time :: "'think execution_config \<Rightarrow> 'think" where
  "extract_think_time (ConstantVus vus duration gs tt) = tt"
| "extract_think_time (RampingVus stages start grd gs tt) = tt"
| "extract_think_time (ConstantArrivalRate rate tu duration pre mx gs tt) = tt"
| "extract_think_time (SharedIterations iters md vus gs tt) = tt"
| "extract_think_time (RampingArrivalRate start stages tu pre mx gs tt) = tt"
| "extract_think_time (PerVUIterations vus iters md gs tt) = tt"
| "extract_think_time (ExternallyControlled vus mx duration gs tt) = tt"

definition parse_duration_str :: "(string \<Rightarrow> nat option) \<Rightarrow> string \<Rightarrow> nat option" where
  "parse_duration_str pd s0 =
     (let s = trim s0 in if s = [] \<or> s = ''0'' \<or> s = ''0s'' then Some 0 else pd s)"

definition MILLI :: nat where "MILLI = 1000000"

definition interruptible_sleep :: "nat option \<Rightarrow> nat \<Rightarrow> nat" where
  "interruptible_sleep stop dur = (case stop of Some t \<Rightarrow> min t dur | None \<Rightarrow> dur)"

text \<open>The time spent: zero where the source returns without sleeping.\<close>

definition random_delay :: "(string \<Rightarrow> nat option) \<Rightarrow> (nat \<Rightarrow> nat) \<Rightarrow> think_time_config \<Rightarrow> nat option \<Rightarrow> nat" where
  "random_delay pd rnd config stop =
     (case (tt_min_delay config, tt_max_delay config) of
        (Some min_str, Some max_str) \<Rightarrow>
          (case (parse_duration_str pd min_str, parse_duration_str pd max_str) of
             (Some mn, Some mx) \<Rightarrow>
               if 0 < mx \<and> mn < mx then
                 (let range_ms = wrap_u64 ((mx - mn) div MILLI)
                  in interruptible_sleep stop (mn + rnd range_ms * MILLI))
               else 0
           | _ \<Rightarrow> 0)
      | _ \<Rightarrow> 0)"

definition fixed_delay :: "(string \<Rightarrow> nat option) \<Rightarrow> (nat \<Rightarrow> nat) \<Rightarrow> think_time_config \<Rightarrow> nat option \<Rightarrow> nat" where
  "fixed_delay pd rnd config stop =
     (case Option.bind (tt_delay config) (parse_duration_str pd) of
        Some delay \<Rightarrow> if MILLI < delay then interruptible_sleep stop delay else random_delay pd rnd config stop
      | None \<Rightarrow> random_delay pd rnd config stop)"

definition apply_think_time ::
    "(string \<Rightarrow> nat option) \<Rightarrow> (nat \<Rightarrow> nat) \<Rightarrow> think_time_config \<Rightarrow> nat option \<Rightarrow> nat option \<Rightarrow> nat" where
  "apply_think_time pd rnd config iter_duration stop =
     (case Option.bind (tt_iteration_pacing config) (parse_duration_str pd) of
        Some pacing \<Rightarrow>
          (case iter_duration of
             Some actual \<Rightarrow>
               if actual < pacing \<and> MILLI < pacing - actual then interruptible_sleep stop (pacing - actual) else 0
           | None \<Rightarrow> 0)
      | None \<Rightarrow> fixed_delay pd rnd config stop)"

section \<open>What the pause amounts to\<close>

lemma interruptible_sleep_le: "interruptible_sleep stop dur \<le> dur"
  by (simp add: interruptible_sleep_def split: option.split)

text \<open>
  With a pacing, an iteration and its pause together take the pacing, short of it by at most a
  millisecond, unless the iteration alone takes longer, in which case there is no pause, or the run is
  stopped. No other delay is added.
\<close>

theorem pacing_exact:
  assumes "Option.bind (tt_iteration_pacing config) (parse_duration_str pd) = Some pacing"
  shows "actual + apply_think_time pd rnd config (Some actual) stop \<le> max actual pacing \<and>
    (stop = None \<longrightarrow> pacing \<le> actual + apply_think_time pd rnd config (Some actual) stop + MILLI) \<and>
    apply_think_time pd rnd config None stop = 0"
  using assms interruptible_sleep_le [of stop "pacing - actual"]
  by (auto simp: apply_think_time_def interruptible_sleep_def)

theorem pacing_exact_witness:
  "30 + apply_think_time (\<lambda>_. Some 5000000) id \<lparr>tt_iteration_pacing = Some ''5ms'', tt_delay = None, tt_min_delay = None, tt_max_delay = None\<rparr>
     (Some 30) None \<le> 5000000"
  using pacing_exact [of "\<lparr>tt_iteration_pacing = Some ''5ms'', tt_delay = None, tt_min_delay = None, tt_max_delay = None\<rparr>"
      "\<lambda>_. Some 5000000" 5000000 30 id None]
  by (simp add: parse_duration_str_def Let_def trim_def trim_start_def trim_end_def is_ws_def)

text \<open>A pause drawn between two delays lies between them.\<close>

theorem random_delay_between:
  assumes "\<And>n. rnd n \<le> n" and "tt_min_delay config = Some a" "tt_max_delay config = Some b"
    and "parse_duration_str pd a = Some mn" "parse_duration_str pd b = Some mx" "mn < mx" "mx \<le> u64_max * MILLI"
  shows "mn \<le> random_delay pd rnd config None \<and> random_delay pd rnd config None \<le> mx"
proof -
  have "(mx - mn) div MILLI \<le> u64_max"
    using assms(7) by (metis MILLI_def diff_le_self div_le_mono div_mult_self_is_m order_trans zero_less_numeral)
  then have "rnd (wrap_u64 ((mx - mn) div MILLI)) * MILLI \<le> (mx - mn) div MILLI * MILLI"
    using assms(1) by (simp add: wrap_u64_id)
  also have "\<dots> \<le> mx - mn" by simp
  finally show ?thesis using assms by (simp add: random_delay_def Let_def interruptible_sleep_def)
qed

text \<open>Two equal delays give no pause at all.\<close>

lemma equal_delays_no_pause:
  "random_delay (\<lambda>_. Some 1000000000) id \<lparr>tt_iteration_pacing = None, tt_delay = None, tt_min_delay = Some ''1s'', tt_max_delay = Some ''1s''\<rparr> None = 0"
  by code_simp

end
