(* ===== verification/Wire.thy ===== *)
theory Wire
  imports Prelude "HOL-Library.Word"
begin

unbundle bit_operations_syntax

text \<open>
  The wire protocol between controller and agents, \<^verbatim>\<open>crates/tropel-distributed/src/protocol.rs\<close>:
  length-prefixed frames, the comparison and the generation of the shared token, and the three
  messages. A stream is the list of the bytes not yet read. The JSON encoder and decoder are those
  of \<^verbatim>\<open>serde_json\<close>: they are parameters, of which the development relies on the round trip only. The
  random bytes of a token are an argument.
\<close>

section \<open>Frames\<close>

datatype wire_error =
    Serialize_failed | Frame_too_large nat | Unexpected_eof | Deserialize_failed

definition MAX_FRAME :: nat where "MAX_FRAME = 512 * 1024 * 1024"

definition u32_to_be_bytes :: "nat \<Rightarrow> string" where
  "u32_to_be_bytes n =
     [char_of (n div 2 ^ 24), char_of (n div 2 ^ 16), char_of (n div 2 ^ 8), char_of n]"

definition u32_from_be_bytes :: "string \<Rightarrow> nat" where
  "u32_from_be_bytes bs = fold (\<lambda>b acc. acc * 256 + of_char b) bs 0"

definition write_frame :: "('m \<Rightarrow> string option) \<Rightarrow> 'm \<Rightarrow> wire_error + string" where
  "write_frame ser msg =
     bindE (ok_or Serialize_failed (ser msg)) (\<lambda>data.
       if MAX_FRAME < length data then Inl (Frame_too_large (length data))
       else Inr (u32_to_be_bytes (wrap_u32 (length data)) @ data))"

definition read_exact :: "nat \<Rightarrow> string \<Rightarrow> wire_error + (string \<times> string)" where
  "read_exact n s = (if length s < n then Inl Unexpected_eof else Inr (take n s, drop n s))"

definition CHUNK :: nat where "CHUNK = 64 * 1024"

text \<open>The body is read in chunks of at most 64 KiB, whatever length the prefix declares.\<close>

function read_body :: "nat \<Rightarrow> string \<Rightarrow> string \<Rightarrow> wire_error + (string \<times> string)" where
  "read_body remaining data s =
     (if remaining = 0 then Inr (data, s)
      else
        (let k = min remaining CHUNK in
         bindE (read_exact k s) (\<lambda>(chunk, rest). read_body (remaining - k) (data @ chunk) rest)))"
  by pat_completeness auto
termination by (relation "measure fst") (auto simp: CHUNK_def)

declare read_body.simps [simp del]

definition read_frame :: "(string \<Rightarrow> 'm option) \<Rightarrow> string \<Rightarrow> wire_error + ('m \<times> string)" where
  "read_frame deser s =
     bindE (read_exact 4 s) (\<lambda>(len_buf, s).
       let len = u32_from_be_bytes len_buf in
       if MAX_FRAME < len then Inl (Frame_too_large len)
       else bindE (read_body len [] s) (\<lambda>(data, s).
         bindE (ok_or Deserialize_failed (deser data)) (\<lambda>msg. Inr (msg, s))))"

section \<open>Tokens\<close>

definition byte :: "char \<Rightarrow> 8 word" where "byte c = word_of_nat (of_char c)"

definition token_matches :: "string \<Rightarrow> string \<Rightarrow> bool" where
  "token_matches expect got =
     (if length expect \<noteq> length got then False
      else fold (\<lambda>(e, g) diff. diff OR (byte e XOR byte g)) (zip expect got) (0 :: 8 word) = 0)"

definition hex_digit :: "nat \<Rightarrow> char" where
  "hex_digit d = (if d < 10 then char_of (48 + d) else char_of (87 + d))"

definition generate_token :: "nat list \<Rightarrow> string" where
  "generate_token bytes = concat (map (\<lambda>b. [hex_digit (b div 16), hex_digit (b mod 16)]) bytes)"

section \<open>Messages\<close>

record hello_msg =
  hello_token :: string
  hello_version :: string

record 'c assign_msg =
  asg_config :: 'c
  asg_segment :: string
  asg_sequence :: "string option"
  asg_index :: nat
  asg_total :: nat
  asg_token :: string

record 's snapshot_msg =
  sm_snapshot :: 's
  sm_done :: bool

definition default_done :: bool where "default_done = True"

section \<open>Frames round trip\<close>

lemma read_body_all:
  "read_body n data s = (if length s < n then Inl Unexpected_eof else Inr (data @ take n s, drop n s))"
proof (induction n arbitrary: data s rule: less_induct)
  case (less n)
  show ?case
  proof (cases "n = 0")
    case False
    define k where "k = min n CHUNK"
    have k: "0 < k" "k \<le> n" using False by (auto simp: k_def CHUNK_def)
    show ?thesis
    proof (cases "length s < k")
      case True
      then show ?thesis using False k by (subst read_body.simps) (simp add: Let_def k_def [symmetric] read_exact_def)
    next
      case short: False
      have "read_body n data s = read_body (n - k) (data @ take k s) (drop k s)"
        using False short by (subst read_body.simps) (simp add: Let_def k_def [symmetric] read_exact_def)
      also have "\<dots> = (if length s < n then Inl Unexpected_eof else Inr (data @ take n s, drop n s))"
        using k short less.IH [of "n - k" "data @ take k s" "drop k s"]
        by (auto simp: take_add [of k "n - k" s, symmetric] add.commute)
      finally show ?thesis .
    qed
  qed (simp add: read_body.simps)
qed

lemma be_bytes_inverse: "n < 2 ^ 32 \<Longrightarrow> u32_from_be_bytes (u32_to_be_bytes n) = n"
proof -
  assume n: "n < 2 ^ 32"
  have "n div 2 ^ 24 < 256" using n by (simp add: less_mult_imp_div_less)
  then have a: "n div 16777216 mod 256 = n div 16777216" by simp
  have "((n div 16777216 * 256 + n div 65536 mod 256) * 256 + n div 256 mod 256) * 256 + n mod 256 = n"
  proof -
    have "n div 65536 = n div 16777216 * 256 + n div 65536 mod 256"
      using div_mult_mod_eq [of "n div 65536" 256] by (simp add: div_mult2_eq [symmetric])
    moreover have "n div 256 = n div 65536 * 256 + n div 256 mod 256"
      using div_mult_mod_eq [of "n div 256" 256] by (simp add: div_mult2_eq [symmetric])
    moreover have "n = n div 256 * 256 + n mod 256" by simp
    ultimately show ?thesis by (metis add.commute)
  qed
  then show ?thesis by (simp add: u32_from_be_bytes_def u32_to_be_bytes_def a)
qed

lemma length_be_bytes [simp]: "length (u32_to_be_bytes n) = 4"
  by (simp add: u32_to_be_bytes_def)

lemma frame_roundtrip:
  assumes "write_frame ser msg = Inr bytes" and "\<And>data. ser msg = Some data \<Longrightarrow> deser data = Some msg"
  shows "read_frame deser (bytes @ rest) = Inr (msg, rest)"
proof -
  obtain data where d: "ser msg = Some data" "length data \<le> MAX_FRAME"
    and b: "bytes = u32_to_be_bytes (wrap_u32 (length data)) @ data"
    using assms(1) by (auto simp: write_frame_def split: if_splits)
  have "length data < 2 ^ 32" using d(2) by (simp add: MAX_FRAME_def)
  then have len: "u32_from_be_bytes (u32_to_be_bytes (wrap_u32 (length data))) = length data"
    by (simp add: wrap_u32_def be_bytes_inverse)
  show ?thesis unfolding b read_frame_def
    using d assms(2) [OF d(1)] len by (simp add: read_exact_def read_body_all)
qed

lemma read_frame_shrinks: "read_frame deser s = Inr (msg, rest) \<Longrightarrow> length rest < length s"
  by (auto simp: read_frame_def read_exact_def read_body_all Let_def split: if_splits)

text \<open>
  A message written to the stream is read back with exactly the rest of the stream left, whatever
  follows it; a prefix that declares more than the maximum is refused whatever follows.
\<close>

theorem frame_exact:
  assumes "write_frame ser msg = Inr bytes" and "\<And>data. ser msg = Some data \<Longrightarrow> deser data = Some msg"
  shows "read_frame deser (bytes @ rest) = Inr (msg, rest) \<and>
    (\<forall>n s. MAX_FRAME < n \<and> n < 2 ^ 32 \<longrightarrow> read_frame deser (u32_to_be_bytes n @ s) = Inl (Frame_too_large n))"
  using frame_roundtrip [OF assms]
  by (auto simp: read_frame_def read_exact_def be_bytes_inverse)

section \<open>Token comparison\<close>

lemma xor_zero: "a XOR b = 0 \<longleftrightarrow> a = (b :: 8 word)"
proof
  assume z: "a XOR b = 0"
  show "a = b"
  proof (rule bit_eqI)
    fix n
    have "bit (a XOR b) n = False" using z by simp
    then show "bit a n = bit b n" by (simp add: bit_xor_iff)
  qed
qed simp

lemma or_fold_zero:
  "fold (\<lambda>(e, g) diff. diff OR (byte e XOR byte g)) ps (d :: 8 word) = 0 \<longleftrightarrow>
   d = 0 \<and> (\<forall>(e, g) \<in> set ps. byte e = byte g)"
  by (induction ps arbitrary: d) (auto simp: or_eq_0_iff xor_zero)

lemma byte_inj: "byte e = byte g \<longleftrightarrow> e = g"
proof
  have "unat (byte c) = of_char c" for c
    using nat_of_char_less_256 [of c] by (simp add: byte_def unat_of_nat take_bit_eq_mod)
  moreover assume "byte e = byte g"
  ultimately have "of_char e = (of_char g :: nat)" by metis
  then show "e = g" by simp
qed simp

lemma token_matches_iff: "token_matches expect got \<longleftrightarrow> expect = got"
proof -
  have "expect = got \<longleftrightarrow> length expect = length got \<and> (\<forall>(e, g) \<in> set (zip expect got). e = g)"
    by (auto simp: list_eq_iff_zip_eq)
  then show ?thesis by (auto simp: token_matches_def or_fold_zero byte_inj)
qed

end
