(* ===== verification/Distributed.thy ===== *)
theory Distributed
  imports Wire Scaling Snapshots Threshold_Eval
begin

text \<open>
  Distributed runs: the controller (\<^verbatim>\<open>crates/tropel-distributed/src/controller.rs\<close>), the agent
  (\<^verbatim>\<open>agent.rs\<close>) and the token helpers of \<^verbatim>\<open>lib.rs\<close>. A connection is the bytes its peer sends, with
  what the timers and the socket do to it; which connection a task of the controller accepts is
  arbitrary, so the list of connections is any list. JSON is a parameter, as in the wire protocol,
  and so are the job configuration of the SDK beyond the fields used here and its duration parser.
\<close>

section \<open>The job\<close>

record ('t, 'o) job_config =
  jc_execution :: "'t execution_config"
  jc_segment :: "string option"
  jc_sequence :: "string option"
  jc_worker :: bool
  jc_output :: 'o
  jc_thresholds :: "(string \<times> threshold_config) list"

datatype dist_error =
    No_agents | Bad_sequence seg_error | Wrong_boundaries nat nat
  | Accept_timeout | Accept_failed | Hello_timeout nat | Auth_failed | Snapshot_timeout nat
  | Wire_failed wire_error | Write_failed | Task_panicked | Merge_failed snapshot_error

section \<open>Tokens\<close>

definition has_token_source :: "string option \<Rightarrow> string option \<Rightarrow> string option \<Rightarrow> bool" where
  "has_token_source cli file env \<longleftrightarrow> cli \<noteq> None \<or> file \<noteq> None \<or> env \<noteq> None"

datatype token_error = Io_failed string | Empty_token_file string | No_token

definition resolve_token ::
    "(string \<Rightarrow> string option) \<Rightarrow> string option \<Rightarrow> string option \<Rightarrow> string option \<Rightarrow> token_error + string" where
  "resolve_token read_file cli file env =
     (case cli of
        Some (c # cs) \<Rightarrow> Inr (c # cs)
      | _ \<Rightarrow>
          (case file of
             Some path \<Rightarrow>
               bindE (ok_or (Io_failed path) (read_file path)) (\<lambda>raw.
                 let t = trim raw in if t = [] then Inl (Empty_token_file path) else Inr t)
           | None \<Rightarrow>
               (case env of
                  Some (c # cs) \<Rightarrow> Inr (c # cs)
                | _ \<Rightarrow> Inl No_token)))"

definition clamp :: "nat \<Rightarrow> nat \<Rightarrow> nat \<Rightarrow> nat" where "clamp lo hi n = max lo (min hi n)"

definition distributed_workers_from_override :: "nat option \<Rightarrow> string option \<Rightarrow> nat" where
  "distributed_workers_from_override parallelism v =
     (case Option.bind v (\<lambda>v. parse_unsigned u64_max (trim v)) of
        Some n \<Rightarrow> clamp 1 256 n
      | None \<Rightarrow> clamp 2 256 (case parallelism of Some n \<Rightarrow> n | None \<Rightarrow> 4))"

section \<open>The segments of the agents\<close>

text \<open>\<open>display\<close> prints an \<^verbatim>\<open>f64\<close>; only a declared sequence prints its boundaries that way.\<close>

fun windows2 :: "'a list \<Rightarrow> ('a \<times> 'a) list" where
  "windows2 (a # b # cs) = (a, b) # windows2 (b # cs)"
| "windows2 _ = []"

definition boundary :: "nat \<Rightarrow> nat \<Rightarrow> string" where
  "boundary i n = show_nat i @ ''/'' @ show_nat n"

definition controller_segments ::
    "(rat \<Rightarrow> string) \<Rightarrow> string option \<Rightarrow> nat \<Rightarrow> dist_error + (string list \<times> string option)" where
  "controller_segments display sequence num_agents =
     (case sequence of
        Some sq \<Rightarrow>
          (case parse_sequence sq of
             Inl e \<Rightarrow> Inl (Bad_sequence e)
           | Inr bounds \<Rightarrow>
               if wrap_u32 (length bounds) \<noteq> wrap_u32 (num_agents + 1)
               then Inl (Wrong_boundaries (length bounds) num_agents)
               else Inr (map (\<lambda>(a, b). display a @ '':'' @ display b) (windows2 bounds), Some sq))
      | None \<Rightarrow>
          (let sq = join '','' (map (\<lambda>i. boundary i num_agents) [0..<num_agents + 1]);
               segs = map (\<lambda>i. boundary i num_agents @ '':'' @ boundary (i + 1) num_agents) [0..<num_agents]
           in Inr (segs, Some sq)))"

section \<open>Timeouts\<close>

definition parse_duration :: "(string \<Rightarrow> nat option) \<Rightarrow> string \<Rightarrow> nat" where
  "parse_duration pd s = (case pd s of Some d \<Rightarrow> d | None \<Rightarrow> 0)"

definition AGENT_BASE_TIMEOUT :: nat where "AGENT_BASE_TIMEOUT = 60000000000"
definition AGENT_GRACE :: nat where "AGENT_GRACE = 120000000000"

definition opt_duration :: "(string \<Rightarrow> nat option) \<Rightarrow> string option \<Rightarrow> nat" where
  "opt_duration pd s = (case s of Some d \<Rightarrow> parse_duration pd d | None \<Rightarrow> 0)"

fun declared_duration :: "(string \<Rightarrow> nat option) \<Rightarrow> 't execution_config \<Rightarrow> nat" where
  "declared_duration pd (ConstantVus vus duration gs tt) = parse_duration pd duration"
| "declared_duration pd (RampingVus stages start grd gs tt) = sum_list (map (\<lambda>s. parse_duration pd (stage_duration s)) stages)"
| "declared_duration pd (ConstantArrivalRate rate tu duration pre mx gs tt) = parse_duration pd duration"
| "declared_duration pd (SharedIterations iters md vus gs tt) = opt_duration pd md"
| "declared_duration pd (RampingArrivalRate start stages tu pre mx gs tt) = sum_list (map (\<lambda>s. parse_duration pd (rate_duration s)) stages)"
| "declared_duration pd (PerVUIterations vus iters md gs tt) = opt_duration pd md"
| "declared_duration pd (ExternallyControlled vus mx duration gs tt) = opt_duration pd duration"

definition agent_timeout :: "(string \<Rightarrow> nat option) \<Rightarrow> ('t, 'o) job_config \<Rightarrow> nat" where
  "agent_timeout pd config = AGENT_BASE_TIMEOUT + declared_duration pd (jc_execution config) + AGENT_GRACE"

section \<open>One task of the controller\<close>

record connection =
  accepted :: "bool option"
  hello_in_time :: bool
  write_ok :: bool
  snapshot_in_time :: bool
  incoming :: string

text \<open>\<open>accepted\<close> is \<open>None\<close> when the wait timed out and \<open>Some False\<close> when the accept failed.\<close>

record ('c, 's) json_codec =
  de_hello :: "string \<Rightarrow> hello_msg option"
  ser_hello :: "hello_msg \<Rightarrow> string option"
  de_assign :: "string \<Rightarrow> 'c assign_msg option"
  ser_assign :: "'c assign_msg \<Rightarrow> string option"
  de_snapshot :: "string \<Rightarrow> 's snapshot_msg option"
  ser_snapshot :: "'s snapshot_msg \<Rightarrow> string option"

function read_agent_snapshot :: "(string \<Rightarrow> 's snapshot_msg option) \<Rightarrow> string \<Rightarrow> dist_error + 's" where
  "read_agent_snapshot deser s =
     (case read_frame deser s of
        Inl e \<Rightarrow> Inl (Wire_failed e)
      | Inr (msg, rest) \<Rightarrow> if sm_done msg then Inr (sm_snapshot msg) else read_agent_snapshot deser rest)"
  by pat_completeness auto
termination by (relation "measure (\<lambda>(_, s). length s)") (auto dest: read_frame_shrinks)

declare read_agent_snapshot.simps [simp del]

definition agent_task ::
    "('c, 's) json_codec \<Rightarrow> string \<Rightarrow> 'c assign_msg \<Rightarrow> connection \<Rightarrow> string \<times> (dist_error + (nat \<times> 's))" where
  "agent_task J token assign c =
     (case accepted c of
        None \<Rightarrow> ([], Inl Accept_timeout)
      | Some False \<Rightarrow> ([], Inl Accept_failed)
      | Some True \<Rightarrow>
          if \<not> hello_in_time c then ([], Inl (Hello_timeout (asg_index assign)))
          else
            (case read_frame (de_hello J) (incoming c) of
               Inl e \<Rightarrow> ([], Inl (Wire_failed e))
             | Inr (hello, rest) \<Rightarrow>
                 if \<not> token_matches token (hello_token hello) then ([], Inl Auth_failed)
                 else
                   (case write_frame (ser_assign J) assign of
                      Inl e \<Rightarrow> ([], Inl (Wire_failed e))
                    | Inr bytes \<Rightarrow>
                        if \<not> write_ok c then (bytes, Inl Write_failed)
                        else if \<not> snapshot_in_time c then (bytes, Inl (Snapshot_timeout (asg_index assign)))
                        else
                          (case read_agent_snapshot (de_snapshot J) rest of
                             Inl e \<Rightarrow> (bytes, Inl e)
                           | Inr snapshot \<Rightarrow> (bytes, Inr (asg_index assign, snapshot))))))"

section \<open>The controller\<close>

text \<open>
  Joining: \<open>None\<close> is a task that panicked. The first failure ends the run. The slot of a task is always
  in range, because there are as many segments as agents.
\<close>

fun join_tasks :: "(dist_error + (nat \<times> 's)) option list \<Rightarrow> 's option list \<Rightarrow> dist_error + 's option list" where
  "join_tasks [] slots = Inr slots"
| "join_tasks (None # ts) slots = Inl Task_panicked"
| "join_tasks (Some (Inl e) # ts) slots = Inl e"
| "join_tasks (Some (Inr (i, s)) # ts) slots = join_tasks ts (slots[i := Some s])"

definition assignments ::
    "('o \<Rightarrow> 'o) \<Rightarrow> string \<Rightarrow> ('t, 'o) job_config \<Rightarrow> nat \<Rightarrow> string list \<Rightarrow> string option \<Rightarrow>
     ('t, 'o) job_config assign_msg list" where
  "assignments into_worker token config num_agents segs sq =
     map (\<lambda>(i, seg).
       \<lparr>asg_config = config\<lparr>jc_output := into_worker (jc_output config)\<rparr>, asg_segment = seg, asg_sequence = sq,
        asg_index = i, asg_total = num_agents, asg_token = token\<rparr>) (enumerate 0 segs)"

text \<open>
  The bytes sent to every connection and the result. \<open>panics i\<close> says that task \<open>i\<close> panicked; the
  tasks run concurrently and share nothing, so their order does not matter.
\<close>

definition run_controller ::
    "'h hdr \<Rightarrow> (string \<Rightarrow> string option) \<Rightarrow> nat \<Rightarrow> nat \<Rightarrow> nat \<Rightarrow> (rat \<Rightarrow> string) \<Rightarrow> ('o \<Rightarrow> 'o) \<Rightarrow>
     (('t, 'o) job_config, metrics_snapshot) json_codec \<Rightarrow> ('t, 'o) job_config \<Rightarrow> nat \<Rightarrow> string \<Rightarrow> (nat \<Rightarrow> bool) \<Rightarrow>
     connection list \<Rightarrow> string list \<times> (dist_error + 'h metrics_result)" where
  "run_controller X dec elapsed out_lost agg_lost display into_worker J config num_agents token panics conns =
     (if num_agents = 0 then ([], Inl No_agents)
      else
        (case controller_segments display (jc_sequence config) num_agents of
           Inl e \<Rightarrow> ([], Inl e)
         | Inr (segs, sq) \<Rightarrow>
             (let tasks = map (\<lambda>(a, c). agent_task J token a c)
                    (zip (assignments into_worker token config num_agents segs sq) conns);
                  results = map (\<lambda>(i, t). if panics i then None else Some (snd t)) (enumerate 0 tasks)
              in (map fst tasks,
                  bindE (join_tasks results (replicate num_agents None)) (\<lambda>slots.
                    let snaps = List.map_filter (\<lambda>x. x) slots in
                    case merge_snapshots X dec elapsed out_lost agg_lost (jc_thresholds config) snaps of
                      Inl e \<Rightarrow> Inl (Merge_failed e)
                    | Inr r \<Rightarrow> Inr r)))))"

section \<open>The agent\<close>

definition CONNECT_TOTAL_BOUND :: nat where "CONNECT_TOTAL_BOUND = 300000000000"
definition CONNECT_ATTEMPT_TIMEOUT :: nat where "CONNECT_ATTEMPT_TIMEOUT = 10000000000"
definition CONNECT_INITIAL_BACKOFF :: nat where "CONNECT_INITIAL_BACKOFF = 250000000"
definition CONNECT_MAX_BACKOFF :: nat where "CONNECT_MAX_BACKOFF = 5000000000"

text \<open>What the \<open>k\<close>-th attempt would do, and after how many nanoseconds; the timeout cuts it off.\<close>

datatype attempt = Connects nat | Refused nat | Hangs

datatype connect_result = Connected nat | Io_refused nat | Unreachable nat

definition attempt_outcome :: "attempt \<Rightarrow> bool option \<times> nat" where
  "attempt_outcome a =
     (let timed_out = (None, CONNECT_ATTEMPT_TIMEOUT) in
      case a of
        Connects d \<Rightarrow> if d < CONNECT_ATTEMPT_TIMEOUT then (Some True, d) else timed_out
      | Refused d \<Rightarrow> if d < CONNECT_ATTEMPT_TIMEOUT then (Some False, d) else timed_out
      | Hangs \<Rightarrow> timed_out)"

partial_function (option) connect_loop ::
    "(nat \<Rightarrow> attempt) \<Rightarrow> nat \<Rightarrow> nat \<Rightarrow> nat \<Rightarrow> nat \<Rightarrow> (connect_result \<times> nat) option" where
  "connect_loop env deadline attempt now backoff =
     (let (outcome, d) = attempt_outcome (env attempt); t = now + d in
      if outcome = Some True then Some (Connected (attempt + 1), t)
      else if deadline \<le> t then
        Some (if outcome = None then Unreachable (attempt + 1) else Io_refused (attempt + 1), t)
      else connect_loop env deadline (attempt + 1) (t + backoff) (min (backoff * 2) CONNECT_MAX_BACKOFF))"

definition connect_with_retry :: "(nat \<Rightarrow> attempt) \<Rightarrow> nat \<Rightarrow> (connect_result \<times> nat) option" where
  "connect_with_retry env now = connect_loop env (now + CONNECT_TOTAL_BOUND) 0 now CONNECT_INITIAL_BACKOFF"

text \<open>
  The events of the select loop: a progress snapshot of the engine, with whether its write succeeds,
  the end of the progress channel, and the end of the engine, with whether the last write succeeds.
\<close>

datatype agent_error = Agent_wire wire_error | Agent_write | Controller_auth_failed | Engine_failed string

datatype 's agent_event = Progress 's bool | Channel_closed | Engine_done "string + 's" bool

fun agent_loop :: "('s snapshot_msg \<Rightarrow> string option) \<Rightarrow> 's agent_event list \<Rightarrow> string list \<times> (agent_error + unit) option" where
  "agent_loop ser [] = ([], None)"
| "agent_loop ser (Progress snap ok # es) =
     (let (sent, r) = agent_loop ser es in
      case write_frame ser \<lparr>sm_snapshot = snap, sm_done = False\<rparr> of
        Inl _ \<Rightarrow> (sent, r)
      | Inr bytes \<Rightarrow> (if ok then bytes # sent else sent, r))"
| "agent_loop ser (Channel_closed # es) = ([], Some (Inr ()))"
| "agent_loop ser (Engine_done result ok # es) =
     (case result of
        Inl e \<Rightarrow> ([], Some (Inl (Engine_failed e)))
      | Inr snap \<Rightarrow>
          (case write_frame ser \<lparr>sm_snapshot = snap, sm_done = True\<rparr> of
             Inl e \<Rightarrow> ([], Some (Inl (Agent_wire e)))
           | Inr bytes \<Rightarrow> if ok then ([bytes], Some (Inr ())) else ([], Some (Inl Agent_write))))"

definition worker_config :: "('t, 'o) job_config assign_msg \<Rightarrow> ('t, 'o) job_config" where
  "worker_config assign = (asg_config assign)\<lparr>jc_worker := True, jc_segment := Some (asg_segment assign),
     jc_sequence := asg_sequence assign\<rparr>"

text \<open>
  The frames sent, the job the engine is started with, if it is, and the result. \<open>run\<close> gives the
  events of a run of the engine on a job.
\<close>

definition run_agent ::
    "(('t, 'o) job_config, 's) json_codec \<Rightarrow> (('t, 'o) job_config \<Rightarrow> 's agent_event list) \<Rightarrow> string \<Rightarrow> string \<Rightarrow> string \<Rightarrow>
     string list \<times> ('t, 'o) job_config option \<times> (agent_error + unit) option" where
  "run_agent J run version token received =
     (case write_frame (ser_hello J) \<lparr>hello_token = token, hello_version = version\<rparr> of
        Inl e \<Rightarrow> ([], None, Some (Inl (Agent_wire e)))
      | Inr hello \<Rightarrow>
          (case read_frame (de_assign J) received of
             Inl e \<Rightarrow> ([hello], None, Some (Inl (Agent_wire e)))
           | Inr (assign, _) \<Rightarrow>
               if \<not> token_matches token (asg_token assign) then ([hello], None, Some (Inl Controller_auth_failed))
               else
                 (let config = worker_config assign; (sent, r) = agent_loop (ser_snapshot J) (run config)
                  in (hello # sent, Some config, r))))"

section \<open>Everything in one process\<close>

text \<open>
  \<open>bound\<close> says that the loopback listener could be bound; \<open>handles\<close> are the results of the spawned
  agents, \<open>None\<close> for one whose task could not be joined. They are awaited only after a merge.
\<close>

datatype cloud_error = Cloud_config | Cloud_io | Cloud_controller dist_error | Agent_join_failed | Cloud_agent agent_error

fun await_agents :: "(agent_error + unit) option list \<Rightarrow> cloud_error + unit" where
  "await_agents [] = Inr ()"
| "await_agents (None # hs) = Inl Agent_join_failed"
| "await_agents (Some (Inl e) # hs) = Inl (Cloud_agent e)"
| "await_agents (Some (Inr ()) # hs) = await_agents hs"

definition run_cloud ::
    "'h hdr \<Rightarrow> (string \<Rightarrow> string option) \<Rightarrow> nat \<Rightarrow> nat \<Rightarrow> nat \<Rightarrow> (rat \<Rightarrow> string) \<Rightarrow> ('o \<Rightarrow> 'o) \<Rightarrow>
     (('t, 'o) job_config, metrics_snapshot) json_codec \<Rightarrow> ('t, 'o) job_config \<Rightarrow> nat \<Rightarrow> string \<Rightarrow> (nat \<Rightarrow> bool) \<Rightarrow>
     connection list \<Rightarrow> bool \<Rightarrow> (agent_error + unit) option list \<Rightarrow> cloud_error + 'h metrics_result" where
  "run_cloud X dec elapsed out_lost agg_lost display into_worker J config agents token panics conns bound handles =
     (if agents = 0 then Inl Cloud_config
      else if \<not> bound then Inl Cloud_io
      else
        (case snd (run_controller X dec elapsed out_lost agg_lost display into_worker J config agents token panics conns) of
           Inl e \<Rightarrow> Inl (Cloud_controller e)
         | Inr merged \<Rightarrow> bindE (await_agents handles) (\<lambda>_. Inr merged)))"

section \<open>The verdict\<close>

text \<open>
  A reporter is what its \<^verbatim>\<open>report\<close> returns; \<open>create\<close> makes the reporter of a name. Unknown names are
  skipped, the first failing reporter ends the command. The summary export has no effect on the
  outcome.
\<close>

definition create_reporter :: "'k \<Rightarrow> 'k \<Rightarrow> 'k \<Rightarrow> string \<Rightarrow> 'k option" where
  "create_reporter stdout json csv name =
     (if name = ''stdout'' then Some stdout else if name = ''json'' then Some json
      else if name = ''csv'' then Some csv else None)"

datatype report_error = Reporter_failed string | Thresholds_failed

fun run_reporters :: "('r \<Rightarrow> string option) list \<Rightarrow> 'r \<Rightarrow> report_error + unit" where
  "run_reporters [] r = Inr ()"
| "run_reporters (k # ks) r = (case k r of Some e \<Rightarrow> Inl (Reporter_failed e) | None \<Rightarrow> run_reporters ks r)"

definition report_and_thresholds ::
    "'h hdr \<Rightarrow> (string \<Rightarrow> nat option) \<Rightarrow> (string \<Rightarrow> ('h metrics_result \<Rightarrow> string option) option) \<Rightarrow> string list \<Rightarrow>
     'h metrics_result \<Rightarrow> report_error + unit" where
  "report_and_thresholds X pd create names result =
     bindE (run_reporters (List.map_filter create names) result) (\<lambda>_.
       let any_failed = fold (\<lambda>tr failed. if tr_passed tr then failed else True)
             (evaluate_thresholds X pd (effective_thresholds result) result) False
       in if any_failed then Inl Thresholds_failed else Inr ())"

section \<open>Connecting ends in time\<close>

lemma attempt_outcome_bound: "attempt_outcome a = (r, d) \<Longrightarrow> d \<le> CONNECT_ATTEMPT_TIMEOUT"
  by (auto simp: attempt_outcome_def Let_def split: attempt.splits if_splits)

lemma connect_loop_returns:
  assumes "0 < backoff" "backoff \<le> CONNECT_MAX_BACKOFF" "now \<le> deadline + CONNECT_MAX_BACKOFF"
  shows "\<exists>r t. connect_loop env deadline k now backoff = Some (r, t) \<and>
    t \<le> deadline + CONNECT_MAX_BACKOFF + CONNECT_ATTEMPT_TIMEOUT"
  using assms
proof (induction "Suc deadline + CONNECT_MAX_BACKOFF - now" arbitrary: k now backoff rule: less_induct)
  case less
  obtain outcome d where a: "attempt_outcome (env k) = (outcome, d)" by fastforce
  have d: "d \<le> CONNECT_ATTEMPT_TIMEOUT" using attempt_outcome_bound [OF a] .
  show ?case
  proof (cases "outcome = Some True \<or> deadline \<le> now + d")
    case True
    then show ?thesis using a d less.prems(3) by (subst connect_loop.simps) (auto simp: Let_def)
  next
    case False
    have "\<exists>r t. connect_loop env deadline (k + 1) (now + d + backoff) (min (backoff * 2) CONNECT_MAX_BACKOFF) = Some (r, t) \<and>
        t \<le> deadline + CONNECT_MAX_BACKOFF + CONNECT_ATTEMPT_TIMEOUT"
      using False less.prems by (intro less.hyps) (auto simp: CONNECT_MAX_BACKOFF_def)
    then show ?thesis using False a by (subst connect_loop.simps) simp
  qed
qed

text \<open>
  Whatever the network does, the agent stops trying: it has a connection or an error at most five
  minutes, one pause and one attempt after it started.
\<close>

theorem connect_with_retry_returns:
  "\<exists>r t. connect_with_retry env now = Some (r, t) \<and>
     t \<le> now + CONNECT_TOTAL_BOUND + CONNECT_MAX_BACKOFF + CONNECT_ATTEMPT_TIMEOUT"
proof -
  have "0 < CONNECT_INITIAL_BACKOFF" "CONNECT_INITIAL_BACKOFF \<le> CONNECT_MAX_BACKOFF"
    by (simp_all add: CONNECT_INITIAL_BACKOFF_def CONNECT_MAX_BACKOFF_def)
  then show ?thesis unfolding connect_with_retry_def by (intro connect_loop_returns) auto
qed

section \<open>A small run\<close>

text \<open>Two agents and a JSON that spells the messages of this run only.\<close>

definition demo_config :: "(unit, unit) job_config" where
  "demo_config = \<lparr>jc_execution = ConstantVus 2 ''1s'' None (), jc_segment = None, jc_sequence = None, jc_worker = False,
     jc_output = (), jc_thresholds = []\<rparr>"

definition demo_assign :: "nat \<Rightarrow> (unit, unit) job_config assign_msg" where
  "demo_assign i = assignments id ''k'' demo_config 2 [''0/2:1/2'', ''1/2:2/2''] (Some ''0/2,1/2,2/2'') ! i"

definition demo_snapshot :: "nat \<Rightarrow> metrics_snapshot" where
  "demo_snapshot i = \<lparr>snap_series = [], snap_totals = [(''dropped_iterations'', of_nat (i + 1))], snap_trend_stats = [], snap_thresholds = []\<rparr>"

definition demo_codec :: "((unit, unit) job_config, metrics_snapshot) json_codec" where
  "demo_codec =
     \<lparr>de_hello = (\<lambda>s. Some \<lparr>hello_token = s, hello_version = ''1''\<rparr>),
      ser_hello = (\<lambda>m. if hello_version m = ''1'' then Some (hello_token m) else None),
      de_assign = (\<lambda>s. Some (demo_assign (if s = ''0'' then 0 else 1))),
      ser_assign = (\<lambda>m. if m = demo_assign 0 then Some ''0'' else if m = demo_assign 1 then Some ''1'' else None),
      de_snapshot = (\<lambda>s. Some \<lparr>sm_snapshot = demo_snapshot (if s = ''0'' then 0 else 1), sm_done = True\<rparr>),
      ser_snapshot = (\<lambda>m. if m = \<lparr>sm_snapshot = demo_snapshot 0, sm_done = True\<rparr> then Some ''0''
                          else if m = \<lparr>sm_snapshot = demo_snapshot 1, sm_done = True\<rparr> then Some ''1'' else None)\<rparr>"

definition demo_run :: "nat \<Rightarrow> (unit, unit) job_config \<Rightarrow> metrics_snapshot agent_event list" where
  "demo_run i cfg = [Engine_done (Inr (demo_snapshot i)) True]"

definition demo_frame :: "string \<Rightarrow> string" where "demo_frame s = u32_to_be_bytes (length s) @ s"

definition demo_frames :: "nat \<Rightarrow> string list" where
  "demo_frames i = [demo_frame ''k'', demo_frame (if i = 0 then ''0'' else ''1'')]"

definition demo_conns :: "connection list" where
  "demo_conns = map (\<lambda>i. \<lparr>accepted = Some True, hello_in_time = True, write_ok = True, snapshot_in_time = True,
     incoming = concat (demo_frames i)\<rparr>) [0, 1]"

lemma demo_serde:
  "ser_hello demo_codec m = Some data \<Longrightarrow> de_hello demo_codec data = Some m"
  "ser_assign demo_codec a = Some data \<Longrightarrow> de_assign demo_codec data = Some a"
  "ser_snapshot demo_codec p = Some data \<Longrightarrow> de_snapshot demo_codec data = Some p"
  by (cases m; auto simp: demo_codec_def split: if_splits)+

lemma demo_controller:
  "run_controller exact_store Some 0 0 0 (\<lambda>_. []) id demo_codec demo_config 2 ''k'' (\<lambda>_. False) demo_conns =
   (map demo_frame [''0'', ''1''], snd (run_controller exact_store Some 0 0 0 (\<lambda>_. []) id demo_codec demo_config 2 ''k'' (\<lambda>_. False) demo_conns))"
proof -
  have "fst (run_controller exact_store Some 0 0 0 (\<lambda>_. []) id demo_codec demo_config 2 ''k'' (\<lambda>_. False) demo_conns) = map demo_frame [''0'', ''1'']"
    by code_simp
  then show ?thesis by (metis prod.collapse)
qed

lemma demo_agent: "i < 2 \<Longrightarrow> run_agent demo_codec (demo_run i) ''1'' ''k'' (map demo_frame [''0'', ''1''] ! i) =
   (demo_frames i, Some (worker_config (demo_assign i)), Some (Inr ()))"
proof -
  have "run_agent demo_codec (demo_run 0) ''1'' ''k'' (demo_frame ''0'') = (demo_frames 0, Some (worker_config (demo_assign 0)), Some (Inr ()))"
    by code_simp
  moreover have "run_agent demo_codec (demo_run 1) ''1'' ''k'' (demo_frame ''1'') = (demo_frames 1, Some (worker_config (demo_assign 1)), Some (Inr ()))"
    by code_simp
  moreover assume "i < 2"
  ultimately show ?thesis by (auto simp: less_2_cases_iff)
qed

lemma demo_merged:
  "(case merge_snapshots exact_store Some 0 0 0 [] (map demo_snapshot [0, 1]) of Inl _ \<Rightarrow> None | Inr m \<Rightarrow> Some (dropped_iterations m)) = Some 3"
  by code_simp

section \<open>Assignments go to agents that know the token\<close>

lemma agent_task_sends:
  "fst (agent_task J token a c) \<noteq> [] \<Longrightarrow>
   \<exists>hello rest. read_frame (de_hello J) (incoming c) = Inr (hello, rest) \<and> hello_token hello = token"
  by (auto simp: agent_task_def token_matches_iff split: option.splits bool.splits sum.splits if_splits)

text \<open>
  C25. The controller sends its job, which carries credentials, only on connections whose first frame
  presented exactly the shared token.
\<close>

theorem controller_sends_after_auth:
  assumes "run_controller X dec el ol al display into_worker J config n token panics conns = (sent, r)"
    and "i < length sent" and "sent ! i \<noteq> []"
  shows "\<exists>hello rest. read_frame (de_hello J) (incoming (conns ! i)) = Inr (hello, rest) \<and> hello_token hello = token"
proof -
  obtain segs sq where sent: "sent = map fst (map (\<lambda>(a, c). agent_task J token a c)
      (zip (assignments into_worker token config n segs sq) conns))"
    using assms(1,2) by (auto simp: run_controller_def Let_def split: if_splits sum.splits)
  then have "sent ! i = fst (agent_task J token (assignments into_worker token config n segs sq ! i) (conns ! i))"
    using assms(2) by simp
  then show ?thesis using assms(3) agent_task_sends by metis
qed

theorem controller_sends_after_auth_witness:
  "map length (fst (run_controller exact_store Some 0 0 0 (\<lambda>_. []) id demo_codec demo_config 2 ''k'' (\<lambda>_. False) demo_conns)) = [5, 5] \<and>
   (\<exists>hello rest. read_frame (de_hello demo_codec) (incoming (demo_conns ! 1)) = Inr (hello, rest) \<and> hello_token hello = ''k'')"
  using controller_sends_after_auth [OF demo_controller, of 1] arg_cong [OF demo_controller, of "map length \<circ> fst"]
  by (simp add: demo_frame_def)

section \<open>The equal split\<close>

text \<open>The cell of node \<open>i\<close> among \<open>n\<close>, with its bounds in lowest terms.\<close>

definition lowest :: "nat \<Rightarrow> nat \<Rightarrow> int \<times> int" where
  "lowest i n = (int i div gcd (int i) (int n), int n div gcd (int i) (int n))"

definition equal_cell :: "nat \<Rightarrow> nat \<Rightarrow> execution_segment" where
  "equal_cell n i = \<lparr>from_num = fst (lowest i n), from_den = snd (lowest i n),
     to_num = fst (lowest (i + 1) n), to_den = snd (lowest (i + 1) n)\<rparr>"

lemma boundary_no_char:
  assumes "c \<in> {CHR '','', CHR '':'', CHR '' ''}"
  shows "c \<notin> set (boundary i n)"
  using assms show_nat_char_range [of c] by (auto simp: boundary_def)

lemma boundary_trim: "trim (boundary i n) = boundary i n"
  unfolding boundary_def
  by (rule trim_framed [OF parse_digits_show_nat [of i], of _ "''/'' @ show_nat n"])
     (simp_all add: last_digits_not_ws [OF parse_digits_show_nat])

lemma boundary_parse:
  assumes "i \<le> n" "0 < n" "int n \<le> i64_max"
  shows "parse_fraction (boundary i n) = Inr (lowest i n)"
  using parse_fraction_slash [of "show_nat i" i "show_nat n" n] assms by (simp add: boundary_def lowest_def)

lemma lowest_facts:
  assumes "0 < n"
  shows "0 \<le> fst (lowest i n)" "0 < snd (lowest i n)"
    "of_int (fst (lowest i n)) / of_int (snd (lowest i n)) = (of_nat i / of_nat n :: rat)"
proof -
  have n: "0 < int n" using assms by simp
  then show "0 \<le> fst (lowest i n)" "0 < snd (lowest i n)"
    by (simp_all add: lowest_def pos_imp_zdiv_nonneg_iff pos_imp_zdiv_pos_iff zdvd_imp_le)
  show "of_int (fst (lowest i n)) / of_int (snd (lowest i n)) = (of_nat i / of_nat n :: rat)"
    using quot_reduced [OF n, of "int i"] by (simp add: lowest_def)
qed

lemma equal_cell_new:
  assumes "i < n"
  shows "new_segment (fst (lowest i n)) (snd (lowest i n)) (fst (lowest (i + 1) n)) (snd (lowest (i + 1) n)) = Inr (equal_cell n i)"
proof -
  have n: "0 < n" using assms by simp
  note f = lowest_facts [OF n]
  have "of_int (fst (lowest i n)) / of_int (snd (lowest i n)) < (of_int (fst (lowest (i + 1) n)) / of_int (snd (lowest (i + 1) n)) :: rat)"
    unfolding f(3) using n by (simp add: divide_strict_right_mono)
  then have lt: "fst (lowest i n) * snd (lowest (i + 1) n) < fst (lowest (i + 1) n) * snd (lowest i n)"
    using f(2) by (simp add: rat_quot_less_iff)
  have le: "fst (lowest j n) \<le> snd (lowest j n)" if "j \<le> n" for j
  proof -
    have "(of_int (fst (lowest j n)) / of_int (snd (lowest j n)) :: rat) \<le> 1"
      unfolding f(3) using that n by simp
    then show ?thesis using f(2) by (simp add: rat_quot_le_1_iff)
  qed
  have "\<not> (fst (lowest i n) < 0 \<or> snd (lowest i n) \<le> 0 \<or> fst (lowest (i + 1) n) < 0 \<or> snd (lowest (i + 1) n) \<le> 0)"
    using f(1,2) by (simp add: not_less not_le)
  moreover have "\<not> (fst (lowest i n) > snd (lowest i n) \<or> fst (lowest (i + 1) n) > snd (lowest (i + 1) n))"
    using le [of i] le [of "i + 1"] assms by simp
  ultimately show ?thesis
    using lt unfolding new_segment_def equal_cell_def by simp
qed

lemma ascending_upt: "0 < n \<Longrightarrow> strictly_ascending (map (\<lambda>i. of_nat i / of_nat n) [a..<b])"
proof (induction "b - a" arbitrary: a)
  case (Suc k)
  show ?case
  proof (cases "Suc a < b")
    case True
    have "strictly_ascending (map (\<lambda>i. of_nat i / of_nat n) [Suc a..<b])" using Suc by (intro Suc.hyps(1)) simp_all
    moreover have "(of_nat a / of_nat n :: rat) < of_nat (Suc a) / of_nat n"
      using Suc.prems by (intro divide_strict_right_mono) simp_all
    ultimately show ?thesis using True
      by (simp add: upt_conv_Cons [of a b] upt_conv_Cons [of "Suc a" b] del: of_nat_Suc)
  next
    case False
    then have "[a..<b] = [a]" using Suc.hyps(2) by (simp add: upt_conv_Cons)
    then show ?thesis by simp
  qed
qed simp

lemma quotient_gap:
  assumes "0 < n" "n \<le> 10 ^ 9"
  shows "\<bar>of_nat j / of_nat n - of_nat i / of_nat n\<bar> < tolerance \<longleftrightarrow> j = i"
proof -
  have n: "(0 :: rat) < of_nat n" "(of_nat n :: rat) \<le> 10 ^ 9"
    using assms of_nat_mono [OF assms(2), where 'a = rat] by simp_all
  have e: "\<bar>of_nat j / of_nat n - of_nat i / of_nat n\<bar> = (\<bar>of_nat j - of_nat i\<bar> / of_nat n :: rat)"
    using n by (simp add: diff_divide_distrib [symmetric])
  have t: "tolerance * of_nat n \<le> 1" "0 < tolerance" using n by (simp_all add: tolerance_def)
  show ?thesis
  proof (cases "j = i")
    case False
    then have "1 \<le> \<bar>int j - int i\<bar>" by linarith
    then have "(of_int 1 :: rat) \<le> of_int \<bar>int j - int i\<bar>" by (simp only: of_int_le_iff)
    then have "\<not> \<bar>of_nat j - of_nat i :: rat\<bar> < tolerance * of_nat n" using t by simp
    then show ?thesis using n False unfolding e by (simp add: pos_divide_less_eq)
  qed (use t in simp)
qed

lemma position_upt:
  assumes "i < b" "\<And>j. P (f j) \<longleftrightarrow> j = i"
  shows "a \<le> i \<Longrightarrow> Segment.position P (map f [a..<b]) = Some (i - a)"
proof (induction "i - a" arbitrary: a)
  case 0
  then show ?case using assms by (simp add: upt_conv_Cons)
next
  case (Suc k)
  then have "Segment.position P (map f [Suc a..<b]) = Some (i - Suc a)" by (intro Suc.hyps(1)) simp_all
  moreover have "\<not> P (f a)" using assms(2) Suc.hyps(2) by simp
  ultimately show ?case using Suc assms(1) by (simp add: upt_conv_Cons)
qed

definition equal_sequence :: "nat \<Rightarrow> string" where
  "equal_sequence n = join '','' (map (\<lambda>i. boundary i n) [0..<n + 1])"

lemma equal_sequence_split:
  "map trim (split_on (CHR '','') (equal_sequence n)) = map (\<lambda>i. boundary i n) [0..<n + 1]"
proof -
  have "split_on (CHR '','') (equal_sequence n) = map (\<lambda>i. boundary i n) [0..<n + 1]"
    unfolding equal_sequence_def by (rule join_split_on) (auto simp: boundary_no_char)
  then show ?thesis by (simp add: boundary_trim)
qed

lemma equal_sequence_bounds:
  assumes "0 < n" "int n \<le> i64_max"
  shows "parse_sequence (equal_sequence n) = Inr (map (\<lambda>i. of_nat i / of_nat n) [0..<n + 1])"
proof -
  have m: "mapM parse_fraction (map (\<lambda>i. boundary i n) xs) = Inr (map (\<lambda>i. lowest i n) xs)" if "\<forall>i \<in> set xs. i \<le> n" for xs
    using that boundary_parse assms by (induction xs) auto
  have q: "map (\<lambda>(a, b). f64_quot a b) (map (\<lambda>i. lowest i n) xs) = map (\<lambda>i. of_nat i / of_nat n) xs" for xs
    using lowest_facts(2,3) [OF assms(1)] by (auto simp: f64_quot_def case_prod_beta order_less_imp_not_eq2)
  have h: "hd (map (\<lambda>i. of_nat i / of_nat n :: rat) [0..<n + 1]) = 0" by (simp add: upt_conv_Cons del: upt_Suc)
  have l: "last (map (\<lambda>i. of_nat i / of_nat n :: rat) [0..<n + 1]) = 1" using assms(1) by simp
  have t: "\<not> tolerance < 0" by (simp add: tolerance_def)
  have len: "\<not> length (map (\<lambda>i. boundary i n) [0..<n + 1]) < 2" using assms(1) by simp
  have m0: "mapM parse_fraction (map (\<lambda>i. boundary i n) [0..<n + 1]) = Inr (map (\<lambda>i. lowest i n) [0..<n + 1])"
    by (rule m) auto
  show ?thesis
    unfolding parse_sequence_def equal_sequence_split Let_def if_not_P [OF len]
    by (simp only: m0 bindE_simps q h l ascending_upt [OF assms(1)] t abs_zero diff_self not_True_eq_False if_False)
qed

lemma seq_segments_equal:
  assumes "0 < n" "int n \<le> i64_max" "j \<le> n"
  shows "seq_segments (lowest j n) (map (\<lambda>i. boundary i n) [Suc j..<n + 1]) = Inr (map (equal_cell n) [j..<n])"
  using assms(3)
proof (induction "n - j" arbitrary: j)
  case (Suc k)
  then have "seq_segments (lowest (Suc j) n) (map (\<lambda>i. boundary i n) [Suc (Suc j)..<n + 1]) = Inr (map (equal_cell n) [Suc j..<n])"
    by (intro Suc.hyps(1)) simp_all
  then show ?case
    using Suc boundary_parse [of "Suc j" n] equal_cell_new [of j n] assms(1,2)
    by (simp add: upt_conv_Cons del: upt_Suc)
qed simp

lemma equal_sequence_segments:
  assumes "0 < n" "int n \<le> i64_max"
  shows "parse_segment_sequence (equal_sequence n) = Inr (map (equal_cell n) [0..<n])"
proof -
  have "map (\<lambda>i. boundary i n) [0..<n + 1] = boundary 0 n # map (\<lambda>i. boundary i n) [Suc 0..<n + 1]"
    by (simp add: upt_conv_Cons del: upt_Suc)
  then show ?thesis
    unfolding parse_segment_sequence_def equal_sequence_split Let_def
    using equal_sequence_bounds [OF assms] boundary_parse [of 0 n] seq_segments_equal [OF assms, of 0] assms
    by (simp del: upt_Suc)
qed

lemma equal_cell_bounds:
  assumes "0 < n"
  shows "seg_from (equal_cell n i) = of_nat i / of_nat n" "seg_to (equal_cell n i) = of_nat (i + 1) / of_nat n"
  using lowest_facts(3) [OF assms, of i] lowest_facts(3) [OF assms, of "i + 1"]
  by (simp_all add: seg_from_def seg_to_def equal_cell_def)

lemma equal_segment_parse:
  assumes "0 < n" "n \<le> 10 ^ 9" "i < n"
  shows "parse_segment (boundary i n @ '':'' @ boundary (i + 1) n) (Some (equal_sequence n)) = Inr (equal_cell n i)"
proof -
  have n: "int n \<le> i64_max" using assms(2) by (simp add: i64_max_def)
  have sp: "split_once (CHR '':'') (boundary i n @ '':'' @ boundary (i + 1) n) = Some (boundary i n, boundary (i + 1) n)"
    using boundary_no_char [of "CHR '':''" i n] by (simp add: split_once_append)
  have at: "Segment.position (\<lambda>b. \<bar>b - of_nat k / of_nat n\<bar> < tolerance) (map (\<lambda>i. of_nat i / of_nat n) [0..<n + 1]) = Some k"
    if "k \<le> n" for k
    using position_upt [of k "n + 1" "\<lambda>b. \<bar>b - of_nat k / of_nat n\<bar> < tolerance" "\<lambda>i. of_nat i / of_nat n" 0]
      quotient_gap [OF assms(1,2), of _ k] that by simp
  show ?thesis
    unfolding parse_segment_def sp
    using boundary_parse [of i n] boundary_parse [of "i + 1" n] equal_cell_new [OF assms(3)] n assms
      equal_sequence_bounds [OF assms(1) n] at [of i] at [of "i + 1"] equal_cell_bounds [OF assms(1), of i]
    by (simp add: case_prod_beta del: upt_Suc of_nat_add of_nat_Suc)
qed

lemma equal_cells_chain:
  assumes "0 < n" "int n \<le> i64_max"
  shows "unit_chain (map (equal_cell n) [0..<n])"
proof (rule full_sequence_chain [OF equal_sequence_segments [OF assms]])
  show "from_num (hd (map (equal_cell n) [0..<n])) = 0"
    using assms(1) by (simp add: hd_map equal_cell_def lowest_def)
  show "to_num (last (map (equal_cell n) [0..<n])) = to_den (last (map (equal_cell n) [0..<n]))"
    using assms(1) by (simp add: last_map equal_cell_def lowest_def)
qed

text \<open>
  C12. Without a declared sequence, the segments the controller hands out for up to a billion agents are
  all accepted by the agents against the sequence sent along; segment \<open>i\<close> of \<open>n\<close> is exactly the
  interval from \<open>i / n\<close> to \<open>(i + 1) / n\<close>; and the shares of the agents add up to every VU count and
  every iteration budget.
\<close>

theorem equal_split_exact:
  assumes "0 < n" and "n \<le> 10 ^ 9"
  shows "\<exists>segs sq. controller_segments display None n = Inr (segs, Some sq) \<and> length segs = n \<and>
    parse_segment_sequence sq = Inr (map (equal_cell n) [0..<n]) \<and>
    (\<forall>i < n. parse_segment (segs ! i) (Some sq) = Inr (equal_cell n i) \<and>
       seg_from (equal_cell n i) = of_nat i / of_nat n \<and> seg_to (equal_cell n i) = of_nat (i + 1) / of_nat n) \<and>
    (\<forall>v \<le> u32_max. (\<Sum>i\<leftarrow>[0..<n]. scale_vus (equal_cell n i) v) = v) \<and>
    (\<forall>k \<le> u64_max. (\<Sum>i\<leftarrow>[0..<n]. scale_iterations (equal_cell n i) k) = k)"
proof -
  have n: "int n \<le> i64_max" using assms(2) by (simp add: i64_max_def)
  let ?segs = "map (\<lambda>i. boundary i n @ '':'' @ boundary (i + 1) n) [0..<n]"
  have "controller_segments display None n = Inr (?segs, Some (equal_sequence n))"
    by (simp add: controller_segments_def equal_sequence_def Let_def)
  moreover have "parse_segment (?segs ! i) (Some (equal_sequence n)) = Inr (equal_cell n i)" if "i < n" for i
    using equal_segment_parse [OF assms that] that by simp
  moreover have "(\<Sum>i\<leftarrow>[0..<n]. scale_vus (equal_cell n i) v) = v" if "v \<le> u32_max" for v
    using vus.chain_sum [OF equal_cells_chain [OF assms(1) n] that] by (simp add: comp_def)
  moreover have "(\<Sum>i\<leftarrow>[0..<n]. scale_iterations (equal_cell n i) k) = k" if "k \<le> u64_max" for k
    using iterations.chain_sum [OF equal_cells_chain [OF assms(1) n] that] by (simp add: comp_def)
  ultimately show ?thesis
    using equal_sequence_segments [OF assms(1) n] equal_cell_bounds [OF assms(1)]
    by (intro exI [of _ ?segs] exI [of _ "equal_sequence n"]) simp
qed

theorem equal_split_exact_witness:
  "\<exists>segs sq. controller_segments (\<lambda>_. []) None 3 = Inr (segs, Some sq) \<and> length segs = 3 \<and>
     sq = ''0/3,1/3,2/3,3/3'' \<and> parse_segment (segs ! 1) (Some sq) = Inr (equal_cell 3 1) \<and>
     (\<Sum>i\<leftarrow>[0..<3]. scale_vus (equal_cell 3 i) 10) = 10"
proof -
  have sq: "equal_sequence 3 = ''0/3,1/3,2/3,3/3''" by code_simp
  have u: "10 \<le> u32_max" by (simp add: u32_max_def)
  obtain segs s where "controller_segments (\<lambda>_. []) None 3 = Inr (segs, Some s)" "length segs = 3"
    "parse_segment (segs ! 1) (Some s) = Inr (equal_cell 3 1)"
    "(\<Sum>i\<leftarrow>[0..<3]. scale_vus (equal_cell 3 i) 10) = 10"
    using equal_split_exact [of 3 "\<lambda>_. []"] u by auto
  moreover from this(1) have "s = equal_sequence 3" by (auto simp: controller_segments_def equal_sequence_def Let_def)
  ultimately show ?thesis using sq by blast
qed

text \<open>
  A declared sequence is handed out differently: its boundaries are printed as decimals, so the
  thirds of a sequence are not the thirds the agents compute with.
\<close>

definition f64_third_display :: "rat \<Rightarrow> string" where
  "f64_third_display x = (if x = 1 / 3 then ''0.3333333333333333'' else if x = 2 / 3 then ''0.6666666666666666''
     else if x = 1 / 300 then ''0.0033333333333333335'' else if x = 0 then ''0'' else ''1'')"

lemma declared_thirds_uneven:
  "map_sum id (\<lambda>(segs, sq). map (\<lambda>seg. map_sum id (\<lambda>g. scale_vus g 3) (parse_segment seg sq)) segs)
     (controller_segments f64_third_display (Some ''0,1/3,2/3,1'') 3) = Inr [Inr 0, Inr 1, Inr 2]"
  by code_simp

lemma declared_boundary_refused:
  "controller_segments f64_third_display (Some ''0,1/300,1'') 2 =
     Inr ([''0:0.0033333333333333335'', ''0.0033333333333333335:1''], Some ''0,1/300,1'') \<and>
   parse_segment ''0:0.0033333333333333335'' (Some ''0,1/300,1'') = Inl NegativeBounds"
  by code_simp

section \<open>A whole run\<close>

lemma agent_task_result:
  assumes "snd (agent_task J token a c) = Inr (i, s)"
  shows "i = asg_index a \<and> (\<exists>hello rest. read_frame (de_hello J) (incoming c) = Inr (hello, rest) \<and>
    hello_token hello = token \<and> read_agent_snapshot (de_snapshot J) rest = Inr s)"
  using assms
  by (auto simp: agent_task_def token_matches_iff split: option.splits bool.splits sum.splits if_splits)

lemma join_tasks_in_order:
  assumes "join_tasks ts slots = Inr out" and "k + length ts \<le> length slots"
    and "\<And>j i s. j < length ts \<Longrightarrow> ts ! j = Some (Inr (i, s)) \<Longrightarrow> i = k + j"
  shows "\<exists>ss. ts = map (\<lambda>(j, s). Some (Inr (j, s))) (enumerate k ss) \<and>
    out = take k slots @ map Some ss @ drop (k + length ts) slots"
  using assms
proof (induction ts slots arbitrary: k rule: join_tasks.induct)
  case (4 i s ts slots)
  have i: "i = k" using "4.prems"(3) [of 0 i s] by simp
  have "\<exists>ss. ts = map (\<lambda>(j, s). Some (Inr (j, s))) (enumerate (Suc k) ss) \<and>
      out = take (Suc k) (slots[i := Some s]) @ map Some ss @ drop (Suc k + length ts) (slots[i := Some s])"
  proof (rule "4.IH")
    show "join_tasks ts (slots[i := Some s]) = Inr out" using "4.prems"(1) by simp
    show "Suc k + length ts \<le> length (slots[i := Some s])" using "4.prems"(2) by simp
    show "j' = Suc k + j" if "j < length ts" "ts ! j = Some (Inr (j', x))" for j j' x
      using "4.prems"(3) [of "Suc j" j' x] that by simp
  qed
  then obtain ss where ss: "ts = map (\<lambda>(j, s). Some (Inr (j, s))) (enumerate (Suc k) ss)"
    "out = take (Suc k) (slots[i := Some s]) @ map Some ss @ drop (Suc k + length ts) (slots[i := Some s])" by blast
  have "take (Suc k) (slots[i := Some s]) = take k slots @ [Some s]"
    using "4.prems"(2) i by (simp add: take_Suc_conv_app_nth)
  then show ?case using ss i by (intro exI [of _ "s # ss"]) simp
qed (auto intro: exI [of _ "[]"])

lemma length_assignments [simp]: "length (assignments w token config n segs sq) = length segs"
  by (simp add: assignments_def)

lemma asg_index_assignments [simp]: "i < length segs \<Longrightarrow> asg_index (assignments w token config n segs sq ! i) = i"
  by (simp add: assignments_def nth_enumerate_eq)

lemma run_controller_tasks:
  assumes "0 < n" and "controller_segments display (jc_sequence config) n = Inr (segs, sq)"
    and "length segs = n" and "length conns = n"
    and "run_controller X dec el ol al display w J config n token panics conns = (sent, r)"
  defines "task \<equiv> \<lambda>i. agent_task J token (assignments w token config n segs sq ! i) (conns ! i)"
  shows "sent = map (fst \<circ> task) [0..<n]"
    and "r = bindE (join_tasks (map (\<lambda>i. if panics i then None else Some (snd (task i))) [0..<n]) (replicate n None)) (\<lambda>slots.
      case merge_snapshots X dec el ol al (jc_thresholds config) (List.map_filter (\<lambda>x. x) slots) of
        Inl e \<Rightarrow> Inl (Merge_failed e) | Inr r \<Rightarrow> Inr r)"
proof -
  have t: "map (\<lambda>(a, c). agent_task J token a c) (zip (assignments w token config n segs sq) conns) = map task [0..<n]"
    using assms(3,4) by (intro nth_equalityI) (simp_all add: task_def)
  have e: "map (\<lambda>(i, t). if panics i then None else Some (snd t)) (enumerate 0 (map task [0..<n])) =
      map (\<lambda>i. if panics i then None else Some (snd (task i))) [0..<n]"
    by (intro nth_equalityI) (simp_all add: nth_enumerate_eq)
  have "run_controller X dec el ol al display w J config n token panics conns =
      (let tasks = map (\<lambda>(a, c). agent_task J token a c) (zip (assignments w token config n segs sq) conns);
           results = map (\<lambda>(i, t). if panics i then None else Some (snd t)) (enumerate 0 tasks)
       in (map fst tasks, bindE (join_tasks results (replicate n None)) (\<lambda>slots.
             let snaps = List.map_filter (\<lambda>x. x) slots in
             case merge_snapshots X dec el ol al (jc_thresholds config) snaps of
               Inl e \<Rightarrow> Inl (Merge_failed e) | Inr r \<Rightarrow> Inr r)))"
    using assms(1,2) by (simp add: run_controller_def)
  note this [unfolded t e Let_def assms(5)]
  then show "sent = map (fst \<circ> task) [0..<n]"
    and "r = bindE (join_tasks (map (\<lambda>i. if panics i then None else Some (snd (task i))) [0..<n]) (replicate n None)) (\<lambda>slots.
      case merge_snapshots X dec el ol al (jc_thresholds config) (List.map_filter (\<lambda>x. x) slots) of
        Inl e \<Rightarrow> Inl (Merge_failed e) | Inr r \<Rightarrow> Inr r)" by simp_all
qed

lemma length_split_on: "length (split_on c s) \<le> length s + 1"
  by (induction s) (auto split: list.splits)

lemma length_windows2 [simp]: "length (windows2 xs) = length xs - 1"
  by (induction xs rule: windows2.induct) simp_all

lemma parse_sequence_length: "parse_sequence sq = Inr bounds \<Longrightarrow> length bounds \<le> length sq + 1 \<and> 2 \<le> length bounds"
  using length_split_on [of "CHR '',''" sq]
  by (auto simp: parse_sequence_def Let_def dest!: mapM_length split: if_splits)

lemma controller_segments_length:
  assumes "controller_segments display sequence n = Inr (segs, sq)" and "n < u32_max"
    and "case sequence of None \<Rightarrow> True | Some s \<Rightarrow> length s < u32_max"
  shows "length segs = n"
proof (cases sequence)
  case (Some s)
  then obtain bounds where b: "parse_sequence s = Inr bounds" "wrap_u32 (length bounds) = wrap_u32 (n + 1)"
    "segs = map (\<lambda>(a, b). display a @ '':'' @ display b) (windows2 bounds)"
    using assms(1) by (auto simp: controller_segments_def split: sum.splits if_splits)
  moreover have "length bounds = n + 1"
    using parse_sequence_length [OF b(1)] b(2) assms(2,3) Some by (simp add: wrap_u32_id)
  ultimately show ?thesis by simp
qed (use assms(1) in \<open>auto simp: controller_segments_def Let_def\<close>)

lemma filter_slots: "List.map_filter (\<lambda>x. x) (map Some xs) = xs"
  by (induction xs) (simp_all add: List.map_filter_simps)

text \<open>
  C24. When the controller returns a result, every agent, in the order of the segments, presented the
  token and shipped a final snapshot, and the result is the merge of exactly these snapshots: no
  agent is missing, none counts twice.
\<close>

theorem controller_merges_every_agent:
  assumes "run_controller X dec el ol al display w J config n token panics conns = (sent, Inr r)"
    and "length conns = n" and "n < u32_max"
    and "case jc_sequence config of None \<Rightarrow> True | Some s \<Rightarrow> length s < u32_max"
  shows "\<exists>snaps. length snaps = n \<and> merge_snapshots X dec el ol al (jc_thresholds config) snaps = Inr r \<and>
    (\<forall>i < n. \<exists>hello rest. read_frame (de_hello J) (incoming (conns ! i)) = Inr (hello, rest) \<and>
       hello_token hello = token \<and> read_agent_snapshot (de_snapshot J) rest = Inr (snaps ! i))"
proof -
  obtain segs sq where segs: "controller_segments display (jc_sequence config) n = Inr (segs, sq)" and n: "0 < n"
    using assms(1) by (auto simp: run_controller_def split: if_splits sum.splits)
  have len: "length segs = n" using controller_segments_length [OF segs assms(3,4)] .
  let ?task = "\<lambda>i. agent_task J token (assignments w token config n segs sq ! i) (conns ! i)"
  define ts where "ts = map (\<lambda>i. if panics i then None else Some (snd (?task i))) [0..<n]"
  obtain slots where slots: "join_tasks ts (replicate n None) = Inr slots"
    and merged: "merge_snapshots X dec el ol al (jc_thresholds config) (List.map_filter (\<lambda>x. x) slots) = Inr r"
    using run_controller_tasks(2) [OF n segs len assms(2,1)]
    unfolding ts_def [symmetric]
    by (cases "join_tasks ts (replicate n None)") (auto split: sum.splits)
  have lt: "length ts = n" by (simp add: ts_def)
  have index: "j = 0 + i" if "i < length ts" "ts ! i = Some (Inr (j, s))" for i j s
    using that agent_task_result len by (force simp: ts_def split: if_splits)
  obtain ss where ss: "ts = map (\<lambda>(j, s). Some (Inr (j, s))) (enumerate 0 ss)" "slots = map Some ss"
    using join_tasks_in_order [OF slots, of 0, simplified lt] index lt by simp blast
  have l: "length ss = n" using arg_cong [OF ss(1), of length] by (simp add: ts_def)
  have "snd (?task i) = Inr (i, ss ! i)" if "i < n" for i
  proof -
    have "ts ! i = Some (Inr (i, ss ! i))" using ss(1) that l by (simp add: nth_enumerate_eq)
    then show ?thesis using that by (auto simp: ts_def split: if_splits)
  qed
  then have "\<forall>i < n. \<exists>hello rest. read_frame (de_hello J) (incoming (conns ! i)) = Inr (hello, rest) \<and>
       hello_token hello = token \<and> read_agent_snapshot (de_snapshot J) rest = Inr (ss ! i)"
    by (meson agent_task_result)
  then show ?thesis using merged l unfolding ss(2) filter_slots by (intro exI [of _ ss]) simp
qed

theorem controller_merges_every_agent_witness:
  "\<exists>m snaps. snd (run_controller exact_store Some 0 0 0 (\<lambda>_. []) id demo_codec demo_config 2 ''k'' (\<lambda>_. False) demo_conns) = Inr m \<and>
     length snaps = 2 \<and> merge_snapshots exact_store Some 0 0 0 [] snaps = Inr m"
proof -
  have "\<not> isl (snd (run_controller exact_store Some 0 0 0 (\<lambda>_. []) id demo_codec demo_config 2 ''k'' (\<lambda>_. False) demo_conns))"
    by code_simp
  then obtain m where m: "snd (run_controller exact_store Some 0 0 0 (\<lambda>_. []) id demo_codec demo_config 2 ''k'' (\<lambda>_. False) demo_conns) = Inr m"
    using sum.collapse(2) by metis
  have "length demo_conns = 2" "2 < u32_max" "jc_sequence demo_config = None" "jc_thresholds demo_config = []"
    by (simp_all add: demo_conns_def demo_config_def u32_max_def)
  then show ?thesis using controller_merges_every_agent [OF demo_controller [unfolded m]] m by auto
qed

lemma agent_loop_read:
  assumes "agent_loop ser (map (\<lambda>(s, ok). Progress s ok) ps @ [Engine_done (Inr snap) True]) = (sent, Some (Inr ()))"
    and serde: "\<And>m data. ser m = Some data \<Longrightarrow> deser data = Some m"
  shows "read_agent_snapshot deser (concat sent @ rest) = Inr snap"
  using assms(1)
proof (induction ps arbitrary: sent)
  case Nil
  then obtain bytes where "write_frame ser \<lparr>sm_snapshot = snap, sm_done = True\<rparr> = Inr bytes" "sent = [bytes]"
    by (auto split: sum.splits)
  then show ?case using frame_roundtrip [OF _ serde] by (subst read_agent_snapshot.simps) fastforce
next
  case (Cons p ps)
  obtain s ok where p: "p = (s, ok)" by fastforce
  obtain later r where "agent_loop ser (map (\<lambda>(s, ok). Progress s ok) ps @ [Engine_done (Inr snap) True]) = (later, r)"
    by fastforce
  then have l: "agent_loop ser (map (\<lambda>(s, ok). Progress s ok) ps @ [Engine_done (Inr snap) True]) = (later, Some (Inr ()))"
    using Cons.prems by (simp add: p split: sum.splits)
  have ih: "read_agent_snapshot deser (concat later @ rest) = Inr snap" using Cons.IH [OF l] .
  show ?case
  proof (cases "write_frame ser \<lparr>sm_snapshot = s, sm_done = False\<rparr>")
    case (Inr bytes)
    have "sent = (if ok then bytes # later else later)" using Cons.prems Inr l by (simp add: p)
    moreover have "read_frame deser (bytes @ concat later @ rest) = Inr (\<lparr>sm_snapshot = s, sm_done = False\<rparr>, concat later @ rest)"
      using frame_roundtrip [OF Inr serde] .
    ultimately show ?thesis using ih by (auto simp: read_agent_snapshot.simps [of deser "bytes @ concat later @ rest"])
  qed (use Cons.prems l ih p in simp)
qed

lemma run_agent_ok:
  assumes "run_agent J run version token received = (frames, job, Some (Inr ()))"
  shows "\<exists>hello a rest loop. write_frame (ser_hello J) \<lparr>hello_token = token, hello_version = version\<rparr> = Inr hello \<and>
    read_frame (de_assign J) received = Inr (a, rest) \<and> job = Some (worker_config a) \<and> frames = hello # loop \<and>
    agent_loop (ser_snapshot J) (run (worker_config a)) = (loop, Some (Inr ()))"
  using assms unfolding run_agent_def Let_def
  by (auto split: sum.splits if_splits prod.splits)

lemma agent_task_served:
  assumes "accepted c = Some True \<and> hello_in_time c \<and> write_ok c \<and> snapshot_in_time c"
    and "read_frame (de_hello J) (incoming c) = Inr (hello, rest)" and "hello_token hello = token"
    and "fst (agent_task J token a c) \<noteq> []"
  shows "write_frame (ser_assign J) a = Inr (fst (agent_task J token a c))"
    and "read_agent_snapshot (de_snapshot J) rest = Inr s \<Longrightarrow> snd (agent_task J token a c) = Inr (asg_index a, s)"
  using assms by (auto simp: agent_task_def token_matches_iff split: sum.splits)

lemma join_all:
  "k + length ss = length slots \<Longrightarrow>
   join_tasks (map (\<lambda>(i, s). Some (Inr (i, s))) (enumerate k ss)) slots = Inr (take k slots @ map Some ss)"
proof (induction ss arbitrary: k slots)
  case (Cons s ss)
  then show ?case using Cons.IH [of "Suc k" "slots[k := Some s]"] by (simp add: take_Suc_conv_app_nth)
qed simp

text \<open>One agent and the task that serves it, each reading what the other wrote.\<close>

lemma agent_served_by_task:
  assumes serde: "\<And>m data. ser_hello J m = Some data \<Longrightarrow> de_hello J data = Some m"
      "\<And>m data. ser_assign J m = Some data \<Longrightarrow> de_assign J data = Some m"
      "\<And>m data. ser_snapshot J m = Some data \<Longrightarrow> de_snapshot J data = Some m"
    and "accepted c = Some True \<and> hello_in_time c \<and> write_ok c \<and> snapshot_in_time c"
    and agent: "run_agent J run version token (fst (agent_task J token a c)) = (frames, job, Some (Inr ()))"
    and "incoming c = concat frames"
    and engine: "\<And>cfg. \<exists>ps. run cfg = map (\<lambda>(s, ok). Progress s ok) ps @ [Engine_done (Inr (final cfg)) True]"
  shows "job = Some (worker_config a) \<and> snd (agent_task J token a c) = Inr (asg_index a, final (worker_config a))"
proof -
  obtain hello b rest loop where h: "write_frame (ser_hello J) \<lparr>hello_token = token, hello_version = version\<rparr> = Inr hello"
    and b: "read_frame (de_assign J) (fst (agent_task J token a c)) = Inr (b, rest)" and job: "job = Some (worker_config b)"
    and f: "frames = hello # loop" and l: "agent_loop (ser_snapshot J) (run (worker_config b)) = (loop, Some (Inr ()))"
    using run_agent_ok [OF agent] by blast
  have hello: "read_frame (de_hello J) (incoming c) = Inr (\<lparr>hello_token = token, hello_version = version\<rparr>, concat loop)"
    using frame_roundtrip [OF h serde(1), where rest = "concat loop"] assms(6) f by simp
  have sent: "fst (agent_task J token a c) \<noteq> []"
    using b by (auto simp: read_frame_def read_exact_def)
  note served = agent_task_served [OF assms(4) hello _ sent, simplified]
  have "b = a" using frame_roundtrip [OF served(1) serde(2), where rest = "[]"] b by simp
  moreover obtain ps where "run (worker_config b) = map (\<lambda>(s, ok). Progress s ok) ps @ [Engine_done (Inr (final (worker_config b))) True]"
    using engine by blast
  ultimately show ?thesis
    using agent_loop_read [of "ser_snapshot J" ps "final (worker_config b)" loop "de_snapshot J" "[]"] l serde(3) served(2) job by simp
qed

text \<open>
  C4. A whole distributed run: when every connection is served in time and every agent ends normally,
  agent \<open>i\<close> ran the job of the controller restricted to segment \<open>i\<close>, as a worker, and the result is
  the merge of the final snapshots of these runs, in order. Each side reads exactly the bytes the
  other wrote; of JSON only the round trip is used.
\<close>

theorem distributed_run:
  assumes serde: "\<And>m data. ser_hello J m = Some data \<Longrightarrow> de_hello J data = Some m"
      "\<And>m data. ser_assign J m = Some data \<Longrightarrow> de_assign J data = Some m"
      "\<And>m data. ser_snapshot J m = Some data \<Longrightarrow> de_snapshot J data = Some m"
    and segs: "controller_segments display (jc_sequence config) n = Inr (segs, sq)" "length segs = n" "0 < n"
    and controller: "run_controller X dec el ol al display w J config n token (\<lambda>_. False) conns = (sent, r)"
    and conns: "length conns = n"
      "\<And>i. i < n \<Longrightarrow> accepted (conns ! i) = Some True \<and> hello_in_time (conns ! i) \<and> write_ok (conns ! i) \<and> snapshot_in_time (conns ! i)"
    and agents: "\<And>i. i < n \<Longrightarrow> run_agent J (run i) version token (sent ! i) = (frames i, job i, Some (Inr ()))"
    and network: "\<And>i. i < n \<Longrightarrow> incoming (conns ! i) = concat (frames i)"
    and engine: "\<And>i cfg. i < n \<Longrightarrow> \<exists>ps. run i cfg = map (\<lambda>(s, ok). Progress s ok) ps @ [Engine_done (Inr (final i cfg)) True]"
  defines "cfg \<equiv> \<lambda>i. config\<lparr>jc_output := w (jc_output config), jc_worker := True, jc_segment := Some (segs ! i), jc_sequence := sq\<rparr>"
  shows "(\<forall>i < n. job i = Some (cfg i)) \<and>
    r = (case merge_snapshots X dec el ol al (jc_thresholds config) (map (\<lambda>i. final i (cfg i)) [0..<n]) of
           Inl e \<Rightarrow> Inl (Merge_failed e) | Inr m \<Rightarrow> Inr m)"
proof -
  note tasks = run_controller_tasks [OF segs(3,1,2) conns(1) controller]
  have assigned: "worker_config (assignments w token config n segs sq ! i) = cfg i" if "i < n" for i
    using that segs(2) by (simp add: worker_config_def assignments_def nth_enumerate_eq cfg_def)
  have served: "job i = Some (cfg i) \<and>
      snd (agent_task J token (assignments w token config n segs sq ! i) (conns ! i)) = Inr (i, final i (cfg i))" if "i < n" for i
  proof -
    have s: "sent ! i = fst (agent_task J token (assignments w token config n segs sq ! i) (conns ! i))"
      using that tasks(1) by simp
    show ?thesis
      using agent_served_by_task [OF serde conns(2) [OF that] agents [OF that, unfolded s] network [OF that] engine [OF that]]
        assigned [OF that] that segs(2) by simp
  qed
  have "map (\<lambda>i. if False then None else Some (snd (agent_task J token (assignments w token config n segs sq ! i) (conns ! i)))) [0..<n]
      = map (\<lambda>(i, s). Some (Inr (i, s))) (enumerate 0 (map (\<lambda>i. final i (cfg i)) [0..<n]))"
    using served by (intro nth_equalityI) (simp_all add: nth_enumerate_eq)
  then have "r = (case merge_snapshots X dec el ol al (jc_thresholds config) (map (\<lambda>i. final i (cfg i)) [0..<n]) of
           Inl e \<Rightarrow> Inl (Merge_failed e) | Inr m \<Rightarrow> Inr m)"
    using tasks(2) join_all [of 0 "map (\<lambda>i. final i (cfg i)) [0..<n]" "replicate n None"]
    by (simp only:) (simp add: filter_slots del: map_map)
  then show ?thesis using served by blast
qed

theorem distributed_run_witness:
  "\<exists>m. snd (run_controller exact_store Some 0 0 0 (\<lambda>_. []) id demo_codec demo_config 2 ''k'' (\<lambda>_. False) demo_conns) = Inr m \<and>
     dropped_iterations m = 3 \<and>
     fst (snd (run_agent demo_codec (demo_run 1) ''1'' ''k'' (demo_frame ''1''))) =
       Some (demo_config\<lparr>jc_worker := True, jc_segment := Some ''1/2:2/2'', jc_sequence := Some ''0/2,1/2,2/2''\<rparr>)"
proof -
  let ?segs = "[''0/2:1/2'', ''1/2:2/2'']" and ?sq = "Some ''0/2,1/2,2/2''"
  have segs: "controller_segments (\<lambda>_. []) (jc_sequence demo_config) 2 = Inr (?segs, ?sq)" by code_simp
  have frames: "incoming (demo_conns ! i) = concat (demo_frames i)" "accepted (demo_conns ! i) = Some True \<and>
      hello_in_time (demo_conns ! i) \<and> write_ok (demo_conns ! i) \<and> snapshot_in_time (demo_conns ! i)" if "i < 2" for i
    using that by (auto simp: demo_conns_def less_2_cases_iff)
  have engine: "\<exists>ps. demo_run i cfg = map (\<lambda>(s, ok). Progress s ok) ps @ [Engine_done (Inr ((\<lambda>i cfg. demo_snapshot i) i cfg)) True]" for i cfg
    by (intro exI [of _ "[]"]) (simp add: demo_run_def)
  note t = distributed_run [OF demo_serde segs _ _ demo_controller _ frames(2) demo_agent frames(1) engine]
  have "jc_thresholds demo_config = []" "[0..<2] = [0, 1 :: nat]" "length demo_conns = 2" by code_simp+
  note r = t [simplified this, simplified]
  obtain m where "merge_snapshots exact_store Some 0 0 0 [] [demo_snapshot 0, demo_snapshot 1] = Inr m" "dropped_iterations m = 3"
    using demo_merged by (auto split: sum.splits)
  moreover have "run_agent demo_codec (demo_run 1) ''1'' ''k'' (demo_frame ''1'') = (demo_frames 1, Some (worker_config (demo_assign 1)), Some (Inr ()))"
    using demo_agent [of 1] by simp
  ultimately show ?thesis using r by (auto simp: demo_config_def)
qed

section \<open>A run in one process\<close>

lemma await_agents_ok: "await_agents hs = Inr () \<longleftrightarrow> (\<forall>h \<in> set hs. h = Some (Inr ()))"
  by (induction hs rule: await_agents.induct) auto

text \<open>A run in one process returns a result only if every agent ended normally and the controller merged it.\<close>

theorem run_cloud_ok:
  "run_cloud X dec el ol al display w J config n token panics conns bound handles = Inr m \<longleftrightarrow>
     0 < n \<and> bound \<and> list_all (\<lambda>h. h = Some (Inr ())) handles \<and>
     snd (run_controller X dec el ol al display w J config n token panics conns) = Inr m"
proof -
  have "await_agents handles = Inr () \<longleftrightarrow> list_all (\<lambda>h. h = Some (Inr ())) handles"
    by (simp add: await_agents_ok list_all_iff)
  then show ?thesis
    unfolding run_cloud_def
    by (cases "await_agents handles") (auto split: sum.splits)
qed

section \<open>The verdict of a run\<close>

lemma run_reporters_ok: "run_reporters ks r = Inr () \<longleftrightarrow> (\<forall>k \<in> set ks. k r = None)"
  by (induction ks) (auto split: option.splits)

lemma any_failed_iff: "fold (\<lambda>tr failed. if tr_passed tr then failed else True) trs b \<longleftrightarrow> b \<or> (\<exists>tr \<in> set trs. \<not> tr_passed tr)"
  by (induction trs arbitrary: b) auto

text \<open>
  The command that ends a distributed run succeeds exactly when every known reporter does and every
  threshold the merged result carries has passed; when the reporters succeed, failing means failed
  thresholds.
\<close>

theorem report_verdict:
  "report_and_thresholds X pd create names r = Inr () \<longleftrightarrow>
     (\<forall>name \<in> set names. \<forall>k. create name = Some k \<longrightarrow> k r = None) \<and>
     (\<forall>t \<in> set (effective_thresholds r). tr_passed (threshold_verdict X pd r t))"
proof -
  have "(\<exists>tr \<in> set (evaluate_thresholds X pd ts r). \<not> tr_passed tr) \<longleftrightarrow> (\<exists>t \<in> set ts. \<not> tr_passed (threshold_verdict X pd r t))" for ts
    by (simp add: evaluate_thresholds_def)
  moreover have "run_reporters (List.map_filter create names) r = Inr () \<longleftrightarrow> (\<forall>name \<in> set names. \<forall>k. create name = Some k \<longrightarrow> k r = None)"
    unfolding run_reporters_ok by (force simp: List.map_filter_def)
  ultimately show ?thesis
    unfolding report_and_thresholds_def Let_def any_failed_iff
    by (cases "run_reporters (List.map_filter create names) r") auto
qed

end
