(* ===== verification/Yaml.thy ===== *)
theory Yaml
  imports Floats
begin

text \<open>
  Kubernetes manifests of a distributed run: the YAML emitter \<^verbatim>\<open>crates/tropel-distributed/src/yaml.rs\<close> and
  \<^verbatim>\<open>generate_k8s_manifests\<close> of \<^verbatim>\<open>cloud.rs\<close>. Reading a file and printing the job as JSON are parameters;
  the text of an embedded file is taken to be valid UTF-8, which \<^verbatim>\<open>from_utf8_lossy\<close> leaves alone.
\<close>

section \<open>Scalars\<close>

definition code :: "char \<Rightarrow> nat" where "code c = of_char c"

definition is_ascii_hexdigit :: "char \<Rightarrow> bool" where
  "is_ascii_hexdigit c \<longleftrightarrow>
     (48 \<le> code c \<and> code c \<le> 57) \<or> (65 \<le> code c \<and> code c \<le> 70) \<or> (97 \<le> code c \<and> code c \<le> 102)"

definition is_yaml_resolvable :: "string \<Rightarrow> bool" where
  "is_yaml_resolvable s =
     (if s = ''~'' then True
      else if to_ascii_lowercase s \<in> set [''true'', ''false'', ''yes'', ''no'', ''on'', ''off'', ''null''] then True
      else if CHR '':'' \<in> set s then False
      else if parse_f64 s \<noteq> None then True
      else (case (case strip_prefix ''0x'' s of Some h \<Rightarrow> Some h | None \<Rightarrow> strip_prefix ''0X'' s) of
              Some hex \<Rightarrow> hex \<noteq> [] \<and> list_all is_ascii_hexdigit hex
            | None \<Rightarrow> False))"

definition indicators :: string where
  "indicators = ''-?:,[]{}#&*!|>'' @ [char_of (39 :: nat), char_of (34 :: nat)] @ ''%@'' @ [char_of (96 :: nat)] @ ''~''"

text \<open>The byte at \<open>i\<close> of the loop, with the bytes before and after it.\<close>

definition plain_byte :: "string \<Rightarrow> nat \<Rightarrow> bool" where
  "plain_byte s i =
     (let b = s ! i in
      if b = CHR '':'' then \<not> (length s \<le> i + 1 \<or> s ! (i + 1) = CHR '' '')
      else if b = CHR ''#'' then \<not> (i = 0 \<or> s ! (i - 1) = CHR '' '')
      else if code b = 34 \<or> code b = 39 \<or> code b = 92 then False
      else \<not> code b \<le> 31)"

definition plain_safe :: "string \<Rightarrow> bool" where
  "plain_safe s =
     (if s = [] then False
      else if hd s = CHR '' '' then False
      else if hd s \<in> set indicators then False
      else if CHR '' '' \<in> set s then False
      else if is_yaml_resolvable s then False
      else list_all (plain_byte s) [0..<length s])"

definition lower_hex :: "nat \<Rightarrow> char" where
  "lower_hex d = (if d < 10 then char_of (48 + d) else char_of (87 + d))"

definition BS :: char where "BS = char_of (92 :: nat)"
definition DQ :: char where "DQ = char_of (34 :: nat)"

definition quote_char :: "char \<Rightarrow> string" where
  "quote_char c =
     (if c = DQ then [BS, DQ]
      else if c = BS then [BS, BS]
      else if code c = 10 then [BS, CHR ''n'']
      else if code c = 13 then [BS, CHR ''r'']
      else if code c = 9 then [BS, CHR ''t'']
      else if code c < 32 then [BS, CHR ''x'', lower_hex (code c div 16), lower_hex (code c mod 16)]
      else [c])"

definition double_quote :: "string \<Rightarrow> string" where
  "double_quote s = DQ # concat (map quote_char s) @ [DQ]"

definition scalar :: "string \<Rightarrow> string" where
  "scalar s = (if plain_safe s then s else double_quote s)"

section \<open>Documents\<close>

type_synonym yaml_doc = "string list"

definition indent :: "nat \<Rightarrow> string" where "indent level = replicate (2 * level) (CHR '' '')"

definition kv :: "nat \<Rightarrow> string \<Rightarrow> string \<Rightarrow> yaml_doc \<Rightarrow> yaml_doc" where
  "kv level key v y = y @ [indent level @ key @ '': '' @ scalar v]"

definition kv_num :: "nat \<Rightarrow> string \<Rightarrow> nat \<Rightarrow> yaml_doc \<Rightarrow> yaml_doc" where
  "kv_num level key v y = y @ [indent level @ key @ '': '' @ show_nat v]"

definition kv_plain :: "nat \<Rightarrow> string \<Rightarrow> string \<Rightarrow> yaml_doc \<Rightarrow> yaml_doc" where
  "kv_plain level key v y = y @ [indent level @ key @ '': '' @ v]"

definition yaml_key :: "nat \<Rightarrow> string \<Rightarrow> yaml_doc \<Rightarrow> yaml_doc" where
  "yaml_key level key y = y @ [indent level @ key @ '':'']"

definition item :: "nat \<Rightarrow> string \<Rightarrow> yaml_doc \<Rightarrow> yaml_doc" where
  "item level v y = y @ [indent level @ ''- '' @ double_quote v]"

definition item_kv :: "nat \<Rightarrow> string \<Rightarrow> string \<Rightarrow> yaml_doc \<Rightarrow> yaml_doc" where
  "item_kv level key v y = y @ [indent level @ ''- '' @ key @ '': '' @ scalar v]"

text \<open>\<^verbatim>\<open>str::lines\<close>: no empty last line, and a carriage return before a line feed is dropped.\<close>

definition strip_cr :: "string \<Rightarrow> string" where
  "strip_cr l = (if l \<noteq> [] \<and> code (last l) = 13 then butlast l else l)"

definition str_lines :: "string \<Rightarrow> string list" where
  "str_lines s =
     (let ps = split_on (char_of (10 :: nat)) s;
          full = map strip_cr (butlast ps)
      in if last ps = [] then full else full @ [last ps])"

definition block :: "nat \<Rightarrow> string \<Rightarrow> string \<Rightarrow> yaml_doc \<Rightarrow> yaml_doc" where
  "block level key content y =
     (y @ [indent level @ key @ '': |-'']) @ map (\<lambda>line. indent (level + 2) @ line) (str_lines content)"

definition comment :: "string \<Rightarrow> yaml_doc \<Rightarrow> yaml_doc" where
  "comment t y = y @ [''# '' @ t]"

definition separator :: "yaml_doc \<Rightarrow> yaml_doc" where
  "separator y = y @ [''---'']"

definition finish :: "yaml_doc \<Rightarrow> string" where
  "finish y = join [char_of (10 :: nat)] y @ [char_of (10 :: nat)]"

section \<open>The manifests\<close>

definition path_extension :: "string \<Rightarrow> string option" where
  "path_extension p =
     (let file = last (split_on (CHR ''/'') p);
          parts = split_on (CHR ''.'') file
      in if file = ''..'' \<or> length parts < 2 \<or> (length parts = 2 \<and> hd parts = []) then None
         else Some (last parts))"

definition input_key :: "string \<Rightarrow> string" where
  "input_key p =
     ''input.'' @ (case path_extension p of Some (c # cs) \<Rightarrow> c # cs | _ \<Rightarrow> ''json'')"

definition JOB_BACKOFF_LIMIT :: nat where "JOB_BACKOFF_LIMIT = 3"

datatype manifest_error = No_agents | Job_not_serializable

definition run_doc :: "(yaml_doc \<Rightarrow> yaml_doc) list \<Rightarrow> yaml_doc \<Rightarrow> yaml_doc" where
  "run_doc ops y = fold (\<lambda>f y. f y) ops y"

definition object_head :: "string \<Rightarrow> string \<Rightarrow> string \<Rightarrow> string \<Rightarrow> (yaml_doc \<Rightarrow> yaml_doc) list" where
  "object_head api kind obj ns =
     [kv 0 ''apiVersion'' api, kv 0 ''kind'' kind, yaml_key 0 ''metadata'', kv 1 ''name'' obj, kv 1 ''namespace'' ns]"

definition pod_mounts :: "(yaml_doc \<Rightarrow> yaml_doc) list" where
  "pod_mounts =
     [yaml_key 5 ''volumeMounts'', item_kv 6 ''name'' ''job'', kv 7 ''mountPath'' ''/etc/tropel'', kv_plain 7 ''readOnly'' ''true'',
      yaml_key 2 ''volumes'', item_kv 3 ''name'' ''job'', yaml_key 4 ''configMap'', kv 5 ''name'' ''tropel-job'']"

definition config_map :: "string \<Rightarrow> string \<Rightarrow> string \<Rightarrow> (string \<times> string) option \<Rightarrow> (yaml_doc \<Rightarrow> yaml_doc) list" where
  "config_map ns job_json token input_embed =
     object_head ''v1'' ''ConfigMap'' ''tropel-job'' ns @
     [yaml_key 0 ''data'', block 1 ''job.json'' job_json, block 1 ''token'' token] @
     (case input_embed of Some (k, content) \<Rightarrow> [block 1 k content] | None \<Rightarrow> []) @ [separator]"

definition controller_job :: "string \<Rightarrow> string \<Rightarrow> nat \<Rightarrow> nat \<Rightarrow> (yaml_doc \<Rightarrow> yaml_doc) list" where
  "controller_job ns img agents port =
     object_head ''batch/v1'' ''Job'' ''tropel-controller'' ns @
     [yaml_key 0 ''spec'', kv_num 1 ''completions'' 1, kv_num 1 ''backoffLimit'' JOB_BACKOFF_LIMIT,
      yaml_key 1 ''template'', yaml_key 2 ''metadata'', yaml_key 3 ''labels'', kv 4 ''app'' ''tropel-controller'',
      yaml_key 2 ''spec'', kv 3 ''restartPolicy'' ''Never'', yaml_key 3 ''containers'',
      item_kv 4 ''name'' ''controller'', kv 5 ''image'' img, yaml_key 5 ''command'', item 6 ''tropel-cloud-run'',
      yaml_key 5 ''args'', item 6 ''controller'', item 6 ''--config'', item 6 ''/etc/tropel/job.json'',
      item 6 ''--agents'', item 6 (show_nat agents), item 6 ''--listen'', item 6 (''0.0.0.0:'' @ show_nat port),
      item 6 ''--token-file'', item 6 ''/etc/tropel/token'',
      yaml_key 5 ''ports'', item_kv 6 ''name'' ''control'', kv_num 7 ''containerPort'' port] @
     pod_mounts @ [separator]"

definition service_ports :: "nat \<Rightarrow> (yaml_doc \<Rightarrow> yaml_doc) list" where
  "service_ports port =
     [yaml_key 1 ''ports'', item_kv 2 ''name'' ''control'', kv_num 3 ''port'' port, kv_num 3 ''targetPort'' port]"

definition controller_service :: "string \<Rightarrow> nat \<Rightarrow> (yaml_doc \<Rightarrow> yaml_doc) list" where
  "controller_service ns port =
     object_head ''v1'' ''Service'' ''tropel-controller'' ns @
     [yaml_key 0 ''spec'', yaml_key 1 ''selector'', kv 2 ''app'' ''tropel-controller''] @ service_ports port @ [separator]"

definition agent_job :: "string \<Rightarrow> string \<Rightarrow> nat \<Rightarrow> nat \<Rightarrow> (yaml_doc \<Rightarrow> yaml_doc) list" where
  "agent_job ns img agents port =
     object_head ''batch/v1'' ''Job'' ''tropel-agent'' ns @
     [yaml_key 0 ''spec'', kv_num 1 ''completions'' agents, kv_num 1 ''parallelism'' agents,
      kv 1 ''completionMode'' ''Indexed'', kv_num 1 ''backoffLimit'' JOB_BACKOFF_LIMIT,
      yaml_key 1 ''template'', yaml_key 2 ''metadata'', yaml_key 3 ''labels'', kv 4 ''app'' ''tropel-agent'',
      yaml_key 2 ''spec'', kv 3 ''restartPolicy'' ''Never'', yaml_key 3 ''containers'',
      item_kv 4 ''name'' ''agent'', kv 5 ''image'' img, yaml_key 5 ''command'', item 6 ''tropel-cloud-run'',
      yaml_key 5 ''args'', item 6 ''agent'', item 6 ''--controller'', item 6 (''tropel-controller:'' @ show_nat port),
      item 6 ''--token-file'', item 6 ''/etc/tropel/token''] @
     pod_mounts @ [separator]"

definition agent_service :: "string \<Rightarrow> nat \<Rightarrow> (yaml_doc \<Rightarrow> yaml_doc) list" where
  "agent_service ns port =
     object_head ''v1'' ''Service'' ''tropel-agent'' ns @
     [yaml_key 0 ''spec'', kv 1 ''clusterIP'' ''None'', yaml_key 1 ''selector'', kv 2 ''app'' ''tropel-agent''] @
     service_ports port"

text \<open>
  \<open>read_file\<close> reads the input of the job as text and \<open>to_json\<close> prints the job with the given input. The dash
  of the first comment is the three bytes of an em dash.
\<close>

definition generate_k8s_manifests ::
    "(string \<Rightarrow> string option) \<Rightarrow> (string \<Rightarrow> string option) \<Rightarrow> string \<Rightarrow> nat \<Rightarrow> string \<Rightarrow> string \<Rightarrow> nat \<Rightarrow> string \<Rightarrow>
     manifest_error + string" where
  "generate_k8s_manifests read_file to_json input agents img0 namespace port token =
     (if agents = 0 then Inl No_agents
      else
        (let ns = (if namespace = [] then ''default'' else namespace);
             img = (if img0 = [] then ''tropel:latest'' else img0);
             (effective, input_embed) = (case read_file input of
                Some bytes \<Rightarrow> (''/etc/tropel/'' @ input_key input, Some (input_key input, bytes))
              | None \<Rightarrow> (input, None))
         in bindE (ok_or Job_not_serializable (to_json effective)) (\<lambda>job_json. Inr (finish (run_doc
              ([comment (''Generated by '' @ [char_of (96 :: nat)] @ ''tropel-cloud-run k8s'' @ [char_of (96 :: nat)] @ '' '' @
                  map char_of [226, 128, 148 :: nat] @ '' '' @ ns @ '' / '' @ show_nat agents @ '' agent(s)''),
                comment ''Apply:  kubectl apply -f -   (or write to a file first)''] @
               config_map ns job_json token input_embed @ controller_job ns img agents port @
               controller_service ns port @ agent_job ns img agents port @ agent_service ns port) [])))))"

section \<open>Reading scalars back\<close>

text \<open>
  What YAML makes of a scalar on a line of its own: a double-quoted one is unescaped up to the
  closing quote; a plain one must avoid the indicators and is a string only if it does not resolve
  to another type.
\<close>

definition hex_of :: "char \<Rightarrow> nat option" where
  "hex_of c =
     (if 48 \<le> code c \<and> code c \<le> 57 then Some (code c - 48)
      else if 97 \<le> code c \<and> code c \<le> 102 then Some (code c - 87)
      else None)"

definition unescape1 :: "char \<Rightarrow> char option" where
  "unescape1 d =
     (if d = DQ then Some DQ else if d = BS then Some BS
      else if d = CHR ''n'' then Some (char_of (10 :: nat)) else if d = CHR ''r'' then Some (char_of (13 :: nat))
      else if d = CHR ''t'' then Some (char_of (9 :: nat)) else None)"

fun unquote :: "string \<Rightarrow> string option" where
  "unquote [] = None"
| "unquote [c] = (if c = DQ then Some [] else None)"
| "unquote (c # d # cs) =
     (if c = DQ then None
      else if c \<noteq> BS then map_option ((#) c) (unquote (d # cs))
      else if d = CHR ''x'' then
        (case cs of
           h # l # r \<Rightarrow>
             (case (hex_of h, hex_of l) of
                (Some a, Some b) \<Rightarrow> map_option ((#) (char_of (a * 16 + b))) (unquote r)
              | _ \<Rightarrow> None)
         | _ \<Rightarrow> None)
      else (case unescape1 d of Some e \<Rightarrow> map_option ((#) e) (unquote cs) | None \<Rightarrow> None))"

definition yaml_plain :: "string \<Rightarrow> bool" where
  "yaml_plain t \<longleftrightarrow> t \<noteq> [] \<and> hd t \<notin> set indicators \<and> hd t \<noteq> CHR '' '' \<and> last t \<noteq> CHR '' '' \<and> last t \<noteq> CHR '':'' \<and>
     \<not> contains_str '': '' t \<and> \<not> contains_str '' #'' t \<and> \<not> is_yaml_resolvable t"

definition read_scalar :: "string \<Rightarrow> string option" where
  "read_scalar t =
     (case t of c # cs \<Rightarrow> if c = DQ then unquote cs else if yaml_plain t then Some t else None | [] \<Rightarrow> None)"

lemma code_char_of [simp]: "n < 256 \<Longrightarrow> code (char_of n) = n"
  by (simp add: code_def)

lemma char_of_code [simp]: "char_of (code c) = c"
  by (simp add: code_def)

lemma code_inj: "code c = code d \<Longrightarrow> c = d"
  by (metis char_of_code)

lemma hex_of_lower_hex [simp]: "d < 16 \<Longrightarrow> hex_of (lower_hex d) = Some d"
  by (simp add: hex_of_def lower_hex_def)

lemma code_small_char [simp]: "code c = 10 \<Longrightarrow> char_of (10 :: nat) = c" "code c = 13 \<Longrightarrow> char_of (13 :: nat) = c"
  "code c = 9 \<Longrightarrow> char_of (9 :: nat) = c"
  by (metis char_of_code)+

lemma escape_letters [simp]:
  "DQ \<noteq> BS" "CHR ''x'' \<noteq> DQ" "CHR ''x'' \<noteq> BS" "CHR ''n'' \<noteq> DQ" "CHR ''n'' \<noteq> BS" "CHR ''r'' \<noteq> DQ" "CHR ''r'' \<noteq> BS"
  "CHR ''t'' \<noteq> DQ" "CHR ''t'' \<noteq> BS"
  by code_simp+

lemmas escape_letters_sym [simp] = escape_letters [symmetric]

lemma unquote_char:
  assumes "t \<noteq> []"
  shows "unquote (quote_char c @ t) = map_option ((#) c) (unquote t)"
proof -
  obtain d r where t: "t = d # r" using assms by (cases t) auto
  have "code c < 32 \<Longrightarrow> code c div 16 * 16 + code c mod 16 = code c" by simp
  then show ?thesis
    by (auto simp: quote_char_def unescape1_def t)
qed

lemma unquote_quoted: "unquote (concat (map quote_char s) @ [DQ]) = Some s"
  by (induction s) (simp_all add: unquote_char)

lemma contains_str_set: "contains_str p s \<Longrightarrow> set p \<subseteq> set s"
proof (induction p s rule: contains_str.induct)
  case (2 p c cs)
  then show ?case
    by (auto simp: starts_with_def) (metis in_set_takeD set_ConsD)
qed simp

lemma plain_safe_plain:
  assumes "plain_safe s"
  shows "yaml_plain s" "hd s \<noteq> DQ" "list_all (\<lambda>c. 32 \<le> code c) s"
proof -
  have s: "s \<noteq> []" "hd s \<notin> set indicators" "CHR '' '' \<notin> set s" "\<not> is_yaml_resolvable s" "list_all (plain_byte s) [0..<length s]"
    using assms by (auto simp: plain_safe_def split: if_splits)
  then have b: "i < length s \<Longrightarrow> plain_byte s i" for i by (simp add: list_all_iff)
  have "\<not> contains_str '': '' s" "\<not> contains_str '' #'' s" using s(3) contains_str_set by fastforce+
  moreover have "last s \<noteq> CHR '':''" using b [of "length s - 1"] s(1) by (auto simp: plain_byte_def last_conv_nth Let_def)
  moreover have "hd s \<noteq> CHR '' ''" "last s \<noteq> CHR '' ''" using s(1,3) by (metis hd_in_set, metis last_in_set)
  ultimately show "yaml_plain s" using s by (simp add: yaml_plain_def)
  show "hd s \<noteq> DQ" using s(2) by (auto simp: indicators_def DQ_def)
  have "32 \<le> code (s ! i)" if "i < length s" for i
    using b [OF that] by (cases "s ! i = CHR '':'' \<or> s ! i = CHR ''#''") (auto simp: plain_byte_def Let_def code_def split: if_splits)
  then show "list_all (\<lambda>c. 32 \<le> code c) s" by (simp add: list_all_length)
qed

lemma quote_char_printable: "list_all (\<lambda>c. 32 \<le> code c) (quote_char c)"
  by (auto simp: quote_char_def lower_hex_def BS_def DQ_def code_def)


text \<open>
  A literal block takes its indentation from its first line: content that starts with a space shifts
  it, and a later line at the column of the block is then outside of it.
\<close>

lemma block_takes_leading_space:
  "block 1 ''input.js'' ('' // a'' @ [char_of (10 :: nat)] @ ''b'') [] =
     [''  input.js: |-'', ''       // a'', ''      b'']"
  by code_simp

text \<open>The volumes of both pods stand beside the pod specification instead of inside it.\<close>

lemma volumes_outside_spec:
  "indent 2 @ ''volumes:'' \<in> set (run_doc (controller_job ns img n port) [])"
  "indent 2 @ ''spec:'' \<in> set (run_doc (controller_job ns img n port) [])"
  "indent 3 @ ''restartPolicy: Never'' \<in> set (run_doc (controller_job ns img n port) [])"
proof -
  have sc: "scalar ''Never'' = ''Never''" by code_simp
  show "indent 2 @ ''volumes:'' \<in> set (run_doc (controller_job ns img n port) [])"
    "indent 2 @ ''spec:'' \<in> set (run_doc (controller_job ns img n port) [])"
    "indent 3 @ ''restartPolicy: Never'' \<in> set (run_doc (controller_job ns img n port) [])"
    by (simp_all add: run_doc_def controller_job_def object_head_def pod_mounts_def kv_def kv_num_def kv_plain_def
        yaml_key_def item_def item_kv_def separator_def sc)
qed

end
