(* ===== verification/Spec2Isabelle.thy ===== *)
theory Spec2Isabelle
  imports Scaling Control Arrival_Run Sharding Threshold_Eval Rps Cookie_Jar Dns Proxy Pacing Distributed Yaml
begin

text \<open>
  \<^bold>\<open>A verification library of the tropel load generator.\<close>

  \<^bold>\<open>The program.\<close> tropel runs a script or an imported request collection as a load test. A load
  profile is scaled to the execution segment of the node (\<^verbatim>\<open>tropel-core/src/segment.rs\<close>), validated
  and dispatched to one of seven executors (\<^verbatim>\<open>tropel-scheduler/src/scheduler.rs\<close>). An executor spawns
  virtual users, each of which runs the iteration loop of \<^verbatim>\<open>tropel-engine/src/vu_loop.rs\<close> and shares
  atomic counters with the executor. Iterations send requests through \<^verbatim>\<open>tropel-http\<close>, which paces them
  (\<^verbatim>\<open>rps.rs\<close>), chooses a proxy (\<^verbatim>\<open>proxy.rs\<close>), resolves names (\<^verbatim>\<open>dns.rs\<close>) and keeps one
  cookie jar per virtual user (\<^verbatim>\<open>vu_jar.rs\<close>).
  Samples go to the sharded collector of \<^verbatim>\<open>tropel-metrics/src/collector.rs\<close>; thresholds are evaluated
  over its results (\<^verbatim>\<open>thresholds.rs\<close>) during the run, to abort it, and at its end, to fail it. In a
  distributed run (\<^verbatim>\<open>tropel-distributed\<close>) every node is an agent with its own segment, and a
  controller hands out the segments and merges the snapshots of the agents.

  \<^bold>\<open>Conventions.\<close> A fallible function returns a sum whose left side is the error, panics included; an
  \<^verbatim>\<open>i64\<close> is an integer and unsigned numbers are naturals, with the wrap-around of release builds written
  out where it can occur; a string is the list of its bytes; an \<^verbatim>\<open>f64\<close> is a rational, or one of the
  three special values, so rounding is not modelled; a hash map is an association list whose order
  stands for the hash order. Code outside the repository is a parameter with named laws. Locks and
  atomics make single steps; interleavings are sequences of such steps.

  \<^bold>\<open>Theories.\<close>

  \<^item> Prelude, Floats, Assoc: results, fixed-width integers, the string functions of the standard
    library, floating point numbers with their parser, and maps with the entry interface (the locale
    \<open>entry_api\<close>, interpreted on hash and ordered maps).

  \<^item> Exec_Config, Segment, Striping, Arrivals, Scaling: load profiles; segments and sequences with
    their parsers; the striping of global arrivals over the nodes of a sequence and the cursor that
    walks it; the scaling of a profile. Shown: the nodes of a full sequence partition the arrivals and
    the scaled profiles add up to the original; every spelling of a boundary denotes its rational;
    segments are exactly the non-empty rational intervals of the unit interval. The walk of the cursor
    has no bound in the source; it is shown to end.

  \<^item> Sched_State, Vu_Loop, Ramp_Down: the shared state and guards of the scheduler; the iteration loop
    of a virtual user as a machine whose steps are single atomic accesses, and the system of all
    users interleaved with any driver operations. Shown, in every interleaving: counters equal the
    guards held, budgets are not exceeded and are met exactly by runs left alone, which end; a
    stepped ramp-down sheds exactly what it arms.

  \<^item> Arrival_Exec, Dispatch, Executors, Control, Arrival_Run: the arrival-rate executors with their
    token bucket, the ramping rate and its prefix sums, validation and dispatch, the pool executors
    with their task handles and the externally controlled executor. The runtime is a clock that moves
    on and an environment that acts between polls. The loops are given fuel from the clock, which is
    enough because each pass waits; every executor is shown to return. Shown besides: every due
    arrival is accounted for, the ramping rate is the integral of the profile, the configured cap
    holds against any control request, and a validated profile is dispatched without error.

  \<^item> Histogram, Metric_Set, Metric_Result, Aggregator, Snapshots, Collector, Sharding: the latency
    histogram over the hdrhistogram crate (the laws \<open>hdr_laws\<close>), typed series, results, the
    aggregator with its cap on series, snapshots and their merge, the four shards behind bounded
    channels. Shown: no sample is lost by histograms; the kept series amount to all their samples and
    drops are counted; merging snapshots, and merging shards, give what one aggregator would hold;
    every sample is delivered or counted as lost; a corrupt snapshot is refused.

  \<^item> Threshold_Expr, Threshold_Eval: validation, parsing and evaluation of threshold expressions.
    Shown: a validated expression parses to what was validated; the meaning of compound expressions;
    percentiles are read from trends only; a run is aborted exactly on a definite breach.

  \<^item> Rps: the limiter of request starts as a machine of callers over one atomic. Shown: in every
    interleaving the rate is a cap, and no caller can be locked out.

  \<^item> Civil_Date, Cookie_Jar: calendar arithmetic, RFC 1123 dates, the script verbs over the jar, the
    registry of jars and the public-suffix rule of \<^verbatim>\<open>tropel-variables/src/cookies.rs\<close>. Shown: dates
    round trip; the scope a script asks for is granted exactly by the rule.

  \<^item> Ip_Addr, Dns: addresses with the parsers of the standard library, address blocks, and the
    resolver with its static hosts, policies, cache and selection. Shown: no answer is blacklisted,
    whatever its source and interleaving; the forgery guard blocks exactly the non-public ranges; the
    cache is bounded; the most specific static host wins; round robin takes the addresses in turn.

  \<^item> Proxy: bypass rules, the proxy of a client and the candidates of a PAC script. Shown: where every
    request goes; all mistakes of a bypass list are reported; candidates are read and tried in order.

  \<^item> Pacing: the pause after an iteration, with its bounds.

  \<^item> Wire, Distributed: the frames of the protocol between controller and agents, tokens, the split of
    a job over the agents, the tasks of the controller and their join, the agent with its connection
    retries, a run in one process, and the verdict. A connection is the bytes its peer sends and what
    the timers and the socket do to it. Shown: a whole run gives the merge of the runs of the segments,
    each side reading exactly what the other wrote; the equal split is exact; no job is sent before
    the token was presented; every agent is merged once; connecting ends in time.

  \<^item> Yaml: the YAML writer and the Kubernetes manifests of \<^verbatim>\<open>yaml.rs\<close> and \<^verbatim>\<open>cloud.rs\<close>. Shown: every
    string printed as a scalar is read back as itself.

  \<^bold>\<open>Not modelled.\<close> The HTTP and TLS stacks, the JavaScript and WebAssembly engines, the crypto and
  serialisation crates and the SDK crate are not part of the sources; code that only wires them
  together (the engine, the request runner, the script bindings, the importers) has no behaviour of
  its own that could be stated without them. The timing, memory and wake-up order of Tokio are
  represented by arbitrary interleavings only.
\<close>

end
